(* ===== verification/Prelude.thy ===== *)
theory Prelude
  imports "HOL-Library.Word" "HOL-Library.Monad_Syntax" "HOL-Library.Multiset" "HOL-Library.Tree"
begin

unbundle bit_operations_syntax

text \<open>
  Shared vocabulary of the development.

  \<^item> Machine integers are words of the width the source declares (\<open>__u32\<close> is a
    \<^typ>\<open>32 word\<close>); the standard bit functions \<open>std::bit_width\<close>, \<open>std::bit_ceil\<close> and
    \<open>__builtin_clz\<close> are defined on natural numbers.
  \<^item> A pointer to a node is an optional node address: \<^term>\<open>None\<close> is \<open>nullptr\<close>. A
    pointer-to-member field such as \<open>__next_\<close> is a function from addresses to values,
    so that two structures over the same nodes alias exactly when their addresses do.
  \<^item> A C++ expression that may have undefined behaviour (a null dereference, a failed
    \<open>assert\<close>) has a result of type \<open>'a ub\<close>: \<^term>\<open>None\<close> is undefined behaviour, and a
    theorem that an operation returns \<^term>\<open>Some\<close> shows that it has none.
  \<^item> \<open>lseg\<close> is the singly linked segment over a \<open>next\<close> field that the queue components share.
\<close>

section \<open>Collections of rewrite rules\<close>

named_theorems ub_simps \<open>rewriting of computations that may be undefined\<close>
named_theorems seg_simps \<open>rewriting of linked segments\<close>

section \<open>Machine types\<close>

type_synonym u8 = "8 word"
type_synonym u16 = "16 word"
type_synonym u32 = "32 word"
type_synonym u64 = "64 word"
type_synonym s32 = "32 word"

section \<open>Pointers and undefined behaviour\<close>

type_synonym 'n ptr = "'n option"
type_synonym 'a ub = "'a option"
type_synonym ('n, 'v) field = "'n \<Rightarrow> 'v"

abbreviation nullptr :: "'n ptr" where
  "nullptr \<equiv> None"

text \<open>The node a pointer points to, \<open>p->*f\<close> as a value, \<open>p->*f = v\<close> as an assignment, and \<open>assert (c)\<close>.\<close>

definition rd :: "('n, 'v) field \<Rightarrow> 'n ptr \<Rightarrow> 'v ub" where
  "rd f p = (case p of None \<Rightarrow> None | Some a \<Rightarrow> Some (f a))"

definition wr :: "('n, 'v) field \<Rightarrow> 'n ptr \<Rightarrow> 'v \<Rightarrow> ('n, 'v) field ub" where
  "wr f p v = (case p of None \<Rightarrow> None | Some a \<Rightarrow> Some (f(a := v)))"

definition deref :: "'n ptr \<Rightarrow> 'n ub" where
  "deref p = p"

definition assert_c :: "bool \<Rightarrow> unit ub" where
  "assert_c c = (if c then Some () else None)"

lemma rd_simps [simp, ub_simps]: "rd f None = None" "rd f (Some a) = Some (f a)"
  by (simp_all add: rd_def)

lemma wr_simps [simp, ub_simps]: "wr f None v = None" "wr f (Some a) v = Some (f(a := v))"
  by (simp_all add: wr_def)

lemma deref_simps [simp, ub_simps]: "deref None = None" "deref (Some a) = Some a"
  by (simp_all add: deref_def)

lemma deref_eq_Some [ub_simps]: "deref p = Some a \<longleftrightarrow> p = Some a"
  by (simp add: deref_def)

lemma assert_c_simps [simp, ub_simps]: "assert_c True = Some ()" "assert_c False = None"
  by (simp_all add: assert_c_def)

lemma assert_c_eq_Some [ub_simps]: "assert_c c = Some u \<longleftrightarrow> c"
  by (simp add: assert_c_def)

lemma rd_eq_Some [ub_simps]: "rd f p = Some v \<longleftrightarrow> (\<exists>a. p = Some a \<and> f a = v)"
  by (cases p) auto

lemma wr_eq_Some [ub_simps]: "wr f p v = Some g \<longleftrightarrow> (\<exists>a. p = Some a \<and> g = f(a := v))"
  by (cases p) auto

lemmas ub_bind = Option.bind_eq_Some_conv

section \<open>Bit counting\<close>

fun bit_width :: "nat \<Rightarrow> nat" where
  "bit_width n = (if n = 0 then 0 else Suc (bit_width (n div 2)))"

declare bit_width.simps [simp del]

definition bit_ceil :: "nat \<Rightarrow> nat" where
  "bit_ceil n = (if n \<le> 1 then 1 else 2 ^ bit_width (n - 1))"

definition clz :: "nat \<Rightarrow> nat \<Rightarrow> nat" where
  "clz w n = w - bit_width n"

lemma bit_width_0 [simp]: "bit_width 0 = 0"
  by (simp add: bit_width.simps)

lemma bit_width_pos: "n > 0 \<Longrightarrow> bit_width n = Suc (bit_width (n div 2))"
  by (subst bit_width.simps) simp

lemma bit_width_gt0 [simp]: "0 < bit_width n \<longleftrightarrow> 0 < n"
  by (cases "n = 0") (simp_all add: bit_width_pos)

lemma bit_width_upper: "n < 2 ^ bit_width n"
proof (induction n rule: bit_width.induct)
  case (1 n)
  show ?case
  proof (cases "n = 0")
    case False
    with 1 have "n div 2 < 2 ^ bit_width (n div 2)" by simp
    with False show ?thesis by (simp add: bit_width_pos)
  qed simp
qed

lemma bit_width_lower: "n > 0 \<Longrightarrow> 2 ^ (bit_width n - 1) \<le> n"
proof (induction n rule: bit_width.induct)
  case (1 n)
  show ?case
  proof (cases "n div 2 = 0")
    case True
    with 1 have "n = 1" by auto
    then show ?thesis by (simp add: bit_width_pos)
  next
    case False
    with 1 have "2 ^ (bit_width (n div 2) - 1) \<le> n div 2" by simp
    moreover from False have "bit_width (n div 2) = Suc (bit_width (n div 2) - 1)"
      using bit_width_gt0 [of "n div 2"] by simp
    ultimately have "(2::nat) ^ bit_width (n div 2) = 2 * 2 ^ (bit_width (n div 2) - 1)"
      and "2 ^ (bit_width (n div 2) - 1) \<le> n div 2" by (metis power_Suc)+
    then have "2 ^ bit_width (n div 2) \<le> n" by linarith
    with False show ?thesis by (simp add: bit_width_pos)
  qed
qed

lemma bit_width_unique: "2 ^ k \<le> n \<Longrightarrow> n < 2 ^ Suc k \<Longrightarrow> bit_width n = Suc k"
proof -
  assume lo: "2 ^ k \<le> n" and hi: "n < 2 ^ Suc k"
  have "(0::nat) < 2 ^ k" by simp
  with lo have pos: "0 < n" by linarith
  have a: "bit_width n - 1 < Suc k"
    using bit_width_lower [OF pos] hi by (meson le_less_trans one_less_numeral_iff power_less_imp_less_exp semiring_norm(76))
  have b: "k < bit_width n"
    using bit_width_upper [of n] lo by (meson le_less_trans one_less_numeral_iff power_less_imp_less_exp semiring_norm(76))
  from a b show ?thesis by linarith
qed

lemma unat_pow2 [simp]: "k < LENGTH('a) \<Longrightarrow> unat ((2 :: 'a::len word) ^ k) = 2 ^ k"
proof -
  assume "k < LENGTH('a)"
  then have "(2 :: nat) ^ k < 2 ^ LENGTH('a)" by simp
  moreover have "(2 :: 'a word) ^ k = word_of_nat (2 ^ k)" by simp
  ultimately show ?thesis by (simp only: unat_of_nat) simp
qed

lemma unat_u64_bound: "unat (w :: u64) < 2 ^ 64"
  using unsigned_less [of w, where 'a = nat] by simp

lemma unat_u32_bound: "unat (w :: u32) < 2 ^ 32"
  using unsigned_less [of w, where 'a = nat] by simp

lemma unat_max: "unat (- 1 :: u32) = 2 ^ 32 - 1"
  by (simp add: unsigned_minus_1_eq_mask mask_eq_exp_minus_1)

lemma bit_width_le: "a < 2 ^ k \<Longrightarrow> bit_width a \<le> k"
proof (rule ccontr)
  assume a: "a < 2 ^ k" and n: "\<not> bit_width a \<le> k"
  then have k: "k \<le> bit_width a - 1" by simp
  have pos: "0 < a" using n by (cases "a = 0") simp_all
  have "(2::nat) ^ k \<le> 2 ^ (bit_width a - 1)" by (rule power_increasing [OF k]) simp
  also have "\<dots> \<le> a" by (rule bit_width_lower [OF pos])
  finally show False using a by simp
qed

section \<open>Linked segments\<close>

text \<open>\<open>lseg next p xs q\<close>: following \<open>next\<close> from \<open>p\<close> visits exactly the nodes \<open>xs\<close> and arrives at \<open>q\<close>.\<close>

fun lseg :: "('n, 'n ptr) field \<Rightarrow> 'n ptr \<Rightarrow> 'n list \<Rightarrow> 'n ptr \<Rightarrow> bool" where
  "lseg nx p [] q \<longleftrightarrow> p = q"
| "lseg nx p (x # xs) q \<longleftrightarrow> p = Some x \<and> lseg nx (nx x) xs q"

lemma lseg_append [seg_simps]:
  "lseg nx p (xs @ ys) q \<longleftrightarrow> (\<exists>m. lseg nx p xs m \<and> lseg nx m ys q)"
  by (induction xs arbitrary: p) auto

lemma lseg_frame [simp]: "a \<notin> set xs \<Longrightarrow> lseg (nx(a := v)) p xs q \<longleftrightarrow> lseg nx p xs q"
  by (induction xs arbitrary: p) auto

lemma lseg_cong: "(\<And>a. a \<in> set xs \<Longrightarrow> nx a = nx' a) \<Longrightarrow> lseg nx p xs q \<longleftrightarrow> lseg nx' p xs q"
  by (induction xs arbitrary: p) auto

lemma lseg_null [simp]: "lseg nx None xs None \<longleftrightarrow> xs = []"
  by (cases xs) auto

lemma lseg_snoc [seg_simps]: "lseg nx p (xs @ [x]) q \<longleftrightarrow> lseg nx p xs (Some x) \<and> nx x = q"
  by (auto simp: lseg_append)

lemma lseg_unique: "lseg nx p xs None \<Longrightarrow> lseg nx p ys None \<Longrightarrow> xs = ys"
proof (induction xs arbitrary: p ys)
  case Nil
  then show ?case by (cases ys) auto
next
  case (Cons x xs)
  then show ?case by (cases ys) auto
qed

lemma lseg_distinct: "lseg nx p xs None \<Longrightarrow> distinct xs"
proof (induction xs arbitrary: p)
  case (Cons x xs)
  have "x \<notin> set xs"
  proof
    assume "x \<in> set xs"
    then obtain ys zs where xs: "xs = ys @ x # zs" by (meson split_list)
    from Cons.prems have "lseg nx (Some x) (x # xs) None" by auto
    moreover from Cons.prems xs have "lseg nx (Some x) (x # zs) None"
      by (auto simp: lseg_append)
    ultimately have "x # xs = x # zs" by (rule lseg_unique)
    with xs show False by simp
  qed
  with Cons show ?case by auto
qed simp

text \<open>Redirecting the last node of a segment changes where the segment arrives and nothing else.\<close>

lemma lseg_redirect:
  "lseg nx p xs q \<Longrightarrow> xs \<noteq> [] \<Longrightarrow> distinct xs \<Longrightarrow> lseg (nx(last xs := r)) p xs r"
  by (induction xs arbitrary: p) (auto split: if_splits)

end
