(* ===== verification/Round_Up.thy ===== *)
theory Round_Up
  imports Prelude
begin

text \<open>
  \<open>__round_up.hpp\<close>: rounding a 64-bit size or a pointer up to a multiple of a power of two.
  The frame allocator, the promise allocator and both memory resources size their blocks with it.
\<close>

section \<open>Definitions\<close>

definition round_up :: "u64 \<Rightarrow> u64 \<Rightarrow> u64" where
  "round_up x a = (x + a - 1) AND NOT (a - 1)"

text \<open>The overload for pointers does the same computation on \<open>__UINTPTR_TYPE__\<close>.\<close>

definition round_up_ptr :: "u64 \<Rightarrow> u64 \<Rightarrow> u64" where
  "round_up_ptr p a = (let v = p; v' = (v + a - 1) AND NOT (a - 1) in v')"

section \<open>Rounding on words and on natural numbers\<close>

text \<open>The reference: the least multiple of \<open>m\<close> that is not below \<open>n\<close>.\<close>

definition align_up :: "nat \<Rightarrow> nat \<Rightarrow> nat" where
  "align_up n m = ((n + m - 1) div m) * m"

lemma align_up_ge: "0 < m \<Longrightarrow> n \<le> align_up n m"
proof -
  assume m: "0 < m"
  have "(n + m - 1) mod m < m" using m by simp
  moreover have "(n + m - 1) div m * m + (n + m - 1) mod m = n + m - 1" by simp
  ultimately show ?thesis using m unfolding align_up_def by linarith
qed

lemma align_up_less: "0 < m \<Longrightarrow> align_up n m < n + m"
  by (simp add: align_up_def) (metis div_times_less_eq_dividend One_nat_def Suc_pred add_gr_0 le_imp_less_Suc)

lemma align_up_dvd [simp]: "m dvd align_up n m"
  by (simp add: align_up_def)

lemma align_up_least: "0 < m \<Longrightarrow> m dvd k \<Longrightarrow> n \<le> k \<Longrightarrow> align_up n m \<le> k"
proof -
  assume m: "0 < m" and "m dvd k" and le: "n \<le> k"
  then obtain j where k: "k = m * j" by (elim dvdE)
  from le m k have "n + m - 1 < m * Suc j" by simp
  then have "(n + m - 1) div m < Suc j" using m by (metis less_mult_imp_div_less mult.commute)
  then show ?thesis using k by (simp add: align_up_def mult.commute)
qed

lemma word_and_not_mask:
  fixes w :: "'a::len word"
  shows "w AND NOT (mask k) = push_bit k (drop_bit k w)"
  by (rule bit_eqI) (auto simp: bit_simps)

lemma unat_and_not_mask:
  fixes w :: u64
  assumes k: "k < 64"
  shows "unat (w AND NOT (mask k)) = unat w div 2 ^ k * 2 ^ k"
proof -
  have pow: "unat ((2 :: u64) ^ k) = 2 ^ k" using k by simp
  have le: "unat w div 2 ^ k * 2 ^ k < 2 ^ 64"
    by (rule le_less_trans [OF div_times_less_eq_dividend]) (rule unat_u64_bound)
  have "w AND NOT (mask k) = drop_bit k w * 2 ^ k"
    by (simp add: word_and_not_mask push_bit_eq_mult)
  moreover have "unat w div 2 ^ k < 2 ^ 64"
    by (rule le_less_trans [OF div_le_dividend]) (rule unat_u64_bound)
  ultimately show ?thesis
    using le by (simp add: unat_word_ariths pow unat_drop_bit_eq drop_bit_eq_div)
qed

lemma round_up_align:
  assumes k: "k < 64" and no_ovf: "unat x + 2 ^ k \<le> 2 ^ 64"
  shows "unat (round_up x (2 ^ k)) = align_up (unat x) (2 ^ k)"
proof -
  have one: "unat ((2 :: u64) ^ k - 1) = 2 ^ k - 1"
    using k by (simp add: unat_minus_one)
  have "(1 :: nat) \<le> 2 ^ k" by simp
  then have bound: "unat x + (2 ^ k - 1) < 2 ^ 64" and shift: "unat x + (2 ^ k - 1) = unat x + 2 ^ k - 1"
    using no_ovf by linarith+
  have "unat (x + (2 ^ k - 1)) = unat x + 2 ^ k - 1"
    using unat_add_lem [of x "2 ^ k - 1"] one bound shift by simp
  moreover have "round_up x (2 ^ k) = (x + (2 ^ k - 1)) AND NOT (mask k)"
    by (simp add: round_up_def mask_eq_exp_minus_1 add_diff_eq)
  ultimately show ?thesis by (simp add: unat_and_not_mask [OF k] align_up_def)
qed

lemma round_up_overflow:
  assumes k: "k < 64" and ovf: "2 ^ 64 < unat x + 2 ^ k"
  shows "round_up x (2 ^ k) = 0"
proof -
  have one: "unat ((2 :: u64) ^ k - 1) = 2 ^ k - 1" using k by (simp add: unat_minus_one)
  have b: "unat x < 2 ^ 64" by (rule unat_u64_bound)
  have "unat (x + (2 ^ k - 1)) = (unat x + (2 ^ k - 1)) mod 2 ^ 64" using one by (simp add: unat_word_ariths)
  also have "\<dots> < 2 ^ k"
  proof -
    have "(2::nat) ^ k \<le> 2 ^ 63" using power_increasing [of k 63 "2::nat"] k by linarith
    then have small: "(2::nat) ^ k < 2 ^ 64" by simp
    obtain m where m: "unat x + (2 ^ k - 1) = 2 ^ 64 + m" "m < 2 ^ k"
      using ovf b by (intro that [of "unat x + (2 ^ k - 1) - 2 ^ 64"]) linarith+
    then have "m < 2 ^ 64" using small by linarith
    then show ?thesis using m by simp
  qed
  finally have "unat (x + (2 ^ k - 1)) < 2 ^ k" .
  then have "unat ((x + (2 ^ k - 1)) AND NOT (mask k)) = 0" by (simp add: unat_and_not_mask [OF k])
  moreover have "round_up x (2 ^ k) = (x + (2 ^ k - 1)) AND NOT (mask k)"
    by (simp add: round_up_def mask_eq_exp_minus_1 add_diff_eq)
  ultimately show ?thesis by (simp add: unsigned_eq_0_iff)
qed

section \<open>Properties\<close>

text \<open>
  for an alignment that is a power of two, \<open>__round_up\<close> returns the least multiple of the
  alignment that is not below the argument whenever that multiple is representable, and 0 when
  the addition wraps; the overload on pointers computes the same.
\<close>

theorem round_up_correct:
  assumes "k < 64"
  shows "if unat x + 2 ^ k \<le> 2 ^ 64
    then 2 ^ k dvd unat (round_up x (2 ^ k)) \<and> unat x \<le> unat (round_up x (2 ^ k))
      \<and> (\<forall>m. 2 ^ k dvd m \<and> unat x \<le> m \<longrightarrow> unat (round_up x (2 ^ k)) \<le> m)
      \<and> round_up_ptr x (2 ^ k) = round_up x (2 ^ k)
    else round_up x (2 ^ k) = 0"
proof (cases "unat x + 2 ^ k \<le> 2 ^ 64")
  case True
  with round_up_align [OF assms True] align_up_ge [of "2 ^ k" "unat x"] align_up_least [of "2 ^ k" _ "unat x"]
  show ?thesis by (simp add: round_up_ptr_def round_up_def)
next
  case False
  with round_up_overflow [OF assms] show ?thesis by simp
qed

theorem round_up_correct_witness:
  "unat (round_up 4097 4096) = 8192 \<and> round_up 18446744073709551615 16 = 0"
  using round_up_correct [of 4 18446744073709551615] round_up_align [of 12 4097]
  by (simp add: align_up_def)

end
