(* ===== verification/Queue_Interface.thy ===== *)
theory Queue_Interface
  imports Prelude
begin

text \<open>
  What the clients of the queues rely on: a state represents a list of nodes, pushing a node
  that is not queued adds it at one end, popping removes the first. The scheduler's pending
  queues and the memory resource's free lists use the intrusive queue through this contract only.
\<close>

section \<open>Traces of queue operations and their list specification\<close>

datatype 'n qop = PushBack 'n | PushFront 'n | PopFront

fun qspec :: "'n qop list \<Rightarrow> 'n list \<Rightarrow> 'n ptr list \<times> 'n list" where
  "qspec [] xs = ([], xs)"
| "qspec (PushBack x # ops) xs = qspec ops (xs @ [x])"
| "qspec (PushFront x # ops) xs = qspec ops (x # xs)"
| "qspec (PopFront # ops) xs =
     (case xs of [] \<Rightarrow> (case qspec ops [] of (out, ys) \<Rightarrow> (nullptr # out, ys))
      | x # xs' \<Rightarrow> (case qspec ops xs' of (out, ys) \<Rightarrow> (Some x # out, ys)))"

text \<open>A node is pushed only while it is not queued: its link field is in use otherwise.\<close>

fun qvalid :: "'n qop list \<Rightarrow> 'n list \<Rightarrow> bool" where
  "qvalid [] xs = True"
| "qvalid (PushBack x # ops) xs = (x \<notin> set xs \<and> qvalid ops (xs @ [x]))"
| "qvalid (PushFront x # ops) xs = (x \<notin> set xs \<and> qvalid ops (x # xs))"
| "qvalid (PopFront # ops) xs = qvalid ops (tl xs)"

fun qrun :: "('n \<Rightarrow> 's \<Rightarrow> 's ub) \<Rightarrow> ('n \<Rightarrow> 's \<Rightarrow> 's ub) \<Rightarrow> ('s \<Rightarrow> ('n ptr \<times> 's) ub)
    \<Rightarrow> 'n qop list \<Rightarrow> 's \<Rightarrow> ('n ptr list \<times> 's) ub" where
  "qrun pb pf pop [] s = Some ([], s)"
| "qrun pb pf pop (PushBack x # ops) s = do { s' \<leftarrow> pb x s; qrun pb pf pop ops s' }"
| "qrun pb pf pop (PushFront x # ops) s = do { s' \<leftarrow> pf x s; qrun pb pf pop ops s' }"
| "qrun pb pf pop (PopFront # ops) s = do {
     (p, s') \<leftarrow> pop s;
     (out, s'') \<leftarrow> qrun pb pf pop ops s';
     Some (p # out, s'')
   }"

fun pushes_of :: "'n list \<Rightarrow> 'n qop list" where
  "pushes_of [] = []"
| "pushes_of (x # xs) = PushBack x # pushes_of xs"

lemma qspec_append:
  "qspec (ops @ ops') xs =
     (case qspec ops xs of (out, ys) \<Rightarrow> case qspec ops' ys of (out', zs) \<Rightarrow> (out @ out', zs))"
  by (induction ops xs rule: qspec.induct) (auto split: list.splits prod.splits)

lemma qvalid_append: "qvalid (ops @ ops') xs \<longleftrightarrow> qvalid ops xs \<and> qvalid ops' (snd (qspec ops xs))"
  by (induction ops xs rule: qspec.induct) (auto split: list.splits prod.splits)

lemma qspec_pushes: "qspec (pushes_of ys) xs = ([], xs @ ys)"
  by (induction ys arbitrary: xs) auto

lemma qspec_pops: "qspec (replicate (length xs) PopFront) xs = (map Some xs, [])"
  by (induction xs) auto

lemma qvalid_pushes: "distinct (xs @ ys) \<Longrightarrow> qvalid (pushes_of ys) xs"
  by (induction ys arbitrary: xs) auto

lemma qvalid_pops [simp]: "qvalid (replicate n PopFront) xs"
  by (induction n arbitrary: xs) auto

section \<open>The contracts\<close>

locale node_queue =
  fixes repr :: "'s \<Rightarrow> 'n list \<Rightarrow> bool"
    and push_back :: "'n \<Rightarrow> 's \<Rightarrow> 's ub"
    and pop_front :: "'s \<Rightarrow> ('n ptr \<times> 's) ub"
  assumes push_back_law:
      "repr s xs \<Longrightarrow> x \<notin> set xs \<Longrightarrow> \<exists>s'. push_back x s = Some s' \<and> repr s' (xs @ [x])"
    and pop_empty_law: "repr s [] \<Longrightarrow> \<exists>s'. pop_front s = Some (nullptr, s') \<and> repr s' []"
    and pop_law: "repr s (x # xs) \<Longrightarrow> \<exists>s'. pop_front s = Some (Some x, s') \<and> repr s' xs"

locale node_deque = node_queue +
  fixes push_front :: "'b \<Rightarrow> 'a \<Rightarrow> 'a ub"
  assumes push_front_law:
      "repr s xs \<Longrightarrow> x \<notin> set xs \<Longrightarrow> \<exists>s'. push_front x s = Some s' \<and> repr s' (x # xs)"
begin

lemma qrun_refines:
  "repr s xs \<Longrightarrow> qvalid ops xs \<Longrightarrow>
     \<exists>s'. qrun push_back push_front pop_front ops s = Some (fst (qspec ops xs), s')
        \<and> repr s' (snd (qspec ops xs))"
proof (induction ops xs arbitrary: s rule: qspec.induct)
  case (2 x ops xs)
  then show ?case using push_back_law [of s xs x] by fastforce
next
  case (3 x ops xs)
  then show ?case using push_front_law [of s xs x] by fastforce
next
  case (4 ops xs)
  show ?case
  proof (cases xs)
    case Nil
    with 4 pop_empty_law [of s] show ?thesis by (fastforce split: prod.splits)
  next
    case (Cons x ys)
    with 4 pop_law [of s x ys] show ?thesis by (fastforce split: prod.splits)
  qed
qed simp

text \<open>Nodes pushed at the back come out in the order they were pushed.\<close>

lemma fifo:
  assumes "repr s []" and "distinct ys"
  shows "\<exists>s'. qrun push_back push_front pop_front
                (pushes_of ys @ replicate (length ys) PopFront) s = Some (map Some ys, s')
            \<and> repr s' []"
  using qrun_refines [OF assms(1), of "pushes_of ys @ replicate (length ys) PopFront"] assms(2)
  by (simp add: qvalid_append qvalid_pushes qspec_append qspec_pushes qspec_pops)

end

end
