(* ===== verification/Intrusive_Queue.thy ===== *)
theory Intrusive_Queue
  imports Queue_Interface
begin

text \<open>
  \<open>__intrusive_queue.hpp\<close>: the singly linked queue whose links are a member of the queued
  nodes. The link field \<open>_Next\<close> is the store \<open>nx\<close>, shared by every queue over the same nodes;
  a queue is its two pointers. Operations return the new store and queue, or \<^term>\<open>None\<close> where
  the code dereferences null or fails an \<open>assert\<close>. The abstract view of a queue is the list
  of its nodes (\<open>iq_repr\<close>), and each operation is proved to refine the list operation.
\<close>

section \<open>State\<close>

type_synonym 'n nexts = "('n, 'n ptr) field"

record 'n iqueue =
  iq_head :: "'n ptr"
  iq_tail :: "'n ptr"

record 'n iq_iter =
  it_pred :: "'n ptr"
  it_item :: "'n ptr"

section \<open>Operations\<close>

definition iq_new :: "'n iqueue" where
  "iq_new = \<lparr>iq_head = nullptr, iq_tail = nullptr\<rparr>"

definition iq_empty :: "'n iqueue \<Rightarrow> bool" where
  "iq_empty q \<longleftrightarrow> iq_head q = nullptr"

definition iq_destroy :: "'n iqueue \<Rightarrow> unit ub" where
  "iq_destroy q = assert_c (iq_empty q)"

text \<open>The move constructor: the new queue and what is left of the source.\<close>

definition iq_move :: "'n iqueue \<Rightarrow> 'n iqueue \<times> 'n iqueue" where
  "iq_move other = (\<lparr>iq_head = iq_head other, iq_tail = iq_tail other\<rparr>,
                    other\<lparr>iq_head := nullptr, iq_tail := nullptr\<rparr>)"

text \<open>Assignment swaps with its by-value parameter, which is destroyed on return.\<close>

definition iq_assign :: "'n iqueue \<Rightarrow> 'n iqueue \<Rightarrow> 'n iqueue ub" where
  "iq_assign self other = do {
     let self' = self\<lparr>iq_head := iq_head other, iq_tail := iq_tail other\<rparr>;
     let other' = other\<lparr>iq_head := iq_head self, iq_tail := iq_tail self\<rparr>;
     iq_destroy other';
     Some self'
   }"

definition iq_clear :: "'n iqueue \<Rightarrow> 'n iqueue" where
  "iq_clear q = q\<lparr>iq_head := nullptr, iq_tail := nullptr\<rparr>"

definition iq_front :: "'n iqueue \<Rightarrow> 'n ptr" where
  "iq_front q = iq_head q"

definition iq_back :: "'n iqueue \<Rightarrow> 'n ptr" where
  "iq_back q = iq_tail q"

definition iq_pop_front :: "'n nexts \<Rightarrow> 'n iqueue \<Rightarrow> ('n ptr \<times> 'n iqueue) ub" where
  "iq_pop_front nx q =
     (if iq_empty q then Some (nullptr, q)
      else do {
        let item = iq_head q;
        n \<leftarrow> rd nx (iq_head q);
        let q1 = q\<lparr>iq_head := n\<rparr>;
        n' \<leftarrow> rd nx item;
        Some (item, if n' = nullptr then q1\<lparr>iq_tail := nullptr\<rparr> else q1)
      })"

definition iq_push_front :: "'n nexts \<Rightarrow> 'n ptr \<Rightarrow> 'n iqueue \<Rightarrow> ('n nexts \<times> 'n iqueue) ub" where
  "iq_push_front nx item q = do {
     assert_c (item \<noteq> nullptr);
     nx1 \<leftarrow> wr nx item (iq_head q);
     let q1 = q\<lparr>iq_head := item\<rparr>;
     Some (nx1, if iq_tail q1 = nullptr then q1\<lparr>iq_tail := item\<rparr> else q1)
   }"

definition iq_push_back :: "'n nexts \<Rightarrow> 'n ptr \<Rightarrow> 'n iqueue \<Rightarrow> ('n nexts \<times> 'n iqueue) ub" where
  "iq_push_back nx item q = do {
     assert_c (item \<noteq> nullptr);
     nx1 \<leftarrow> wr nx item nullptr;
     (nx2, q1) \<leftarrow> (if iq_tail q = nullptr then Some (nx1, q\<lparr>iq_head := item\<rparr>)
                  else do { nx2 \<leftarrow> wr nx1 (iq_tail q) item; Some (nx2, q) });
     Some (nx2, q1\<lparr>iq_tail := item\<rparr>)
   }"

definition iq_append :: "'n nexts \<Rightarrow> 'n iqueue \<Rightarrow> 'n iqueue \<Rightarrow> ('n nexts \<times> 'n iqueue) ub" where
  "iq_append nx q other =
     (if iq_empty other then Some (nx, q)
      else do {
        let other_head = iq_head other;
        let other1 = other\<lparr>iq_head := nullptr\<rparr>;
        (nx1, q1) \<leftarrow> (if iq_empty q then Some (nx, q\<lparr>iq_head := other_head\<rparr>)
                     else do { nx1 \<leftarrow> wr nx (iq_tail q) other_head; Some (nx1, q) });
        let q2 = q1\<lparr>iq_tail := iq_tail other1\<rparr>;
        let other2 = other1\<lparr>iq_tail := nullptr\<rparr>;
        iq_destroy other2;
        Some (nx1, q2)
      })"

definition iq_prepend :: "'n nexts \<Rightarrow> 'n iqueue \<Rightarrow> 'n iqueue \<Rightarrow> ('n nexts \<times> 'n iqueue) ub" where
  "iq_prepend nx q other =
     (if iq_empty other then Some (nx, q)
      else do {
        nx1 \<leftarrow> wr nx (iq_tail other) (iq_head q);
        let q1 = q\<lparr>iq_head := iq_head other\<rparr>;
        let q2 = (if iq_tail q1 = nullptr then q1\<lparr>iq_tail := iq_tail other\<rparr> else q1);
        let other1 = other\<lparr>iq_tail := nullptr\<rparr>;
        let other2 = other1\<lparr>iq_head := nullptr\<rparr>;
        iq_destroy other2;
        Some (nx1, q2)
      })"

text \<open>The loop of \<open>__create_reversed\<close>; it ends when the list does.\<close>

partial_function (option) iq_reverse_loop ::
  "'n nexts \<Rightarrow> 'n ptr \<Rightarrow> 'n ptr \<Rightarrow> ('n nexts \<times> 'n ptr) option" where
  "iq_reverse_loop nx lst new_head =
     (if lst = nullptr then Some (nx, new_head)
      else do {
        n \<leftarrow> rd nx lst;
        nx1 \<leftarrow> wr nx lst new_head;
        iq_reverse_loop nx1 n lst
      })"

definition iq_create_reversed :: "'n nexts \<Rightarrow> 'n ptr \<Rightarrow> ('n nexts \<times> 'n iqueue) ub" where
  "iq_create_reversed nx lst = do {
     let new_tail = lst;
     (nx1, new_head) \<leftarrow> iq_reverse_loop nx lst nullptr;
     Some (nx1, iq_new\<lparr>iq_head := new_head, iq_tail := new_tail\<rparr>)
   }"

text \<open>The loop of \<open>__create\<close>: walk to the last node.\<close>

partial_function (option) iq_last_loop :: "'n nexts \<Rightarrow> 'n ptr \<Rightarrow> 'n ptr option" where
  "iq_last_loop nx t = do {
     n \<leftarrow> rd nx t;
     (if n \<noteq> nullptr then iq_last_loop nx n else Some t)
   }"

definition iq_create :: "'n nexts \<Rightarrow> 'n ptr \<Rightarrow> 'n iqueue ub" where
  "iq_create nx lst =
     (let r = iq_new\<lparr>iq_head := lst, iq_tail := lst\<rparr>
      in if lst = nullptr then Some r
         else do { t \<leftarrow> iq_last_loop nx (iq_tail r); Some (r\<lparr>iq_tail := t\<rparr>) })"

subsection \<open>Iterators and splice\<close>

definition it_deref :: "'n iq_iter \<Rightarrow> 'n ptr ub" where
  "it_deref i = do { assert_c (it_item i \<noteq> nullptr); Some (it_item i) }"

definition it_advance :: "'n nexts \<Rightarrow> 'n iq_iter \<Rightarrow> 'n iq_iter ub" where
  "it_advance nx i =
     (let i1 = i\<lparr>it_pred := it_item i\<rparr>
      in if it_item i1 \<noteq> nullptr then do { n \<leftarrow> rd nx (it_item i1); Some (i1\<lparr>it_item := n\<rparr>) }
         else Some i1)"

text \<open>Post-increment returns the iterator as it was.\<close>

definition it_post_advance :: "'n nexts \<Rightarrow> 'n iq_iter \<Rightarrow> ('n iq_iter \<times> 'n iq_iter) ub" where
  "it_post_advance nx i = do { i1 \<leftarrow> it_advance nx i; Some (i, i1) }"

definition iq_begin :: "'n iqueue \<Rightarrow> 'n iq_iter" where
  "iq_begin q = \<lparr>it_pred = nullptr, it_item = iq_head q\<rparr>"

definition iq_end :: "'n iqueue \<Rightarrow> 'n iq_iter" where
  "iq_end q = \<lparr>it_pred = iq_tail q, it_item = nullptr\<rparr>"

definition iq_splice ::
  "'n nexts \<Rightarrow> 'n iqueue \<Rightarrow> 'n iq_iter \<Rightarrow> 'n iqueue \<Rightarrow> 'n iq_iter \<Rightarrow> 'n iq_iter
     \<Rightarrow> ('n nexts \<times> 'n iqueue \<times> 'n iqueue) ub" where
  "iq_splice nx q pos other first lst =
     (if first = lst then Some (nx, q, other)
      else do {
        assert_c (it_item first \<noteq> nullptr);
        assert_c (it_pred lst \<noteq> nullptr);
        (nx1, other1) \<leftarrow>
          (if iq_head other = it_item first then do {
             let o1 = other\<lparr>iq_head := it_item lst\<rparr>;
             Some (nx, if iq_head o1 = nullptr then o1\<lparr>iq_tail := nullptr\<rparr> else o1)
           } else do {
             assert_c (it_pred first \<noteq> nullptr);
             n1 \<leftarrow> wr nx (it_pred first) (it_item lst);
             n2 \<leftarrow> wr n1 (it_pred lst) (it_item pos);
             Some (n2, other)
           });
        (if iq_empty q then
           Some (nx1, q\<lparr>iq_head := it_item first, iq_tail := it_pred lst\<rparr>, other1)
         else do {
           nx2 \<leftarrow> wr nx1 (it_pred pos) (it_item first);
           Some (nx2, if it_item pos = nullptr then q\<lparr>iq_tail := it_pred lst\<rparr> else q, other1)
         })
      })"

section \<open>Abstraction\<close>

definition last_ptr :: "'n list \<Rightarrow> 'n ptr" where
  "last_ptr xs = (if xs = [] then nullptr else Some (last xs))"

definition iq_repr :: "'n nexts \<Rightarrow> 'n iqueue \<Rightarrow> 'n list \<Rightarrow> bool" where
  "iq_repr nx q xs \<longleftrightarrow> lseg nx (iq_head q) xs nullptr \<and> iq_tail q = last_ptr xs"

text \<open>The store changed at most at the nodes of \<open>A\<close>.\<close>

definition same_off :: "'n set \<Rightarrow> 'n nexts \<Rightarrow> 'n nexts \<Rightarrow> bool" where
  "same_off A nx nx' \<longleftrightarrow> (\<forall>a. a \<notin> A \<longrightarrow> nx' a = nx a)"

lemma last_ptr_simps [simp]:
  "last_ptr [] = nullptr" "last_ptr (x # xs) = Some (last (x # xs))" "last_ptr (xs @ [x]) = Some x"
  "last_ptr xs = nullptr \<longleftrightarrow> xs = []"
  by (auto simp: last_ptr_def)

lemma last_ptr_ne [simp]: "xs \<noteq> [] \<Longrightarrow> last_ptr xs = Some (last xs)"
  by (simp add: last_ptr_def)

lemma same_off_refl [simp, intro]: "same_off A nx nx"
  by (simp add: same_off_def)

lemma same_off_upd [simp, intro]: "a \<in> A \<Longrightarrow> same_off A nx (nx(a := v))"
  by (auto simp: same_off_def)

lemma same_off_trans: "same_off A nx n1 \<Longrightarrow> same_off B n1 n2 \<Longrightarrow> A \<subseteq> C \<Longrightarrow> B \<subseteq> C \<Longrightarrow> same_off C nx n2"
  unfolding same_off_def by (metis subsetD)

lemma same_off_lseg: "same_off A nx nx' \<Longrightarrow> A \<inter> set xs = {} \<Longrightarrow> lseg nx' p xs q = lseg nx p xs q"
  by (rule lseg_cong) (auto simp: same_off_def)

text \<open>A queue over other nodes is not touched.\<close>

lemma same_off_repr: "same_off A nx nx' \<Longrightarrow> A \<inter> set xs = {} \<Longrightarrow> iq_repr nx' q xs = iq_repr nx q xs"
  by (simp add: iq_repr_def same_off_lseg)

lemma iq_repr_new [simp]: "iq_repr nx iq_new [] "
  by (simp add: iq_repr_def iq_new_def)

lemma iq_repr_empty: "iq_repr nx q xs \<Longrightarrow> iq_empty q \<longleftrightarrow> xs = []"
  by (cases xs) (auto simp: iq_repr_def iq_empty_def)

lemma iq_repr_distinct: "iq_repr nx q xs \<Longrightarrow> distinct xs"
  by (auto simp: iq_repr_def dest: lseg_distinct)

lemma iq_repr_unique: "iq_repr nx q xs \<Longrightarrow> iq_repr nx q ys \<Longrightarrow> xs = ys"
  by (auto simp: iq_repr_def dest: lseg_unique)

section \<open>Every operation refines the list operation\<close>

lemma iq_pop_front_empty: "iq_repr nx q [] \<Longrightarrow> iq_pop_front nx q = Some (nullptr, q)"
  by (simp add: iq_pop_front_def iq_repr_empty)

lemma iq_pop_front_Cons:
  "iq_repr nx q (x # xs) \<Longrightarrow> \<exists>q'. iq_pop_front nx q = Some (Some x, q') \<and> iq_repr nx q' xs"
  by (cases xs) (auto simp: iq_pop_front_def iq_repr_def iq_empty_def)

lemma iq_push_front_refines:
  assumes "iq_repr nx q xs" and "x \<notin> set xs"
  shows "\<exists>nx' q'. iq_push_front nx (Some x) q = Some (nx', q') \<and> iq_repr nx' q' (x # xs)
           \<and> same_off {x} nx nx'"
  using assms by (cases xs) (auto simp: iq_push_front_def iq_repr_def)

lemma iq_push_back_refines:
  assumes r: "iq_repr nx q xs" and new: "x \<notin> set xs"
  shows "\<exists>nx' q'. iq_push_back nx (Some x) q = Some (nx', q') \<and> iq_repr nx' q' (xs @ [x])
           \<and> same_off (insert x (set xs)) nx nx'"
proof (cases "xs = []")
  case True
  with r show ?thesis by (auto simp: iq_push_back_def iq_repr_def)
next
  case False
  let ?nx = "nx(x := nullptr, last xs := Some x)"
  from r False have l: "lseg nx (iq_head q) xs nullptr" and t: "iq_tail q = Some (last xs)"
    by (auto simp: iq_repr_def)
  have "lseg ?nx (iq_head q) xs (Some x)"
    using l new False lseg_distinct [OF l] by (intro lseg_redirect) auto
  moreover have "last xs \<noteq> x" using new False by auto
  ultimately show ?thesis
    using t False by (auto simp: iq_push_back_def iq_repr_def lseg_snoc same_off_def)
qed

lemma iq_append_refines:
  assumes "iq_repr nx q xs" and "iq_repr nx other ys" and "set xs \<inter> set ys = {}"
  shows "\<exists>nx' q'. iq_append nx q other = Some (nx', q') \<and> iq_repr nx' q' (xs @ ys)
           \<and> same_off (set xs) nx nx'"
proof -
  consider "ys = []" | "ys \<noteq> []" "xs = []" | "ys \<noteq> []" "xs \<noteq> []" by blast
  then show ?thesis
  proof cases
    case 1
    with assms show ?thesis by (auto simp: iq_append_def iq_repr_empty)
  next
    case 2
    with assms show ?thesis
      by (auto simp: iq_append_def iq_repr_def iq_empty_def iq_destroy_def neq_Nil_conv)
  next
    case 3
    from assms 3 have l: "lseg nx (iq_head q) xs nullptr" by (simp add: iq_repr_def)
    have "lseg (nx(last xs := iq_head other)) (iq_head q) xs (iq_head other)"
      using l 3 lseg_distinct [OF l] by (intro lseg_redirect) auto
    moreover have "last xs \<notin> set ys" using 3 assms(3) last_in_set by blast
    ultimately show ?thesis
      using assms 3 iq_repr_empty [OF assms(1)] iq_repr_empty [OF assms(2)]
      by (auto simp: iq_append_def iq_repr_def iq_empty_def iq_destroy_def lseg_append)
  qed
qed

lemma iq_prepend_refines:
  assumes q: "iq_repr nx q xs"
    and h: "lseg nx (iq_head other) ys r" and t: "iq_tail other = last_ptr ys"
    and dis: "set xs \<inter> set ys = {}" "distinct ys" and ne: "ys = [] \<Longrightarrow> r = nullptr"
  shows "\<exists>nx' q'. iq_prepend nx q other = Some (nx', q') \<and> iq_repr nx' q' (ys @ xs)
           \<and> same_off (set ys) nx nx'"
proof (cases "ys = []")
  case True
  with assms show ?thesis by (auto simp: iq_prepend_def iq_empty_def)
next
  case False
  have "lseg (nx(last ys := iq_head q)) (iq_head other) ys (iq_head q)"
    using h False dis by (intro lseg_redirect) auto
  moreover have "last ys \<notin> set xs" using False dis by auto
  moreover have "iq_head other \<noteq> nullptr" using h False by (cases ys) auto
  ultimately show ?thesis
    using q t False
    by (auto simp: iq_prepend_def iq_repr_def iq_empty_def iq_destroy_def lseg_append last_ptr_def)
qed

lemma iq_reverse_loop_refines:
  assumes "lseg nx lst xs nullptr" and "lseg nx acc ys nullptr"
    and "distinct xs" and "set xs \<inter> set ys = {}"
  shows "\<exists>nx' h. iq_reverse_loop nx lst acc = Some (nx', h) \<and> lseg nx' h (rev xs @ ys) nullptr
           \<and> same_off (set xs) nx nx'"
  using assms
proof (induction xs arbitrary: nx lst acc ys)
  case Nil
  then show ?case by (auto simp: iq_reverse_loop.simps)
next
  case (Cons x xs)
  let ?nx = "nx(x := acc)"
  from Cons.prems have "lseg ?nx (nx x) xs nullptr" and "lseg ?nx (Some x) (x # ys) nullptr"
    and "distinct xs" and "set xs \<inter> set (x # ys) = {}"
    by auto
  from Cons.IH [OF this] obtain nx' h where
    "iq_reverse_loop ?nx (nx x) (Some x) = Some (nx', h)" and
    "lseg nx' h (rev xs @ x # ys) nullptr" and "same_off (set xs) ?nx nx'" by blast
  with Cons.prems show ?case
    by (auto simp: iq_reverse_loop.simps [of nx] same_off_def)
qed

lemma iq_create_reversed_refines:
  assumes "lseg nx lst xs nullptr"
  shows "\<exists>nx' q. iq_create_reversed nx lst = Some (nx', q) \<and> iq_repr nx' q (rev xs)
           \<and> same_off (set xs) nx nx'"
proof -
  from iq_reverse_loop_refines [OF assms, of nullptr "[]"] lseg_distinct [OF assms]
  obtain nx' h where "iq_reverse_loop nx lst nullptr = Some (nx', h)"
    and "lseg nx' h (rev xs) nullptr" and "same_off (set xs) nx nx'" by auto
  moreover have "last_ptr (rev xs) = lst" using assms by (cases xs) auto
  ultimately show ?thesis by (auto simp: iq_create_reversed_def iq_repr_def iq_new_def)
qed

lemma iq_last_loop_refines:
  "lseg nx (Some a) (a # xs) nullptr \<Longrightarrow> iq_last_loop nx (Some a) = Some (Some (last (a # xs)))"
proof (induction xs arbitrary: a)
  case Nil
  then show ?case by (subst iq_last_loop.simps) simp
next
  case (Cons x xs)
  then have "nx a = Some x" and "iq_last_loop nx (Some x) = Some (Some (last (x # xs)))" by auto
  then show ?case by (subst iq_last_loop.simps) simp
qed

lemma iq_create_refines:
  assumes "lseg nx lst xs nullptr"
  shows "\<exists>q. iq_create nx lst = Some q \<and> iq_repr nx q xs"
proof (cases xs)
  case Nil
  with assms show ?thesis by (auto simp: iq_create_def iq_repr_def iq_new_def)
next
  case (Cons x ys)
  with assms iq_last_loop_refines [of nx x ys] show ?thesis
    by (auto simp: iq_create_def iq_repr_def iq_new_def)
qed

section \<open>The queue provides the deque contract\<close>

text \<open>A queue together with the store its links live in.\<close>

type_synonym 'n qstate = "'n nexts \<times> 'n iqueue"

definition qs_repr :: "'n qstate \<Rightarrow> 'n list \<Rightarrow> bool" where
  "qs_repr s xs = iq_repr (fst s) (snd s) xs"

definition qs_push_back :: "'n \<Rightarrow> 'n qstate \<Rightarrow> 'n qstate ub" where
  "qs_push_back x s = iq_push_back (fst s) (Some x) (snd s)"

definition qs_push_front :: "'n \<Rightarrow> 'n qstate \<Rightarrow> 'n qstate ub" where
  "qs_push_front x s = iq_push_front (fst s) (Some x) (snd s)"

definition qs_pop_front :: "'n qstate \<Rightarrow> ('n ptr \<times> 'n qstate) ub" where
  "qs_pop_front s = do { (p, q) \<leftarrow> iq_pop_front (fst s) (snd s); Some (p, (fst s, q)) }"

lemmas qs_defs = qs_repr_def qs_push_back_def qs_push_front_def qs_pop_front_def

interpretation iq: node_deque qs_repr qs_push_back qs_pop_front qs_push_front
proof (unfold_locales, goal_cases)
  case (1 s xs x)
  then show ?case using iq_push_back_refines [of "fst s" "snd s" xs x] by (auto simp: qs_defs)
next
  case (2 s)
  then show ?case by (simp add: qs_defs iq_pop_front_empty)
next
  case (3 s x xs)
  then show ?case using iq_pop_front_Cons [of "fst s" "snd s" x xs] by (auto simp: qs_defs)
next
  case (4 s xs x)
  then show ?case using iq_push_front_refines [of "fst s" "snd s" xs x] by (auto simp: qs_defs)
qed

section \<open>Iteration\<close>

text \<open>From \<open>begin\<close>, advancing visits the nodes of the list in order and ends at \<open>end\<close>.\<close>

fun it_walk :: "'n nexts \<Rightarrow> nat \<Rightarrow> 'n iq_iter \<Rightarrow> 'n iq_iter ub" where
  "it_walk nx 0 i = Some i"
| "it_walk nx (Suc k) i = do { i1 \<leftarrow> it_advance nx i; it_walk nx k i1 }"

lemma it_walk_lseg:
  "lseg nx p xs r \<Longrightarrow> it_walk nx (length xs) \<lparr>it_pred = a, it_item = p\<rparr>
     = Some \<lparr>it_pred = (if xs = [] then a else Some (last xs)), it_item = r\<rparr>"
  by (induction xs arbitrary: p a) (auto simp: it_advance_def rd_def)

lemma iterator_visits:
  assumes "iq_repr nx q (xs @ x # ys)"
  obtains i where "it_walk nx (length xs) (iq_begin q) = Some i" "it_deref i = Some (Some x)"
  using assms by (auto simp: iq_repr_def iq_begin_def lseg_append it_walk_lseg it_deref_def assert_c_def)

lemma iterator_ends: "iq_repr nx q xs \<Longrightarrow> it_walk nx (length xs) (iq_begin q) = Some (iq_end q)"
  by (auto simp: iq_repr_def iq_begin_def iq_end_def it_walk_lseg last_ptr_def)

section \<open>Splice\<close>

text \<open>
  Splicing a proper prefix of \<open>other\<close> into an empty queue: the branch for a prefix does not
  write the link of the last spliced node, which keeps pointing into \<open>other\<close>.
\<close>

lemma iq_splice_prefix:
  assumes o: "iq_repr nx other (xs @ ys)" and xs: "xs \<noteq> []" and q: "iq_repr nx q []"
  shows "\<exists>q' other'.
      iq_splice nx q (iq_end q) other (iq_begin other)
        \<lparr>it_pred = Some (last xs), it_item = (case ys of [] \<Rightarrow> nullptr | y # _ \<Rightarrow> Some y)\<rparr>
      = Some (nx, q', other')
    \<and> iq_repr nx other' ys
    \<and> lseg nx (iq_head q') xs (iq_head other') \<and> iq_tail q' = last_ptr xs"
  using assms
  by (cases xs; cases ys)
     (auto simp: iq_splice_def iq_repr_def iq_begin_def iq_empty_def lseg_append split: if_splits)

lemma iq_splice_all:
  assumes q: "iq_repr nx q xs" and o: "iq_repr nx other ys" and dis: "set xs \<inter> set ys = {}"
  shows "\<exists>nx' q' other'. iq_splice nx q (iq_end q) other (iq_begin other) (iq_end other) = Some (nx', q', other')
    \<and> iq_repr nx' q' (xs @ ys) \<and> iq_repr nx' other' []"
proof -
  consider "ys = []" | "ys \<noteq> []" "xs = []" | "ys \<noteq> []" "xs \<noteq> []" by blast
  then show ?thesis
  proof cases
    case 1
    with q o show ?thesis by (auto simp: iq_splice_def iq_begin_def iq_end_def iq_repr_def)
  next
    case 2
    with q o show ?thesis
      by (cases ys) (auto simp: iq_splice_def iq_begin_def iq_end_def iq_repr_def iq_empty_def)
  next
    case 3
    from q have l: "lseg nx (iq_head q) xs nullptr" by (simp add: iq_repr_def)
    have "lseg (nx(last xs := iq_head other)) (iq_head q) xs (iq_head other)"
      using l 3 lseg_distinct [OF l] by (intro lseg_redirect) auto
    moreover have "last xs \<notin> set ys" using 3 dis last_in_set by blast
    ultimately show ?thesis using q o 3
      by (cases xs; cases ys) (auto simp: iq_splice_def iq_begin_def iq_end_def iq_repr_def iq_empty_def lseg_append)
  qed
qed

section \<open>Properties\<close>

text \<open>
  C5: every sequence of push_front, push_back and pop_front on the intrusive queue, with nodes
  pushed only while they are not queued, runs without undefined behaviour and returns exactly
  what the same operations return on a list, and the links then spell that list.
\<close>

theorem queue_refines_list:
  assumes "qs_repr s xs" "qvalid ops xs"
  shows "\<exists>s'. qrun qs_push_back qs_push_front qs_pop_front ops s = Some (fst (qspec ops xs), s')
    \<and> qs_repr s' (snd (qspec ops xs))"
  using iq.qrun_refines [OF assms] .

lemma qs_repr_new [simp]: "qs_repr (\<lambda>_. nullptr, iq_new) []"
  by (simp add: qs_repr_def)

theorem queue_refines_list_witness:
  "\<exists>s'. qrun qs_push_back qs_push_front qs_pop_front
     [PushBack 1, PushBack 2, PushFront 3, PopFront, PushBack (3::nat), PopFront] (\<lambda>_. nullptr, iq_new)
     = Some ([Some 3, Some 1], s') \<and> qs_repr s' [2, 3]"
  using queue_refines_list [OF qs_repr_new, of "[PushBack 1, PushBack 2, PushFront 3, PopFront, PushBack (3::nat), PopFront]"]
  by simp

text \<open>nodes pushed at the back of an empty intrusive queue are popped in the order they were pushed.\<close>

theorem queue_fifo:
  assumes "distinct ys"
  shows "\<exists>s'. qrun qs_push_back qs_push_front qs_pop_front (pushes_of ys @ replicate (length ys) PopFront)
      (nx, iq_new) = Some (map Some ys, s') \<and> qs_repr s' []"
  by (rule iq.fifo [OF _ assms]) (simp add: qs_repr_def)

theorem queue_fifo_witness:
  "\<exists>s'. qrun qs_push_back qs_push_front qs_pop_front
      [PushBack 4, PushBack 7, PopFront, PopFront] (\<lambda>_. Some (7::nat), iq_new) = Some ([Some 4, Some 7], s')"
  using queue_fifo [of "[4, 7 :: nat]" "\<lambda>_. Some 7"] by (auto simp: numeral_2_eq_2)

text \<open>
  \<open>__create_reversed\<close> of a null-terminated chain of nodes (the batch a Treiber stack yields)
  terminates, is the queue of the nodes in the opposite order with the right tail, and touches
  no other link; \<open>__create\<close> keeps the order and finds the tail.
\<close>

theorem queue_create:
  assumes "lseg nx lst xs nullptr"
  shows "(\<exists>nx' q. iq_create_reversed nx lst = Some (nx', q) \<and> iq_repr nx' q (rev xs) \<and> same_off (set xs) nx nx')
    \<and> (\<exists>q. iq_create nx lst = Some q \<and> iq_repr nx q xs)"
  using iq_create_reversed_refines [OF assms] iq_create_refines [OF assms] by blast

theorem queue_create_witness:
  "\<exists>nx' q. iq_create_reversed ((\<lambda>_. nullptr)(1 := Some 2, 2 := Some (3::nat))) (Some 1) = Some (nx', q)
    \<and> iq_repr nx' q [3, 2, 1]"
  using queue_create [of "(\<lambda>_. nullptr)(1 := Some 2, 2 := Some (3::nat))" "Some 1" "[1, 2, 3]"] by auto

text \<open>
  \<open>_M_append\<close>, \<open>_M_prepend\<close> and \<open>_M_splice\<close> of a whole queue at the end concatenate two
  disjoint queues, without undefined behaviour and whichever of them is empty.
\<close>

theorem queue_concatenation:
  assumes "iq_repr nx q xs" "iq_repr nx other ys" "set xs \<inter> set ys = {}"
  shows "(\<exists>nx' q'. iq_append nx q other = Some (nx', q') \<and> iq_repr nx' q' (xs @ ys) \<and> same_off (set xs) nx nx')
    \<and> (\<exists>nx' q'. iq_prepend nx q other = Some (nx', q') \<and> iq_repr nx' q' (ys @ xs) \<and> same_off (set ys) nx nx')
    \<and> (\<exists>nx' q' other'. iq_splice nx q (iq_end q) other (iq_begin other) (iq_end other) = Some (nx', q', other')
        \<and> iq_repr nx' q' (xs @ ys) \<and> iq_repr nx' other' [])"
proof -
  have "lseg nx (iq_head other) ys nullptr" "iq_tail other = last_ptr ys" "distinct ys"
    using assms(2) iq_repr_distinct by (auto simp: iq_repr_def)
  from iq_prepend_refines [OF assms(1) this(1,2) assms(3) this(3)]
    iq_append_refines [OF assms] iq_splice_all [OF assms]
  show ?thesis by blast
qed

theorem queue_concatenation_witness:
  "\<exists>nx' q'. iq_append ((\<lambda>_. nullptr)(1 := Some (2::nat))) \<lparr>iq_head = Some 1, iq_tail = Some 2\<rparr>
      \<lparr>iq_head = Some 5, iq_tail = Some 5\<rparr> = Some (nx', q') \<and> iq_repr nx' q' [1, 2, 5]"
  using queue_concatenation [of "(\<lambda>_. nullptr)(1 := Some (2::nat))" "\<lparr>iq_head = Some 1, iq_tail = Some 2\<rparr>"
      "[1, 2]" "\<lparr>iq_head = Some 5, iq_tail = Some 5\<rparr>" "[5]"]
  by (auto simp: iq_repr_def)

text \<open>
  \<open>_M_splice\<close> of a proper prefix of another queue into an empty queue takes the nodes out of
  the other queue but does not end the moved segment: the last moved node still links to the
  head of the other queue, so that the two queues share a tail and the result is not a queue of
  the moved nodes.
\<close>

theorem queue_splice_prefix_shares:
  assumes "iq_repr nx other (xs @ y # ys)" "xs \<noteq> []" "iq_repr nx q []"
  shows "\<exists>q' other'. iq_splice nx q (iq_end q) other (iq_begin other)
        \<lparr>it_pred = Some (last xs), it_item = Some y\<rparr> = Some (nx, q', other')
    \<and> iq_repr nx other' (y # ys) \<and> iq_tail q' = Some (last xs)
    \<and> lseg nx (iq_head q') (xs @ y # ys) nullptr \<and> \<not> iq_repr nx q' xs"
proof -
  from iq_splice_prefix [of nx other xs "y # ys" q] assms obtain q' other' where
    s: "iq_splice nx q (iq_end q) other (iq_begin other) \<lparr>it_pred = Some (last xs), it_item = Some y\<rparr> = Some (nx, q', other')"
    "iq_repr nx other' (y # ys)" "lseg nx (iq_head q') xs (iq_head other')" "iq_tail q' = last_ptr xs" by auto
  then have l: "lseg nx (iq_head q') (xs @ y # ys) nullptr" by (auto simp: lseg_append iq_repr_def)
  moreover have "\<not> iq_repr nx q' xs" using lseg_unique [OF l, of xs] by (auto simp: iq_repr_def)
  ultimately show ?thesis using s assms(2) by auto
qed

theorem queue_splice_prefix_shares_witness:
  "\<exists>q' other'. iq_splice ((\<lambda>_. nullptr)(1 := Some (2::nat))) iq_new (iq_end iq_new)
       \<lparr>iq_head = Some 1, iq_tail = Some 2\<rparr> (iq_begin \<lparr>iq_head = Some 1, iq_tail = Some 2\<rparr>)
       \<lparr>it_pred = Some 1, it_item = Some 2\<rparr> = Some ((\<lambda>_. nullptr)(1 := Some (2::nat)), q', other')
     \<and> \<not> iq_repr ((\<lambda>_. nullptr)(1 := Some (2::nat))) q' [1]"
  using queue_splice_prefix_shares [of "(\<lambda>_. nullptr)(1 := Some (2::nat))" "\<lparr>iq_head = Some 1, iq_tail = Some 2\<rparr>"
      "[1]" 2 "[]" iq_new]
  by (auto simp: iq_repr_def iq_new_def)

end
