(* ===== verification/Heap_Tree.thy ===== *)
theory Heap_Tree
  imports Prelude "HOL-Library.Tree_Multiset"
begin

text \<open>
  The functional reading of \<open>__intrusive_heap.hpp\<close>: what each loop of the pointer code does to
  the tree of nodes. A heap of \<open>n\<close> nodes is the complete binary tree whose positions are
  \<open>1..n\<close> in breadth-first order; the bits of a position below its leading one spell the
  path to it. \<open>ins_path\<close>, \<open>del_path\<close>, \<open>sink\<close> and \<open>percolate\<close> are the loops of \<open>_M_push\<close>,
  \<open>__remove_least_leaf\<close>, \<open>__heap_down_sink\<close> and \<open>__heap_up_percolate\<close>. The lemmas show that
  they keep the shape, the order and the set of nodes; the pointer theory shows that the
  code implements them.
\<close>

section \<open>Positions and paths\<close>

definition path_bit_mask :: "nat \<Rightarrow> nat" where
  "path_bit_mask n = drop_bit 2 (bit_ceil (n + 1))"

fun path_bits :: "nat \<Rightarrow> nat \<Rightarrow> bool list" where
  "path_bits k msk = (if msk = 0 then [] else (msk AND k \<noteq> 0) # path_bits k (msk div 2))"

declare path_bits.simps [simp del]

abbreviation dirs :: "nat \<Rightarrow> bool list" where
  "dirs k \<equiv> path_bits k (path_bit_mask k)"

fun pos :: "bool list \<Rightarrow> nat \<Rightarrow> nat" where
  "pos [] i = i"
| "pos (b # bs) i = pos bs (2 * i + of_bool b)"

lemma div_pow_add: "(k::nat) div 2 ^ (a + c) = k div 2 ^ a div 2 ^ c"
  by (simp add: power_add div_mult2_eq)

lemma div_pow_Suc: "(k::nat) div 2 ^ Suc d = k div 2 ^ d div 2"
  using div_pow_add [of k d 1] by simp

lemma path_bits_0 [simp]: "path_bits k 0 = []"
  by (simp add: path_bits.simps)

lemma path_bits_pos: "msk \<noteq> 0 \<Longrightarrow> path_bits k msk = (msk AND k \<noteq> 0) # path_bits k (msk div 2)"
  by (subst path_bits.simps) simp

lemma and_pow2_nat: "((2::nat) ^ j AND k \<noteq> 0) = odd (k div 2 ^ j)"
  using and_exp_eq_0_iff_not_bit [of k j] by (simp add: bit_iff_odd and.commute)

lemma pos_path_bits: "i = k div 2 ^ Suc j \<Longrightarrow> pos (path_bits k (2 ^ j)) i = k"
proof (induction j arbitrary: i)
  case 0
  then show ?case by (simp add: path_bits_pos and_pow2_nat [of 0, simplified])
next
  case (Suc j)
  from Suc.prems have "i = k div 2 ^ Suc j div 2" by (simp only: div_pow_Suc)
  then have "2 * i + of_bool (odd (k div 2 ^ Suc j)) = k div 2 ^ Suc j" by simp
  with Suc.IH [of "2 * i + of_bool (odd (k div 2 ^ Suc j))"]
  show ?case by (simp add: path_bits_pos and_pow2_nat [of "Suc j", simplified])
qed

lemma path_bit_mask_eq:
  "k > 0 \<Longrightarrow> path_bit_mask k = (if k = 1 then 0 else 2 ^ (bit_width k - 2))"
proof -
  assume k: "k > 0"
  show ?thesis
  proof (cases "k = 1")
    case True
    then show ?thesis by (simp add: path_bit_mask_def bit_ceil_def bit_width_pos drop_bit_eq_div)
  next
    case False
    with k have "k div 2 > 0" by simp
    with k have "bit_width k = Suc (Suc (bit_width (k div 2 div 2)))" by (simp add: bit_width_pos)
    then show ?thesis using False k
      by (simp add: path_bit_mask_def bit_ceil_def drop_bit_eq_div)
  qed
qed

text \<open>The path of a position leads from the root to it.\<close>

lemma pos_dirs: "k > 0 \<Longrightarrow> pos (dirs k) 1 = k"
proof -
  assume k: "k > 0"
  show ?thesis
  proof (cases "k = 1")
    case True
    then show ?thesis using path_bit_mask_eq [of 1] by simp
  next
    case False
    let ?w = "bit_width k"
    from False k have "k div 2 > 0" by simp
    with k have w: "?w = Suc (Suc (?w - 2))" using bit_width_pos [of k] bit_width_gt0 [of "k div 2"]
      by linarith
    have w1: "Suc (?w - 1) = ?w" using w by linarith
    have "k < 2 ^ Suc (?w - 1)" unfolding w1 by (rule bit_width_upper)
    then have hi: "k < 2 * 2 ^ (?w - 1)" by (simp only: power_Suc)
    have "k div 2 ^ (?w - 1) = 1"
      using hi bit_width_lower [OF k] by (intro div_nat_eqI) simp_all
    moreover have "Suc (?w - 2) = ?w - 1" using w by linarith
    ultimately show ?thesis
      using False k pos_path_bits [of 1 k "?w - 2"] by (simp add: path_bit_mask_eq)
  qed
qed

text \<open>Position \<open>k\<close> lies in the subtree at position \<open>j\<close>.\<close>

definition under :: "nat \<Rightarrow> nat \<Rightarrow> bool" where
  "under j k \<longleftrightarrow> (\<exists>d. k div 2 ^ d = j)"

lemma under_refl [simp]: "under j j"
  unfolding under_def by (rule exI [of _ 0]) simp

lemma under_pos: "under i (pos bs i)"
proof (induction bs arbitrary: i)
  case (Cons b bs)
  from Cons [of "2 * i + of_bool b"] obtain d where "pos bs (2 * i + of_bool b) div 2 ^ d = 2 * i + of_bool b"
    by (auto simp: under_def)
  then have "pos bs (2 * i + of_bool b) div 2 ^ Suc d = i" by (cases b) (simp_all only: div_pow_Suc, simp_all)
  then show ?case unfolding under_def by (intro exI [of _ "Suc d"]) simp
qed simp

lemma under_parent: "under j k \<Longrightarrow> under (j div 2) k"
  unfolding under_def using div_pow_Suc by metis

lemma under_left: "under (2 * i) k \<Longrightarrow> under i k"
  using under_parent [of "2 * i" k] by simp

lemma under_right: "under (Suc (2 * i)) k \<Longrightarrow> under i k"
  using under_parent [of "Suc (2 * i)" k] by simp

lemmas under_child = under_left under_right

lemma under_le: "under j k \<Longrightarrow> j \<le> k"
  by (auto simp: under_def)

lemma under_siblings: "0 < i \<Longrightarrow> under (2 * i) k \<Longrightarrow> \<not> under (Suc (2 * i)) k"
proof
  assume i: "0 < i" and "under (2 * i) k" "under (Suc (2 * i)) k"
  then obtain d e where d: "k div 2 ^ d = 2 * i" and e: "k div 2 ^ e = Suc (2 * i)"
    by (auto simp: under_def)
  have le: "k div 2 ^ (a + Suc c) \<le> k div 2 ^ a div 2" for a c
  proof -
    have "k div 2 ^ (a + Suc c) = k div 2 ^ Suc a div 2 ^ c"
      using div_pow_add [of k "Suc a" c] by simp
    then show ?thesis by (simp only: div_pow_Suc div_le_dividend)
  qed
  consider "d = e" | c where "e = d + Suc c" | c where "d = e + Suc c"
    by (metis add_Suc_right less_iff_Suc_add linorder_neqE_nat)
  then show False
  proof cases
    case 1 with d e show ?thesis by simp
  next
    case (2 c) with le [of d c] d e i show ?thesis by simp
  next
    case (3 c) with le [of e c] d e i show ?thesis by simp
  qed
qed

section \<open>Complete trees\<close>

text \<open>\<open>complete_from i n t\<close>: \<open>t\<close> holds exactly the positions of the subtree at \<open>i\<close> that are at most \<open>n\<close>.\<close>

fun complete_from :: "nat \<Rightarrow> nat \<Rightarrow> 'a tree \<Rightarrow> bool" where
  "complete_from i n Leaf \<longleftrightarrow> n < i"
| "complete_from i n (Node l a r) \<longleftrightarrow>
     i \<le> n \<and> complete_from (2 * i) n l \<and> complete_from (Suc (2 * i)) n r"

lemma complete_from_Leaf_iff: "complete_from i n t \<Longrightarrow> t = Leaf \<longleftrightarrow> n < i"
  by (cases t) auto

lemma complete_from_Suc: "complete_from i n t \<Longrightarrow> \<not> under i (Suc n) \<Longrightarrow> complete_from i (Suc n) t"
proof (induction t arbitrary: i)
  case Leaf
  then have "i \<noteq> Suc n" by auto
  with Leaf show ?case by simp
qed (auto dest: under_child)

lemma complete_from_pred: "complete_from i (Suc n) t \<Longrightarrow> \<not> under i (Suc n) \<Longrightarrow> complete_from i n t"
proof (induction t arbitrary: i)
  case (Node l a r)
  then have "i \<noteq> Suc n" by auto
  with Node show ?case by (auto dest: under_child)
qed simp

lemma complete_from_positions: "complete_from i n t \<Longrightarrow> 0 < i \<Longrightarrow> complete_from i n t' \<Longrightarrow> size t = size t'"
proof (induction t arbitrary: i t')
  case Leaf
  then show ?case by (cases t') auto
next
  case (Node l a r)
  then show ?case by (cases t') auto
qed

text \<open>\<open>occurs i t k x\<close>: \<open>x\<close> stands at position \<open>k\<close> of the tree \<open>t\<close> rooted at position \<open>i\<close>.\<close>

fun occurs :: "nat \<Rightarrow> 'a tree \<Rightarrow> nat \<Rightarrow> 'a \<Rightarrow> bool" where
  "occurs i Leaf k x = False"
| "occurs i (Node l a r) k x \<longleftrightarrow> (k = i \<and> x = a) \<or> occurs (2 * i) l k x \<or> occurs (Suc (2 * i)) r k x"

lemma occurs_under: "occurs i t k x \<Longrightarrow> under i k"
  by (induction t arbitrary: i) (auto dest: under_child)

lemma occurs_set: "occurs i t k x \<Longrightarrow> x \<in> set_tree t"
  by (induction t arbitrary: i) auto

section \<open>Heap order by the key of a node\<close>

fun heap_ord :: "('n \<Rightarrow> 'k::linorder) \<Rightarrow> 'n tree \<Rightarrow> bool" where
  "heap_ord key Leaf = True"
| "heap_ord key (Node l a r) \<longleftrightarrow>
     (\<forall>x \<in> set_tree l \<union> set_tree r. key a \<le> key x) \<and> heap_ord key l \<and> heap_ord key r"

lemma heap_ord_root: "heap_ord key (Node l a r) \<Longrightarrow> x \<in> set_tree (Node l a r) \<Longrightarrow> key a \<le> key x"
  by auto

lemma heap_ord_parent:
  "heap_ord key t \<Longrightarrow> 0 < i \<Longrightarrow> occurs i t k b \<Longrightarrow> occurs i t k' p \<Longrightarrow> k' = 2 * k \<or> k' = Suc (2 * k)
     \<Longrightarrow> key b \<le> key p"
proof (induction t arbitrary: i)
  case (Node l a r)
  have up: "under (2 * i) k \<or> under (Suc (2 * i)) k \<Longrightarrow> k' \<noteq> i"
    using Node.prems(2,5) under_le [of "2 * i" k] under_le [of "Suc (2 * i)" k] by linarith
  have sub: "under j k \<Longrightarrow> under j k'" for j
  proof -
    assume "under j k"
    then obtain d where "k div 2 ^ d = j" by (auto simp: under_def)
    moreover have "k' div 2 = k" using Node.prems(5) by auto
    ultimately have "k' div 2 ^ Suc d = j" using div_pow_add [of k' 1 d] by simp
    then show ?thesis unfolding under_def by blast
  qed
  from Node.prems(3) consider "k = i" "b = a" | "occurs (2 * i) l k b" | "occurs (Suc (2 * i)) r k b"
    by auto
  then show ?case
  proof cases
    case 1
    with Node.prems show ?thesis by (auto dest: occurs_set)
  next
    case 2
    then have u: "under (2 * i) k" by (rule occurs_under)
    with up sub under_siblings [OF Node.prems(2)] Node.prems(4) have "occurs (2 * i) l k' p"
      by (auto dest: occurs_under)
    with 2 show ?thesis
      using Node.IH(1) [of "2 * i"] Node.prems by simp
  next
    case 3
    then have u: "under (Suc (2 * i)) k" by (rule occurs_under)
    with up sub under_siblings [OF Node.prems(2)] Node.prems(4) have "occurs (Suc (2 * i)) r k' p"
      by (auto dest: occurs_under)
    with 3 show ?thesis
      using Node.IH(2) [of "Suc (2 * i)"] Node.prems by simp
  qed
qed simp

section \<open>Insertion along a path\<close>

text \<open>
  The inner loop of \<open>_M_push\<close>: the displaced node moves one step down the path, displacing
  the next, without further comparisons. The outer loop finds the first node on the path whose
  key is greater.
\<close>

fun shift_down :: "bool list \<Rightarrow> 'n \<Rightarrow> 'n tree \<Rightarrow> 'n tree" where
  "shift_down (b # bs) x (Node l a r) =
     (if b then Node l x (shift_down bs a r) else Node (shift_down bs a l) x r)"
| "shift_down _ x _ = Node Leaf x Leaf"

fun ins_path :: "('n \<Rightarrow> 'k::linorder) \<Rightarrow> bool list \<Rightarrow> 'n \<Rightarrow> 'n tree \<Rightarrow> 'n tree" where
  "ins_path key (b # bs) x (Node l a r) =
     (if key x < key a then shift_down (b # bs) x (Node l a r)
      else if b then Node l a (ins_path key bs x r) else Node (ins_path key bs x l) a r)"
| "ins_path key _ x _ = Node Leaf x Leaf"

text \<open>\<open>fits bs t\<close>: the path \<open>bs\<close> leads through nodes of \<open>t\<close> to its first free place.\<close>

fun fits :: "bool list \<Rightarrow> 'n tree \<Rightarrow> bool" where
  "fits [] t \<longleftrightarrow> t = Leaf"
| "fits (b # bs) t \<longleftrightarrow> (case t of Leaf \<Rightarrow> False
     | Node l a r \<Rightarrow> (if b then l \<noteq> Leaf \<and> fits bs r else (l = Leaf \<longrightarrow> r = Leaf) \<and> fits bs l))"

lemma complete_fits:
  "complete_from i n t \<Longrightarrow> pos bs i = Suc n \<Longrightarrow> 0 < i \<Longrightarrow> fits bs t"
proof (induction bs arbitrary: i t)
  case Nil
  then show ?case by (simp add: complete_from_Leaf_iff)
next
  case (Cons b bs)
  let ?j = "2 * i + of_bool b"
  have "?j \<le> Suc n" using under_le [OF under_pos [of ?j bs]] Cons.prems(2) by simp
  then have j: "2 * i \<le> Suc n" "b \<Longrightarrow> 2 * i \<le> n" by auto
  with Cons.prems have "t \<noteq> Leaf" using complete_from_Leaf_iff [OF Cons.prems(1)] by linarith
  then obtain l a r where t: "t = Node l a r" by (cases t) auto
  with Cons.prems have l: "complete_from (2 * i) n l" and r: "complete_from (Suc (2 * i)) n r" by auto
  show ?case
    using Cons.IH [OF l] Cons.IH [OF r] Cons.prems j t complete_from_Leaf_iff [OF l]
      complete_from_Leaf_iff [OF r] by (cases b) auto
qed

lemma mset_shift_down: "fits bs t \<Longrightarrow> mset_tree (shift_down bs x t) = add_mset x (mset_tree t)"
proof (induction bs arbitrary: x t)
  case (Cons b bs)
  then obtain l a r where "t = Node l a r" by (cases t) auto
  with Cons show ?case by (auto split: if_splits)
qed simp

lemma mset_ins_path: "fits bs t \<Longrightarrow> mset_tree (ins_path key bs x t) = add_mset x (mset_tree t)"
proof (induction bs arbitrary: t)
  case (Cons b bs)
  then obtain l a r where t: "t = Node l a r" by (cases t) auto
  show ?case
  proof (cases "key x < key a")
    case True
    with t Cons.prems mset_shift_down [of "b # bs" t x] show ?thesis by simp
  next
    case False
    with t Cons show ?thesis by (auto split: if_splits)
  qed
qed simp

lemma set_shift_down: "fits bs t \<Longrightarrow> set_tree (shift_down bs x t) = insert x (set_tree t)"
  using mset_shift_down [of bs t x] by (simp flip: set_mset_tree)

lemma set_ins_path: "fits bs t \<Longrightarrow> set_tree (ins_path key bs x t) = insert x (set_tree t)"
  using mset_ins_path [of bs t key x] by (simp flip: set_mset_tree)

lemma heap_shift_down:
  "fits bs t \<Longrightarrow> heap_ord key t \<Longrightarrow> \<forall>y \<in> set_tree t. key x \<le> key y \<Longrightarrow> heap_ord key (shift_down bs x t)"
proof (induction bs arbitrary: x t)
  case (Cons b bs)
  then obtain l a r where t: "t = Node l a r" by (cases t) auto
  with Cons show ?case
    by (cases b) (auto simp: set_shift_down ball_Un)
qed simp

lemma heap_ins_path: "fits bs t \<Longrightarrow> heap_ord key t \<Longrightarrow> heap_ord key (ins_path key bs x t)"
proof (induction bs arbitrary: t)
  case (Cons b bs)
  then obtain l a r where t: "t = Node l a r" by (cases t) auto
  show ?case
  proof (cases "key x < key a")
    case True
    moreover from True Cons.prems(2) t have "\<forall>y \<in> set_tree t. key x \<le> key y"
      by (auto intro: less_imp_le order_trans)
    ultimately show ?thesis using t Cons.prems heap_shift_down [of "b # bs" t key x] by simp
  next
    case False
    with t Cons show ?thesis
      by (cases b) (auto simp: set_ins_path ball_Un)
  qed
qed simp

text \<open>The two loops change the shape alike.\<close>

lemma complete_sub:
  assumes "complete_from (2 * i + of_bool b') n t" "0 < i" "pos bs (2 * i + of_bool b) = Suc n" "b \<noteq> b'"
  shows "complete_from (2 * i + of_bool b') (Suc n) t"
proof (rule complete_from_Suc [OF assms(1)])
  have "under (2 * i + of_bool b) (Suc n)" using under_pos [of "2 * i + of_bool b" bs] assms(3) by simp
  then show "\<not> under (2 * i + of_bool b') (Suc n)"
    using under_siblings [OF assms(2), of "Suc n"] assms(4) by (cases b; cases b') auto
qed

lemma complete_shift_down:
  "complete_from i n t \<Longrightarrow> pos bs i = Suc n \<Longrightarrow> 0 < i \<Longrightarrow> complete_from i (Suc n) (shift_down bs x t)"
proof (induction bs arbitrary: i t x)
  case (Cons b bs)
  from complete_fits [OF Cons.prems] obtain l a r where t: "t = Node l a r" by (cases t) auto
  with Cons show ?case
    using complete_sub [of i True n r bs False] complete_sub [of i False n l bs True]
    by (cases b) auto
qed (simp add: complete_from_Leaf_iff)

lemma complete_ins_path:
  "complete_from i n t \<Longrightarrow> pos bs i = Suc n \<Longrightarrow> 0 < i \<Longrightarrow> complete_from i (Suc n) (ins_path key bs x t)"
proof (induction bs arbitrary: i t)
  case (Cons b bs)
  from complete_fits [OF Cons.prems] obtain l a r where t: "t = Node l a r" by (cases t) auto
  with Cons complete_shift_down [OF Cons.prems, of x] show ?case
    using complete_sub [of i True n r bs False] complete_sub [of i False n l bs True]
    by (cases b) auto
qed (simp add: complete_from_Leaf_iff)

section \<open>Removing the last leaf\<close>

fun del_path :: "bool list \<Rightarrow> 'n tree \<Rightarrow> 'n \<times> 'n tree" where
  "del_path (b # bs) (Node l a r) =
     (if b then (case del_path bs r of (x, r') \<Rightarrow> (x, Node l a r'))
      else (case del_path bs l of (x, l') \<Rightarrow> (x, Node l' a r)))"
| "del_path [] (Node l a r) = (a, Leaf)"
| "del_path bs Leaf = undefined"

text \<open>\<open>ends bs t\<close>: the path \<open>bs\<close> leads to a leaf node of \<open>t\<close>.\<close>

fun ends :: "bool list \<Rightarrow> 'n tree \<Rightarrow> bool" where
  "ends bs Leaf = False"
| "ends [] (Node l a r) \<longleftrightarrow> l = Leaf \<and> r = Leaf"
| "ends (b # bs) (Node l a r) \<longleftrightarrow> ends bs (if b then r else l)"

lemma complete_ends: "complete_from i n t \<Longrightarrow> pos bs i = n \<Longrightarrow> 0 < i \<Longrightarrow> ends bs t"
proof (induction bs t arbitrary: i rule: ends.induct)
  case (1 bs)
  then show ?case using under_le [OF under_pos [of i bs]] by simp
next
  case (2 l a r)
  then show ?case
    using complete_from_Leaf_iff [of "2 * n" n l] complete_from_Leaf_iff [of "Suc (2 * n)" n r] by simp
next
  case (3 b bs l a r)
  show ?case using 3(1) [of "2 * i + of_bool b"] 3(2-) by (cases b) auto
qed

lemma del_path_mset: "ends bs t \<Longrightarrow> del_path bs t = (x, t') \<Longrightarrow> mset_tree t = add_mset x (mset_tree t')"
  by (induction bs t arbitrary: t' rule: ends.induct) (auto split: if_splits prod.splits)

lemma del_path_set: "ends bs t \<Longrightarrow> del_path bs t = (x, t') \<Longrightarrow> set_tree t = insert x (set_tree t')"
  using del_path_mset [of bs t x t'] by (simp flip: set_mset_tree)

lemma del_path_heap: "ends bs t \<Longrightarrow> heap_ord key t \<Longrightarrow> del_path bs t = (x, t') \<Longrightarrow> heap_ord key t'"
proof (induction bs t arbitrary: t' rule: ends.induct)
  case (3 b bs l a r)
  then show ?case
    by (cases b) (auto split: prod.splits dest: del_path_set)
qed auto

lemma del_path_root:
  "ends bs t \<Longrightarrow> del_path bs t = (x, t') \<Longrightarrow> t = Node l a r \<Longrightarrow> t' \<noteq> Leaf \<Longrightarrow> \<exists>l' r'. t' = Node l' a r'"
  by (cases "(bs, t)" rule: ends.cases) (auto split: if_splits prod.splits)

lemma del_path_occurs:
  "ends bs t \<Longrightarrow> del_path bs t = (x, t') \<Longrightarrow> occurs i t (pos bs i) x \<and> (occurs i t' k y \<longrightarrow> occurs i t k y)"
proof (induction bs t arbitrary: t' i rule: ends.induct)
  case (3 b bs l a r)
  show ?case using 3(1) [of _ "2 * i + of_bool b"] 3(2-) by (cases b) (auto split: prod.splits)
qed auto

lemma del_path_complete:
  "complete_from i (Suc n) t \<Longrightarrow> pos bs i = Suc n \<Longrightarrow> 0 < i \<Longrightarrow> del_path bs t = (x, t') \<Longrightarrow> complete_from i n t'"
proof (induction bs t arbitrary: t' i rule: ends.induct)
  case (1 bs)
  then show ?case using under_le [OF under_pos [of i bs]] by simp
next
  case (2 l a r)
  then show ?case by auto
next
  case (3 b bs l a r)
  let ?j = "2 * i + of_bool b" and ?o = "2 * i + of_bool (\<not> b)"
  have p: "pos bs ?j = Suc n" using 3(3) by simp
  have u: "under ?j (Suc n)" using under_pos [of ?j bs] p by simp
  then have "i \<le> n" using under_le [of ?j "Suc n"] 3(4) by (cases b) auto
  moreover have "\<not> under ?o (Suc n)" using u under_siblings [OF 3(4), of "Suc n"] by (cases b) auto
  ultimately show ?case
    using 3(1) [OF _ p] 3(2,4,5) by (cases b) (auto split: prod.splits intro: complete_from_pred)
qed

section \<open>Sinking a node into the place of a root\<close>

function (sequential) sink :: "('n \<Rightarrow> 'k::linorder) \<Rightarrow> 'n \<Rightarrow> 'n tree \<Rightarrow> 'n tree \<Rightarrow> 'n tree" where
  "sink key a (Node ll la lr) (Node rl ra rr) =
     (if key ra < key la
      then if key ra < key a then Node (Node ll la lr) ra (sink key a rl rr)
           else Node (Node ll la lr) a (Node rl ra rr)
      else if key la < key a then Node (sink key a ll lr) la (Node rl ra rr)
           else Node (Node ll la lr) a (Node rl ra rr))"
| "sink key a (Node ll la lr) Leaf =
     (if key la < key a then Node (sink key a ll lr) la Leaf else Node (Node ll la lr) a Leaf)"
| "sink key a Leaf r = Node Leaf a r"
  by pat_completeness auto
termination
  by (relation "measure (\<lambda>(key, a, l, r). size l + size r)") auto

lemma mset_sink: "mset_tree (sink key a l r) = add_mset a (mset_tree l + mset_tree r)"
  by (induction key a l r rule: sink.induct) (auto simp: ac_simps)

lemma set_sink: "set_tree (sink key a l r) = insert a (set_tree l \<union> set_tree r)"
  using mset_sink [of key a l r] by (simp flip: set_mset_tree)

lemma complete_sink:
  "complete_from i n (Node l a r) \<Longrightarrow> complete_from i n (sink key b l r)"
  by (induction key b l r arbitrary: i a rule: sink.induct) auto

lemma heap_sink:
  assumes "heap_ord key l" "heap_ord key r" "l = Leaf \<Longrightarrow> r = Leaf"
    and "complete_from i n (Node l b r)"
  shows "heap_ord key (sink key a l r)"
  using assms
proof (induction key a l r arbitrary: i b rule: sink.induct)
  case (1 key a ll la lr rl ra rr)
  have "rl = Leaf \<Longrightarrow> rr = Leaf" "ll = Leaf \<Longrightarrow> lr = Leaf"
    using 1(6) by (auto simp: complete_from_Leaf_iff)
  then show ?case
    using 1(1) [of "Suc (2 * i)" ra] 1(2) [of "2 * i" la] 1(3-)
    by (auto simp: set_sink ball_Un not_less intro: less_imp_le order_trans)
next
  case (2 key a ll la lr)
  have "ll = Leaf \<Longrightarrow> lr = Leaf" using 2(5) by (auto simp: complete_from_Leaf_iff)
  then show ?case
    using 2(1) [of "2 * i" la] 2(2-)
    by (auto simp: set_sink ball_Un not_less intro: less_imp_le order_trans)
next
  case (3 key a r)
  then show ?case by simp
qed

section \<open>Contexts and percolating a node upwards\<close>

text \<open>
  A context is the path from a place in a tree up to the root: each frame has the direction in
  which the hole lies (\<open>True\<close> for the right child), the node and its other subtree.
\<close>

type_synonym 'n ctx = "(bool \<times> 'n \<times> 'n tree) list"

fun plug :: "'n ctx \<Rightarrow> 'n tree \<Rightarrow> 'n tree" where
  "plug [] t = t"
| "plug ((d, a, s) # c) t = plug c (if d then Node s a t else Node t a s)"

fun cpos :: "'n ctx \<Rightarrow> nat \<Rightarrow> nat" where
  "cpos [] i = i"
| "cpos ((d, a, s) # c) i = 2 * cpos c i + of_bool d"

fun percolate :: "('n \<Rightarrow> 'k::linorder) \<Rightarrow> 'n \<Rightarrow> 'n ctx \<Rightarrow> 'n tree \<Rightarrow> 'n tree \<Rightarrow> 'n tree" where
  "percolate key p [] l r = Node l p r"
| "percolate key p ((d, b, s) # c) l r =
     (if key p < key b
      then (if d then percolate key p c s (Node l b r) else percolate key p c (Node l b r) s)
      else plug ((d, b, s) # c) (Node l p r))"

definition lower_bound :: "('n \<Rightarrow> 'k::linorder) \<Rightarrow> 'n ctx \<Rightarrow> 'n \<Rightarrow> bool" where
  "lower_bound key c x \<longleftrightarrow> (\<forall>(d, a, s) \<in> set c. key a \<le> key x)"

fun ctx_ord :: "('n \<Rightarrow> 'k::linorder) \<Rightarrow> 'n ctx \<Rightarrow> bool" where
  "ctx_ord key [] = True"
| "ctx_ord key ((d, a, s) # c) \<longleftrightarrow> heap_ord key (Node s a Leaf)
     \<and> (\<forall>x \<in> insert a (set_tree s). lower_bound key c x) \<and> ctx_ord key c"

lemma plug_append: "plug (c @ c') t = plug c' (plug c t)"
  by (induction c t rule: plug.induct) auto

lemma find_node: "a \<in> set_tree t \<Longrightarrow> \<exists>c l r. t = plug c (Node l a r)"
proof (induction t)
  case (Node l b r)
  from Node.prems consider "a = b" | "a \<in> set_tree l" | "a \<in> set_tree r" by auto
  then show ?case
  proof cases
    case 1
    then have "Node l b r = plug [] (Node l a r)" by simp
    then show ?thesis by blast
  next
    case 2
    with Node obtain c l' r' where "l = plug c (Node l' a r')" by blast
    then have "Node l b r = plug (c @ [(False, b, r)]) (Node l' a r')" by (simp add: plug_append)
    then show ?thesis by blast
  next
    case 3
    with Node obtain c l' r' where "r = plug c (Node l' a r')" by blast
    then have "Node l b r = plug (c @ [(True, b, l)]) (Node l' a r')" by (simp add: plug_append)
    then show ?thesis by blast
  qed
qed simp

lemma lower_bound_simps [simp]:
  "lower_bound key [] x"
  "lower_bound key ((d, a, s) # c) x \<longleftrightarrow> key a \<le> key x \<and> lower_bound key c x"
  by (auto simp: lower_bound_def)

lemma lower_bound_mono: "lower_bound key c x \<Longrightarrow> key x \<le> key y \<Longrightarrow> lower_bound key c y"
  by (auto simp: lower_bound_def intro: order_trans)

lemma heap_plug:
  "heap_ord key (plug c t) \<longleftrightarrow> ctx_ord key c \<and> heap_ord key t \<and> (\<forall>x \<in> set_tree t. lower_bound key c x)"
  by (induction c t rule: plug.induct) (auto simp: ball_Un)

fun ctx_mset :: "'n ctx \<Rightarrow> 'n multiset" where
  "ctx_mset [] = {#}"
| "ctx_mset ((d, a, s) # c) = add_mset a (mset_tree s) + ctx_mset c"

lemma mset_plug: "mset_tree (plug c t) = mset_tree t + ctx_mset c"
  by (induction c t rule: plug.induct) (auto simp: ac_simps)

lemma mset_percolate:
  "mset_tree (percolate key p c l r) = add_mset p (mset_tree l + mset_tree r) + ctx_mset c"
  by (induction key p c l r rule: percolate.induct) (auto simp: mset_plug ac_simps)

lemma heap_percolate:
  assumes "ctx_ord key c" "heap_ord key (Node l p r)"
    and "\<forall>x \<in> set_tree l \<union> set_tree r. lower_bound key c x"
  shows "heap_ord key (percolate key p c l r)"
  using assms
proof (induction key p c l r rule: percolate.induct)
  case (2 key p d b s c l r)
  show ?case
  proof (cases "key p < key b")
    case True
    have h: "heap_ord key (Node l b r)" using "2.prems" by (auto simp: ball_Un)
    have "\<forall>x \<in> set_tree s \<union> set_tree (Node l b r). key p \<le> key x"
      using True "2.prems" by (fastforce simp: ball_Un)
    moreover have "\<forall>x \<in> set_tree s \<union> set_tree (Node l b r). lower_bound key c x"
      using "2.prems" by (auto simp: ball_Un)
    ultimately show ?thesis using True h "2.prems" "2.IH"
      by (cases d) (auto simp: ball_Un)
  next
    case False
    then have "lower_bound key ((d, b, s) # c) p"
      using "2.prems" lower_bound_mono [of key c b p] by auto
    with False "2.prems" heap_plug [of key "(d, b, s) # c" "Node l p r"] show ?thesis
      by (auto simp: ball_Un simp del: plug.simps)
  qed
qed simp

lemma complete_plug_swap:
  "complete_from i n (plug c t) \<Longrightarrow> (\<And>j. complete_from j n t \<Longrightarrow> complete_from j n t') \<Longrightarrow> complete_from i n (plug c t')"
  by (induction c arbitrary: t t') (force split: if_splits)+

lemma complete_percolate:
  "complete_from i n (plug c (Node l a r)) \<Longrightarrow> complete_from i n (percolate key p c l r)"
proof (induction key p c l r arbitrary: a rule: percolate.induct)
  case (1 key p l r)
  then show ?case by simp
next
  case (2 key p d b s c l r)
  have "complete_from i n (plug c (if d then Node s b (Node l a r) else Node (Node l a r) b s))"
    using "2.prems" by simp
  then have A: "complete_from i n (plug c (if d then Node s p (Node l b r) else Node (Node l b r) p s))"
    by (rule complete_plug_swap) (auto split: if_splits)
  have B: "complete_from i n (plug ((d, b, s) # c) (Node l p r))"
    using "2.prems" by (rule complete_plug_swap) auto
  show ?case using A B "2.IH" by (cases d) auto
qed

lemma complete_plug_hole: "complete_from i n (plug c t) \<Longrightarrow> complete_from (cpos c i) n t"
proof (induction c t rule: plug.induct)
  case (2 d a s c t)
  then have "complete_from (cpos c i) n (if d then Node s a t else Node t a s)" by simp
  then show ?case by (cases d) auto
qed simp

lemma complete_plug_frame:
  "complete_from i n (plug ((d, b, s) # c) t) \<Longrightarrow> complete_from (2 * cpos c i + of_bool (\<not> d)) n s"
  using complete_plug_hole [of i n c "if d then Node s b t else Node t b s"] by (cases d) auto

lemma occurs_plug: "occurs (cpos c i) t k x \<Longrightarrow> occurs i (plug c t) k x"
  by (induction c t rule: plug.induct) (auto split: if_splits)

lemma cpos_pos [simp]: "0 < i \<Longrightarrow> 0 < cpos c i"
  by (induction c) auto

definition full_ctx :: "'n ctx \<Rightarrow> bool" where
  "full_ctx c \<longleftrightarrow> (\<forall>(d, a, s) \<in> set c. s \<noteq> Leaf)"

lemma full_ctx_simps [simp]:
  "full_ctx []" "full_ctx ((d, a, s) # c) \<longleftrightarrow> s \<noteq> Leaf \<and> full_ctx c"
  by (auto simp: full_ctx_def)

text \<open>Above a node with a child every sibling on the way to the root exists.\<close>

lemma full_ctx_inner:
  "complete_from i n (plug c t) \<Longrightarrow> 0 < i \<Longrightarrow> t = Node l a r \<Longrightarrow> l \<noteq> Leaf \<or> r \<noteq> Leaf \<Longrightarrow> full_ctx c"
proof (induction c t arbitrary: l a r rule: plug.induct)
  case (2 d b s c t)
  have k: "0 < cpos c i" using "2.prems" by simp
  have hole: "complete_from (2 * cpos c i + of_bool d) n t"
    using complete_plug_hole [OF "2.prems"(1)] by simp
  have "2 * (2 * cpos c i) \<le> n"
    using hole "2.prems"(3,4) complete_from_Leaf_iff [of _ n l] complete_from_Leaf_iff [of _ n r]
    by (cases d) fastforce+
  moreover have "complete_from (2 * cpos c i + of_bool (\<not> d)) n s"
    using "2.prems"(1) by (rule complete_plug_frame)
  ultimately have "s \<noteq> Leaf" using k by (cases d) (auto simp: complete_from_Leaf_iff)
  moreover have "full_ctx c"
    using "2.IH" [of "if d then s else t" b "if d then t else s"] "2.prems" by (cases d) auto
  ultimately show ?case by simp
qed simp

lemma full_ctx_tail:
  assumes "complete_from i n (plug ((d, b, s) # c) (Node l a r))" "0 < i"
  shows "full_ctx c"
  using assms full_ctx_inner [of i n c "if d then Node s b (Node l a r) else Node (Node l a r) b s"]
  by (cases d) auto

text \<open>Where a place has no sibling, the place is a left child and the last position.\<close>

lemma lone_child:
  assumes "complete_from i n (plug ((d, b, Leaf) # c) (Node l a r))" "0 < i"
  shows "\<not> d \<and> n = 2 * cpos c i"
  using complete_plug_hole [OF assms(1)] complete_plug_frame [OF assms(1)] by (cases d) auto

text \<open>
  A heap from which the last leaf \<open>p\<close> was taken: where \<open>p\<close> has to move above the parent of a
  place, that place has a sibling, because a missing sibling would have been \<open>p\<close> itself.
\<close>

lemma percolate_full_ctx:
  assumes t: "complete_from 1 (Suc n) t" "heap_ord key t"
    and del: "del_path bs t = (p, plug ((d, b, s) # c) (Node l a r))" "pos bs 1 = Suc n"
    and less: "key p < key b"
  shows "full_ctx ((d, b, s) # c)"
proof -
  let ?t' = "plug ((d, b, s) # c) (Node l a r)"
  have e: "ends bs t" using complete_ends [OF t(1) del(2)] by simp
  have comp: "complete_from 1 n ?t'" using del_path_complete [OF t(1) del(2) _ del(1)] by simp
  have "s \<noteq> Leaf"
  proof
    assume s: "s = Leaf"
    with lone_child [of 1 n d b c l a r] comp have n: "\<not> d" "n = 2 * cpos c 1" by auto
    have "occurs 1 (plug c (if d then Node s b (Node l a r) else Node (Node l a r) b s)) (cpos c 1) b"
      by (rule occurs_plug) simp
    then have "occurs 1 ?t' (cpos c 1) b" by simp
    then have "occurs 1 t (cpos c 1) b" and "occurs 1 t (Suc n) p"
      using del_path_occurs [OF e del(1), of 1] del(2) by auto
    from heap_ord_parent [OF t(2) _ this] n have "key b \<le> key p" by simp
    with less show False by simp
  qed
  with full_ctx_tail [OF comp] show ?thesis by simp
qed

lemma complete_size: "complete_from 1 n t \<Longrightarrow> size t = n"
proof (induction n arbitrary: t)
  case 0
  then show ?case using complete_from_Leaf_iff [of 1 0 t] by simp
next
  case (Suc n)
  have p: "pos (dirs (Suc n)) 1 = Suc n" by (rule pos_dirs) simp
  obtain x t' where d: "del_path (dirs (Suc n)) t = (x, t')" by fastforce
  have "complete_from 1 n t'" by (rule del_path_complete [OF Suc.prems p _ d]) simp
  moreover have "mset_tree t = add_mset x (mset_tree t')"
    using complete_ends [OF Suc.prems p] del_path_mset d by fastforce
  then have "size t = Suc (size t')" by (metis size_add_mset size_mset_tree)
  ultimately show ?case using Suc.IH by simp
qed

end
