(* ===== verification/Priority_Interface.thy ===== *)
theory Priority_Interface
  imports Prelude
begin

text \<open>
  What the scheduler relies on from its timer heap: a state represents a set of nodes, the top
  is a node with the least key, push and remove change the set by one node, and remove tells
  whether the node was there. The clients' lemmas are about draining a queue and about
  arbitrary sequences of operations.
\<close>

section \<open>Clients of a priority queue\<close>

fun pq_drain :: "('s \<Rightarrow> 'n ptr) \<Rightarrow> ('s \<Rightarrow> 's ub) \<Rightarrow> nat \<Rightarrow> 's \<Rightarrow> 'n list ub" where
  "pq_drain tp pop 0 s = Some []"
| "pq_drain tp pop (Suc n) s = do {
     a \<leftarrow> tp s;
     s' \<leftarrow> pop s;
     xs \<leftarrow> pq_drain tp pop n s';
     Some (a # xs)
   }"

datatype 'n pqop = Push 'n | Remove 'n

fun pq_run :: "('n \<Rightarrow> 's \<Rightarrow> 's ub) \<Rightarrow> ('n \<Rightarrow> 's \<Rightarrow> (bool \<times> 's) ub) \<Rightarrow> 'n pqop list \<Rightarrow> 's \<Rightarrow> (bool list \<times> 's) ub" where
  "pq_run push rem [] s = Some ([], s)"
| "pq_run push rem (Push x # ops) s = do { s' \<leftarrow> push x s; pq_run push rem ops s' }"
| "pq_run push rem (Remove x # ops) s = do {
     (b, s') \<leftarrow> rem x s;
     (bs, s'') \<leftarrow> pq_run push rem ops s';
     Some (b # bs, s'')
   }"

text \<open>The specification on sets; a node is pushed only while it is not queued.\<close>

fun pq_valid :: "'n pqop list \<Rightarrow> 'n set \<Rightarrow> bool" where
  "pq_valid [] A = True"
| "pq_valid (Push x # ops) A = (x \<notin> A \<and> pq_valid ops (insert x A))"
| "pq_valid (Remove x # ops) A = pq_valid ops (A - {x})"

fun pq_spec :: "'n pqop list \<Rightarrow> 'n set \<Rightarrow> bool list \<times> 'n set" where
  "pq_spec [] A = ([], A)"
| "pq_spec (Push x # ops) A = pq_spec ops (insert x A)"
| "pq_spec (Remove x # ops) A = (case pq_spec ops (A - {x}) of (bs, B) \<Rightarrow> ((x \<in> A) # bs, B))"

lemma pq_valid_pushes: "distinct xs \<Longrightarrow> A \<inter> set xs = {} \<Longrightarrow> pq_valid (map Push xs) A"
  by (induction xs arbitrary: A) auto

lemma pq_spec_pushes: "pq_spec (map Push xs) A = ([], A \<union> set xs)"
  by (induction xs arbitrary: A) auto

section \<open>The contract\<close>

locale priority_queue =
  fixes repr :: "'s \<Rightarrow> 'n set \<Rightarrow> bool"
    and key :: "'n \<Rightarrow> 'k::linorder"
    and tp :: "'s \<Rightarrow> 'n ptr"
    and push :: "'n \<Rightarrow> 's \<Rightarrow> 's ub"
    and pop :: "'s \<Rightarrow> 's ub"
    and rem :: "'n \<Rightarrow> 's \<Rightarrow> (bool \<times> 's) ub"
  assumes finite_law: "repr s A \<Longrightarrow> finite A"
    and top_law: "repr s A \<Longrightarrow> (case tp s of None \<Rightarrow> A = {} | Some a \<Rightarrow> a \<in> A \<and> (\<forall>x \<in> A. key a \<le> key x))"
    and push_law: "repr s A \<Longrightarrow> x \<notin> A \<Longrightarrow> \<exists>s'. push x s = Some s' \<and> repr s' (insert x A)"
    and pop_law: "repr s A \<Longrightarrow> tp s = Some a \<Longrightarrow> \<exists>s'. pop s = Some s' \<and> repr s' (A - {a})"
    and rem_law: "repr s A \<Longrightarrow> \<exists>s'. rem x s = Some (x \<in> A, s') \<and> repr s' (A - {x})"
begin

lemma run_refines:
  "repr s A \<Longrightarrow> pq_valid ops A \<Longrightarrow>
     \<exists>s'. pq_run push rem ops s = Some (fst (pq_spec ops A), s') \<and> repr s' (snd (pq_spec ops A))"
proof (induction ops arbitrary: s A)
  case (Cons p ops)
  show ?case
  proof (cases p)
    case (Push x)
    with Cons.prems push_law [of s A x] obtain s1 where "push x s = Some s1" "repr s1 (insert x A)" by auto
    with Cons.IH [of s1 "insert x A"] Cons.prems Push show ?thesis by simp
  next
    case (Remove x)
    from rem_law [OF Cons.prems(1), of x] obtain s1 where "rem x s = Some (x \<in> A, s1)" "repr s1 (A - {x})" by auto
    with Cons.IH [of s1 "A - {x}"] Cons.prems Remove show ?thesis by (auto split: prod.splits)
  qed
qed simp

text \<open>Taking the top as long as there is one yields every node once, by increasing key.\<close>

lemma drain_sorted:
  "repr s A \<Longrightarrow> card A = n \<Longrightarrow>
     \<exists>xs. pq_drain tp pop n s = Some xs \<and> set xs = A \<and> distinct xs \<and> sorted (map key xs)"
proof (induction n arbitrary: s A)
  case 0
  with finite_law [of s A] show ?case by simp
next
  case (Suc n)
  then have "A \<noteq> {}" by auto
  with top_law [OF Suc.prems(1)] obtain a where a: "tp s = Some a" "a \<in> A" "\<forall>x \<in> A. key a \<le> key x"
    by (auto split: option.splits)
  from pop_law [OF Suc.prems(1) a(1)] obtain s' where s': "pop s = Some s'" "repr s' (A - {a})" by auto
  moreover have "card (A - {a}) = n" using Suc.prems(2) a(2) by simp
  ultimately obtain xs where "pq_drain tp pop n s' = Some xs" "set xs = A - {a}" "distinct xs" "sorted (map key xs)"
    using Suc.IH by blast
  with a s' show ?case by auto
qed

lemma sort_nodes:
  assumes "repr s {}" "distinct xs"
  shows "\<exists>s' ys. pq_run push rem (map Push xs) s = Some ([], s') \<and> pq_drain tp pop (length xs) s' = Some ys
    \<and> set ys = set xs \<and> distinct ys \<and> sorted (map key ys)"
proof -
  from run_refines [OF assms(1), of "map Push xs"] assms(2)
  obtain s' where s': "pq_run push rem (map Push xs) s = Some ([], s')" "repr s' (set xs)"
    by (auto simp: pq_valid_pushes pq_spec_pushes)
  with drain_sorted [OF s'(2)] assms(2) show ?thesis by (auto simp: distinct_card)
qed

end

end
