(* ===== verification/Intrusive_Heap.thy ===== *)
theory Intrusive_Heap
  imports Heap_Tree Priority_Interface
begin

text \<open>
  \<open>__intrusive_heap.hpp\<close>: the timer heap, a binary heap whose tree is made of three pointer
  members of the nodes (\<open>_Prev\<close> is the parent). The model is the code on an explicit store:
  pointers to pointers (\<open>_Node **\<close>) are locations, and every write happens in the code's order.
  The key of a node is a parameter, never written by the heap. \<open>__size_\<close> is a natural number:
  the nodes are distinct objects in memory, so it cannot wrap.

  The abstraction \<open>tree_rep\<close> says which tree of nodes the pointers spell; each operation is proved
  to have no undefined behaviour on a well-formed heap and to implement its functional reading
  of \<open>Heap_Tree\<close>. The theory ends with the priority queue contract and its interpretation.
\<close>

section \<open>State\<close>

record 'n heap =
  h_prev :: "('n, 'n ptr) field"
  h_left :: "('n, 'n ptr) field"
  h_right :: "('n, 'n ptr) field"
  h_root :: "'n ptr"
  h_size :: nat

text \<open>What a \<open>_Node **\<close> of the code may point to; \<open>Sentinel\<close> is the local of the same name.\<close>

datatype 'n loc = Root | LeftOf 'n | RightOf 'n | PrevOf 'n | Sentinel

definition set_prev :: "'n \<Rightarrow> 'n ptr \<Rightarrow> 'n heap \<Rightarrow> 'n heap" where
  "set_prev a v s = s\<lparr>h_prev := (h_prev s)(a := v)\<rparr>"

definition set_left :: "'n \<Rightarrow> 'n ptr \<Rightarrow> 'n heap \<Rightarrow> 'n heap" where
  "set_left a v s = s\<lparr>h_left := (h_left s)(a := v)\<rparr>"

definition set_right :: "'n \<Rightarrow> 'n ptr \<Rightarrow> 'n heap \<Rightarrow> 'n heap" where
  "set_right a v s = s\<lparr>h_right := (h_right s)(a := v)\<rparr>"

fun get_loc :: "'n loc \<Rightarrow> 'n heap \<Rightarrow> 'n ptr" where
  "get_loc Root s = h_root s"
| "get_loc (LeftOf a) s = h_left s a"
| "get_loc (RightOf a) s = h_right s a"
| "get_loc (PrevOf a) s = h_prev s a"
| "get_loc Sentinel s = nullptr"

fun set_loc :: "'n loc \<Rightarrow> 'n ptr \<Rightarrow> 'n heap \<Rightarrow> 'n heap" where
  "set_loc Root v s = s\<lparr>h_root := v\<rparr>"
| "set_loc (LeftOf a) v s = set_left a v s"
| "set_loc (RightOf a) v s = set_right a v s"
| "set_loc (PrevOf a) v s = set_prev a v s"
| "set_loc Sentinel v s = s"

definition heap_new :: "'n heap" where
  "heap_new = \<lparr>h_prev = (\<lambda>_. nullptr), h_left = (\<lambda>_. nullptr), h_right = (\<lambda>_. nullptr),
     h_root = nullptr, h_size = 0\<rparr>"

section \<open>Operations\<close>

subsection \<open>Push\<close>

text \<open>The inner loop of \<open>_M_push\<close>; it returns the last displaced node.\<close>

function push_sink :: "nat \<Rightarrow> nat \<Rightarrow> 'n \<Rightarrow> 'n ptr \<Rightarrow> 'n heap \<Rightarrow> ('n \<times> 'n heap) ub" where
  "push_sink k msk node p s =
     (if msk = 0 then Some (node, s)
      else do {
        a \<leftarrow> deref p;
        if msk AND k \<noteq> 0 then do {
          let s1 = set_right node (Some a) s;
          let s2 = set_left node (h_left s1 a) s1;
          b \<leftarrow> deref (h_left s2 a);
          let s3 = set_prev b (Some node) s2;
          push_sink k (msk div 2) a (h_right s3 a) s3
        } else do {
          let s1 = set_right node (h_right s a) s;
          let s2 = set_left node (Some a) s1;
          let s3 = (case h_right s2 a of None \<Rightarrow> s2 | Some b \<Rightarrow> set_prev b (Some node) s2);
          push_sink k (msk div 2) a (h_left s3 a) s3
        }
      })"
  by pat_completeness auto
termination
  by (relation "measure (\<lambda>(k, msk, node, p, s). msk)") auto

function push_loop ::
  "('n \<Rightarrow> 'k::linorder) \<Rightarrow> nat \<Rightarrow> nat \<Rightarrow> 'n \<Rightarrow> 'n loc \<Rightarrow> 'n ptr \<Rightarrow> 'n ptr \<Rightarrow> 'n heap \<Rightarrow> 'n heap ub" where
  "push_loop key k msk node pp p q s =
     (if msk = 0
      then Some (set_left node nullptr (set_right node nullptr (set_prev node q (set_loc pp (Some node) s))))
      else do {
        a \<leftarrow> deref p;
        if key node < key a then do {
          let s1 = set_prev node q s;
          let s2 = set_prev a (Some node) s1;
          let s3 = set_loc pp (Some node) s2;
          (node', s4) \<leftarrow> push_sink k msk node p s3;
          assert_c (h_right s4 node' = nullptr);
          Some (set_left node' nullptr s4)
        } else do {
          let pp' = (if msk AND k \<noteq> 0 then RightOf a else LeftOf a);
          push_loop key k (msk div 2) node pp' (get_loc pp' s) p s
        }
      })"
  by pat_completeness auto
termination
  by (relation "measure (\<lambda>(key, k, msk, node, pp, p, q, s). msk)") auto

definition heap_push :: "('n \<Rightarrow> 'k::linorder) \<Rightarrow> 'n \<Rightarrow> 'n heap \<Rightarrow> 'n heap ub" where
  "heap_push key node s =
     (let s0 = s\<lparr>h_size := h_size s + 1\<rparr>
      in push_loop key (h_size s0) (path_bit_mask (h_size s0)) node Root (h_root s0) nullptr s0)"

declare push_sink.simps [simp del] push_loop.simps [simp del]

subsection \<open>Removing the last leaf\<close>

function leaf_loop :: "nat \<Rightarrow> nat \<Rightarrow> 'n loc \<Rightarrow> 'n ptr \<Rightarrow> 'n heap \<Rightarrow> ('n loc \<times> 'n ptr) ub" where
  "leaf_loop path msk pp p s =
     (if msk = 0 then Some (pp, p)
      else do {
        a \<leftarrow> deref p;
        let pp' = (if msk AND path \<noteq> 0 then RightOf a else LeftOf a);
        leaf_loop path (msk div 2) pp' (get_loc pp' s) s
      })"
  by pat_completeness auto
termination
  by (relation "measure (\<lambda>(path, msk, pp, p, s). msk)") auto

declare leaf_loop.simps [simp del]

definition remove_least_leaf :: "'n loc \<Rightarrow> nat \<Rightarrow> 'n heap \<Rightarrow> ('n ptr \<times> 'n heap) ub" where
  "remove_least_leaf pp path s = do {
     let msk = path_bit_mask path;
     (pp', p) \<leftarrow> leaf_loop path msk pp (get_loc pp s) s;
     Some (p, set_loc pp' nullptr s)
   }"

subsection \<open>Sinking and percolating\<close>

definition swap_with_right_child :: "'n \<Rightarrow> 'n \<Rightarrow> 'n heap \<Rightarrow> 'n heap" where
  "swap_with_right_child parent child s =
     (let s1 = set_right parent (h_right s child) s;
          s2 = set_right child (Some parent) s1;
          tmp = h_left s2 parent;
          s3 = set_left parent (h_left s2 child) s2
      in set_left child tmp s3)"

definition swap_with_left_child :: "'n \<Rightarrow> 'n \<Rightarrow> 'n heap \<Rightarrow> 'n heap" where
  "swap_with_left_child parent child s =
     (let tmp = h_right s parent;
          s1 = set_right parent (h_right s child) s;
          s2 = set_right child tmp s1;
          s3 = set_left parent (h_left s2 child) s2
      in set_left child (Some parent) s3)"

partial_function (option) heap_down_sink ::
  "('n \<Rightarrow> 'k::linorder) \<Rightarrow> 'n \<Rightarrow> 'n loc \<Rightarrow> 'n ptr \<Rightarrow> 'n heap \<Rightarrow> 'n heap option" where
  "heap_down_sink key p pp parent s =
     (case h_left s p of
        None \<Rightarrow> Some (set_prev p parent s)
      | Some l \<Rightarrow>
          if (case h_right s p of None \<Rightarrow> False | Some r \<Rightarrow> key r < key l)
          then do {
            r \<leftarrow> deref (h_right s p);
            if key r < key p then do {
              let s1 = swap_with_right_child p r s;
              let s2 = set_prev l (Some r) s1;
              let s3 = set_loc pp (Some r) s2;
              heap_down_sink key p (RightOf r) (Some r) s3
            } else Some (set_prev p parent (set_prev l (Some p) (set_prev r (Some p) s)))
          }
          else if key l < key p then do {
            let s1 = swap_with_left_child p l s;
            let s2 = (case h_right s p of None \<Rightarrow> s1 | Some r \<Rightarrow> set_prev r (Some l) s1);
            let s3 = set_loc pp (Some l) s2;
            heap_down_sink key p (LeftOf l) (Some l) s3
          }
          else do {
            let s1 = (case h_right s p of None \<Rightarrow> s | Some r \<Rightarrow> set_prev r (Some p) s);
            Some (set_prev p parent (set_prev l (Some p) s1))
          })"

text \<open>
  One round of the do-while loop swaps \<open>p\<close> with its parent; the \<open>_Prev\<close> pointers of the two
  nodes that become children of \<open>p\<close> are written in the next round or after the loop, through
  the locations \<open>__parent_x\<close> and \<open>__parent_y\<close>.
\<close>

partial_function (option) percolate_loop ::
  "('n \<Rightarrow> 'k::linorder) \<Rightarrow> 'n \<Rightarrow> 'n loc \<Rightarrow> 'n \<Rightarrow> 'n ptr \<Rightarrow> 'n heap \<Rightarrow> 'n heap option" where
  "percolate_loop key p px parent grand s = do {
     let s1 = set_loc px (Some parent) s;
     (px', s2) \<leftarrow>
       (if h_right s1 parent = Some p
        then do { b \<leftarrow> deref (h_left s1 parent); Some (PrevOf b, swap_with_right_child parent p s1) }
        else do { b \<leftarrow> deref (h_right s1 parent); Some (PrevOf b, swap_with_left_child parent p s1) });
     let py' = PrevOf parent;
     g \<leftarrow> deref grand;
     let s3 = (if h_right s2 g = Some parent then set_right g (Some p) s2 else set_left g (Some p) s2);
     (if key p < key g then percolate_loop key p px' g (h_prev s3 g) s3
      else Some (set_prev p (Some g) (set_loc py' (Some p) (set_loc px' (Some p) s3))))
   }"

definition heap_up_percolate :: "('n \<Rightarrow> 'k::linorder) \<Rightarrow> 'n \<Rightarrow> 'n \<Rightarrow> 'n heap \<Rightarrow> 'n heap ub" where
  "heap_up_percolate key p parent s =
     (let px = (case h_left s p of None \<Rightarrow> Sentinel | Some l \<Rightarrow> PrevOf l);
          py = (case h_right s p of None \<Rightarrow> Sentinel | Some r \<Rightarrow> PrevOf r);
          s1 = set_loc py (Some parent) s
      in percolate_loop key p px parent (h_prev s1 parent) s1)"

subsection \<open>Pop and remove\<close>

definition heap_pop :: "('n \<Rightarrow> 'k::linorder) \<Rightarrow> 'n heap \<Rightarrow> 'n heap ub" where
  "heap_pop key s =
     (if h_size s \<le> 1 then Some (s\<lparr>h_root := nullptr, h_size := 0\<rparr>)
      else do {
        assert_c (h_root s \<noteq> nullptr);
        (pp, s1) \<leftarrow> remove_least_leaf Root (h_size s) s;
        p \<leftarrow> deref pp;
        top \<leftarrow> deref (h_root s1);
        let s2 = set_right p (h_right s1 top) s1;
        let s3 = set_left p (h_left s2 top) s2;
        let s4 = s3\<lparr>h_root := Some p\<rparr>;
        let s5 = s4\<lparr>h_size := h_size s4 - 1\<rparr>;
        s6 \<leftarrow> heap_down_sink key p Root nullptr s5;
        r \<leftarrow> deref (h_root s6);
        Some (set_prev r nullptr s6)
      })"

definition heap_remove :: "('n \<Rightarrow> 'k::linorder) \<Rightarrow> 'n \<Rightarrow> 'n heap \<Rightarrow> (bool \<times> 'n heap) ub" where
  "heap_remove key node s =
     (if h_prev s node = nullptr \<and> h_root s \<noteq> Some node then Some (False, s)
      else do {
        assert_c (h_root s \<noteq> nullptr);
        assert_c (h_size s \<noteq> 0);
        (pt, s0) \<leftarrow> remove_least_leaf Root (h_size s) s;
        let s1 = s0\<lparr>h_size := h_size s0 - 1\<rparr>;
        p \<leftarrow> deref pt;
        (if p = node then Some (True, set_prev node nullptr s1)
         else do {
           let s2 = set_right p (h_right s1 node) s1;
           let s3 = set_left p (h_left s2 node) s2;
           let parent = h_prev s3 node;
           let pp = (case parent of None \<Rightarrow> Root
                     | Some b \<Rightarrow> if h_right s3 b = Some node then RightOf b else LeftOf b);
           let s4 = set_loc pp (Some p) s3;
           (case parent of
              Some b \<Rightarrow>
                if key p < key b then do {
                  s5 \<leftarrow> heap_up_percolate key p b s4;
                  Some (True, set_prev node nullptr s5)
                } else do {
                  s5 \<leftarrow> heap_down_sink key p pp parent s4;
                  c \<leftarrow> deref (get_loc pp s5);
                  let s6 = set_prev c parent s5;
                  Some (True, set_prev node nullptr s6)
                }
            | None \<Rightarrow> do {
                s5 \<leftarrow> heap_down_sink key p pp parent s4;
                c \<leftarrow> deref (get_loc pp s5);
                let s6 = set_prev c parent s5;
                Some (True, set_prev node nullptr s6)
              })
         })
      })"

section \<open>The tree that the pointers spell\<close>

lemma set_field_simps [simp]:
  "h_prev (set_prev a v s) = (h_prev s)(a := v)" "h_left (set_prev a v s) = h_left s"
  "h_right (set_prev a v s) = h_right s" "h_root (set_prev a v s) = h_root s"
  "h_size (set_prev a v s) = h_size s"
  "h_prev (set_left a v s) = h_prev s" "h_left (set_left a v s) = (h_left s)(a := v)"
  "h_right (set_left a v s) = h_right s" "h_root (set_left a v s) = h_root s"
  "h_size (set_left a v s) = h_size s"
  "h_prev (set_right a v s) = h_prev s" "h_left (set_right a v s) = h_left s"
  "h_right (set_right a v s) = (h_right s)(a := v)" "h_root (set_right a v s) = h_root s"
  "h_size (set_right a v s) = h_size s"
  by (simp_all add: set_prev_def set_left_def set_right_def)

lemma set_loc_size [simp]: "h_size (set_loc pp v s) = h_size s"
  by (cases pp) simp_all

definition up :: "'n heap \<Rightarrow> 'n ptr \<Rightarrow> 'n tree \<Rightarrow> bool" where
  "up s par t = (case t of Leaf \<Rightarrow> True | Node _ b _ \<Rightarrow> h_prev s b = par)"

fun subtree :: "'n heap \<Rightarrow> 'n ptr \<Rightarrow> 'n tree \<Rightarrow> bool" where
  "subtree s p Leaf \<longleftrightarrow> p = nullptr"
| "subtree s p (Node l a r) \<longleftrightarrow> p = Some a
     \<and> subtree s (h_left s a) l \<and> up s (Some a) l \<and> subtree s (h_right s a) r \<and> up s (Some a) r"

definition tree_rep :: "'n heap \<Rightarrow> 'n tree \<Rightarrow> bool" where
  "tree_rep s t \<longleftrightarrow> subtree s (h_root s) t \<and> up s nullptr t"

text \<open>The stores agree on the fields of every node outside \<open>A\<close>, on the root and on the size.\<close>

definition frame :: "'n set \<Rightarrow> 'n heap \<Rightarrow> 'n heap \<Rightarrow> bool" where
  "frame A s s' \<longleftrightarrow> h_root s' = h_root s \<and> h_size s' = h_size s \<and>
     (\<forall>z. z \<notin> A \<longrightarrow> h_prev s' z = h_prev s z \<and> h_left s' z = h_left s z \<and> h_right s' z = h_right s z)"

abbreviation nodup :: "'n tree \<Rightarrow> bool" where
  "nodup t \<equiv> distinct (inorder t)"

lemma up_simps [simp]: "up s par Leaf" "up s par (Node l b r) \<longleftrightarrow> h_prev s b = par"
  by (simp_all add: up_def)

lemma subtree_null [simp]: "subtree s nullptr t \<longleftrightarrow> t = Leaf"
  by (cases t) auto

lemma subtree_Some: "subtree s (Some a) t \<Longrightarrow> \<exists>l r. t = Node l a r"
  by (cases t) auto

lemma frame_refl [simp]: "frame A s s"
  by (simp add: frame_def)

lemma frame_trans: "frame A s s' \<Longrightarrow> frame B s' s'' \<Longrightarrow> A \<subseteq> C \<Longrightarrow> B \<subseteq> C \<Longrightarrow> frame C s s''"
  unfolding frame_def by (metis subsetD)

lemma frame_mono: "frame A s s' \<Longrightarrow> A \<subseteq> C \<Longrightarrow> frame C s s'"
  by (auto simp: frame_def)

lemma subtree_cong:
  "(\<And>z. z \<in> set_tree t \<Longrightarrow> h_left s' z = h_left s z \<and> h_right s' z = h_right s z) \<Longrightarrow>
   (\<And>z. z \<in> set_tree t \<Longrightarrow> p \<noteq> Some z \<Longrightarrow> h_prev s' z = h_prev s z) \<Longrightarrow> nodup t \<Longrightarrow>
   subtree s p t \<Longrightarrow> subtree s' p t"
proof (induction t arbitrary: p)
  case (Node l a r)
  have "up s' (Some a) l" and "up s' (Some a) r"
    using Node.prems by (cases l; cases r; force)+
  moreover have "subtree s' (h_left s a) l"
    using Node.prems by (intro Node.IH(1)) auto
  moreover have "subtree s' (h_right s a) r"
    using Node.prems by (intro Node.IH(2)) auto
  ultimately show ?case using Node.prems by auto
qed simp

lemma up_cong: "(\<And>z. z \<in> set_tree t \<Longrightarrow> h_prev s' z = h_prev s z) \<Longrightarrow> up s par t \<Longrightarrow> up s' par t"
  by (cases t) auto

lemma subtree_frame:
  "frame A s s' \<Longrightarrow> A \<inter> set_tree t = {} \<Longrightarrow> nodup t \<Longrightarrow> subtree s p t \<Longrightarrow> subtree s' p t"
  by (rule subtree_cong [of t s' s p]) (auto simp: frame_def)

lemma up_frame: "frame A s s' \<Longrightarrow> A \<inter> set_tree t = {} \<Longrightarrow> up s par t \<Longrightarrow> up s' par t"
  by (rule up_cong [of t s' s par]) (auto simp: frame_def)

section \<open>Push implements insertion along the path\<close>

lemma push_sink_step:
  assumes "msk \<noteq> 0"
  shows "msk AND k \<noteq> 0 \<Longrightarrow> h_left s a = Some b \<Longrightarrow> a \<noteq> x \<Longrightarrow> push_sink k msk x (Some a) s =
      push_sink k (msk div 2) a (h_right s a) (set_prev b (Some x) (set_left x (Some b) (set_right x (Some a) s)))"
    and "msk AND k = 0 \<Longrightarrow> a \<noteq> x \<Longrightarrow> push_sink k msk x (Some a) s =
      push_sink k (msk div 2) a (h_left s a)
        (case h_right s a of None \<Rightarrow> set_left x (Some a) (set_right x (h_right s a) s)
         | Some b \<Rightarrow> set_prev b (Some x) (set_left x (Some a) (set_right x (h_right s a) s)))"
  using assms by (simp_all add: push_sink.simps [of k msk x "Some a" s] split: option.split)

lemma push_left_store:
  fixes s :: "'n heap"
  defines "s' \<equiv> \<lambda>a x. case h_right s a of None \<Rightarrow> set_left x (Some a) (set_right x (h_right s a) s)
         | Some b \<Rightarrow> set_prev b (Some x) (set_left x (Some a) (set_right x (h_right s a) s))"
  assumes "subtree s p (Node l a r)" "nodup (Node l a r)" "x \<notin> set_tree (Node l a r)"
  shows "frame (insert x (set_tree r)) s (s' a x) \<and> h_prev (s' a x) x = h_prev s x
    \<and> subtree (s' a x) (h_right s a) r \<and> up (s' a x) (Some x) r
    \<and> h_left (s' a x) x = Some a \<and> h_right (s' a x) x = h_right s a"
proof (cases r)
  case Leaf
  with assms show ?thesis by (auto simp: frame_def)
next
  case (Node rl b rr)
  with assms have r: "h_right s a = Some b" by simp
  then have s': "s' a x = set_prev b (Some x) (set_left x (Some a) (set_right x (Some b) s))"
    by (simp add: s'_def)
  from assms(2-4) have sub: "subtree s (h_right s a) r" "nodup r" "x \<notin> set_tree r" by simp_all
  have "subtree (s' a x) (h_right s a) r"
    unfolding s' by (rule subtree_cong [OF _ _ sub(2,1)]) (use sub(3) r in auto)
  moreover have "b \<noteq> x" and "b \<in> set_tree r" using Node assms(4) by auto
  ultimately show ?thesis using Node r unfolding s' by (simp add: frame_def)
qed

lemma push_sink_ok:
  assumes "fits (path_bits k msk) t" "subtree s p t" "nodup t" "x \<notin> set_tree t" "up s (Some x) t"
    and "msk = 0 \<Longrightarrow> h_right s x = nullptr"
  shows "\<exists>y s'. push_sink k msk x p s = Some (y, s') \<and> h_right s' y = nullptr \<and> y \<in> insert x (set_tree t)
     \<and> subtree (set_left y nullptr s') (Some x) (shift_down (path_bits k msk) x t)
     \<and> frame (insert x (set_tree t)) s s' \<and> h_prev s' x = h_prev s x"
  using assms
proof (induction t arbitrary: msk x p s)
  case Leaf
  then have "msk = 0" by (cases "msk = 0") (simp_all add: path_bits_pos)
  with Leaf show ?case by (simp add: push_sink.simps)
next
  case (Node l a r)
  then have m: "msk \<noteq> 0" by (cases "msk = 0") simp_all
  let ?bs = "path_bits k (msk div 2)"
  have bits: "path_bits k msk = (msk AND k \<noteq> 0) # ?bs" using m by (rule path_bits_pos)
  have p: "p = Some a" and ax: "a \<noteq> x" using Node.prems by auto
  show ?case
  proof (cases "msk AND k \<noteq> 0")
    case True
    from Node.prems bits True obtain ll b lr where l: "l = Node ll b lr" by (cases l) auto
    let ?s = "set_prev b (Some x) (set_left x (Some b) (set_right x (Some a) s))"
    have la: "h_left s a = Some b" using Node.prems l by auto
    have fr: "frame {x, b} s ?s" by (auto simp: frame_def)
    have "subtree ?s (h_right s a) r" and "up ?s (Some a) r"
      using Node.prems l by (auto intro!: subtree_frame [OF fr] up_frame [OF fr])
    moreover have "msk div 2 = 0 \<Longrightarrow> h_right ?s a = nullptr"
      using Node.prems bits True ax by (cases r) auto
    ultimately obtain y s' where IH: "push_sink k (msk div 2) a (h_right s a) ?s = Some (y, s')"
      "h_right s' y = nullptr" "y \<in> insert a (set_tree r)"
      "subtree (set_left y nullptr s') (Some a) (shift_down ?bs a r)"
      "frame (insert a (set_tree r)) ?s s'" "h_prev s' a = h_prev ?s a"
      using Node.IH(2) [of "msk div 2" ?s "h_right s a" a] Node.prems bits True by auto
    let ?f = "set_left y nullptr s'"
    have fr2: "frame (insert a (set_tree r)) ?s ?f" using IH(3,5) by (auto simp: frame_def)
    have "subtree ?s (h_left s a) l"
      using Node.prems l by (intro subtree_cong [of l ?s s]) auto
    then have "subtree ?f (h_left s a) l"
      using Node.prems by (intro subtree_frame [OF fr2]) auto
    moreover have "up ?f (Some x) l"
      using Node.prems l IH(5) by (auto simp: frame_def)
    moreover have "up ?f (Some x) (shift_down ?bs a r)"
      using Node.prems l IH(6) subtree_Some [OF IH(4)] IH(4) by auto
    ultimately show ?thesis
      using IH Node.prems la ax l push_sink_step(1) [OF m True la ax] bits True p
      by (auto simp: frame_def)
  next
    case False
    let ?s = "case h_right s a of None \<Rightarrow> set_left x (Some a) (set_right x (h_right s a) s)
         | Some b \<Rightarrow> set_prev b (Some x) (set_left x (Some a) (set_right x (h_right s a) s))"
    have fr: "frame (insert x (set_tree r)) s ?s" and px: "h_prev ?s x = h_prev s x"
      and r: "subtree ?s (h_right s a) r" "up ?s (Some x) r" and xs: "h_left ?s x = Some a" "h_right ?s x = h_right s a"
      using push_left_store [OF Node.prems(2,3,4)] by simp_all
    have "subtree ?s (h_left s a) l" and "up ?s (Some a) l"
      using Node.prems by (auto intro!: subtree_frame [OF fr] up_frame [OF fr])
    moreover have "h_right ?s a = h_right s a" "h_prev ?s a = h_prev s a"
      using fr ax Node.prems by (auto simp: frame_def)
    moreover have "msk div 2 = 0 \<Longrightarrow> h_right s a = nullptr"
      using Node.prems bits False by (cases l) auto
    ultimately obtain y s' where IH: "push_sink k (msk div 2) a (h_left s a) ?s = Some (y, s')"
      "h_right s' y = nullptr" "y \<in> insert a (set_tree l)"
      "subtree (set_left y nullptr s') (Some a) (shift_down ?bs a l)"
      "frame (insert a (set_tree l)) ?s s'" "h_prev s' a = h_prev s a"
      using Node.IH(1) [of "msk div 2" ?s "h_left s a" a] Node.prems bits False by auto
    let ?f = "set_left y nullptr s'"
    have fr2: "frame (insert a (set_tree l)) ?s ?f" using IH(3,5) by (auto simp: frame_def)
    have "subtree ?f (h_right s a) r" and "up ?f (Some x) r"
      using Node.prems r by (auto intro!: subtree_frame [OF fr2] up_frame [OF fr2])
    moreover have "up ?f (Some x) (shift_down ?bs a l)"
      using Node.prems IH(6) subtree_Some [OF IH(4)] IH(4) by auto
    moreover have "h_left ?f x = Some a" "h_right ?f x = h_right s a" "h_prev s' x = h_prev s x"
      using IH(3,5) xs px ax Node.prems by (auto simp: frame_def)
    moreover have "frame (insert x (insert a (set_tree l \<union> set_tree r))) s s'"
      by (rule frame_trans [OF fr IH(5)]) auto
    ultimately show ?thesis
      using IH p bits False push_sink_step(2) [OF m _ ax, of k s] by auto
  qed
qed

text \<open>A location outside the nodes of a subtree.\<close>

fun loc_out :: "'n loc \<Rightarrow> 'n set \<Rightarrow> bool" where
  "loc_out Root A = True"
| "loc_out (LeftOf a) A = (a \<notin> A)"
| "loc_out (RightOf a) A = (a \<notin> A)"
| "loc_out pp A = False"

lemma set_loc_out:
  assumes "loc_out pp A"
  shows "get_loc pp (set_loc pp v s) = v" "h_prev (set_loc pp v s) = h_prev s"
    "z \<in> A \<Longrightarrow> h_left (set_loc pp v s) z = h_left s z"
    "z \<in> A \<Longrightarrow> h_right (set_loc pp v s) z = h_right s z"
  using assms by (cases pp; auto)+

lemma set_loc_same: "loc_out pp A \<Longrightarrow> set_loc pp (get_loc pp s) s = s"
  by (cases pp) (simp_all add: set_left_def set_right_def)

lemma set_loc_subtree: "loc_out pp A \<Longrightarrow> set_tree t \<subseteq> A \<Longrightarrow> nodup t \<Longrightarrow>
    subtree s p t \<Longrightarrow> subtree (set_loc pp v s) p t"
  by (rule subtree_cong [of t "set_loc pp v s" s p]) (auto simp: set_loc_out)

lemma set_loc_up [simp]: "loc_out pp A \<Longrightarrow> up (set_loc pp v s) par t = up s par t"
  by (cases t) (simp_all add: set_loc_out)

lemma frame_get_loc: "frame A s s' \<Longrightarrow> loc_out pp A \<Longrightarrow> get_loc pp s' = get_loc pp s"
  by (cases pp) (auto simp: frame_def)

lemma get_loc_update [simp]:
  "loc_out pp A \<Longrightarrow> get_loc pp (set_prev a v s) = get_loc pp s"
  "loc_out pp A \<Longrightarrow> a \<in> A \<Longrightarrow> get_loc pp (set_left a v s) = get_loc pp s"
  "loc_out pp A \<Longrightarrow> a \<in> A \<Longrightarrow> get_loc pp (set_right a v s) = get_loc pp s"
  by (cases pp; auto)+

lemma push_loop_ok:
  assumes "fits (path_bits k msk) t" "subtree s p t" "nodup t" "x \<notin> set_tree t" "up s q t"
    and "p = get_loc pp s" "loc_out pp (insert x (set_tree t))"
  shows "\<exists>s'. push_loop key k msk x pp p q s = Some s'
     \<and> subtree s' (get_loc pp s') (ins_path key (path_bits k msk) x t)
     \<and> up s' q (ins_path key (path_bits k msk) x t)
     \<and> frame (insert x (set_tree t)) (set_loc pp (get_loc pp s') s) s'"
  using assms
proof (induction t arbitrary: msk p q pp)
  case Leaf
  then have "msk = 0" by (cases "msk = 0") (simp_all add: path_bits_pos)
  let ?s = "set_left x nullptr (set_right x nullptr (set_prev x q (set_loc pp (Some x) s)))"
  have "get_loc pp ?s = Some x" using Leaf.prems(7) set_loc_out(1) [OF Leaf.prems(7)] by simp
  moreover have "push_loop key k msk x pp p q s = Some ?s"
    using \<open>msk = 0\<close> by (simp add: push_loop.simps)
  ultimately show ?case using \<open>msk = 0\<close> by (auto simp: frame_def)
next
  case (Node l a r)
  then have m: "msk \<noteq> 0" by (cases "msk = 0") simp_all
  let ?bs = "path_bits k (msk div 2)"
  let ?b = "msk AND k \<noteq> 0"
  have bits: "path_bits k msk = ?b # ?bs" using m by (rule path_bits_pos)
  have p: "p = Some a" and ax: "a \<noteq> x" using Node.prems by auto
  show ?case
  proof (cases "key x < key a")
    case True
    let ?t = "Node l a r"
    let ?s1 = "set_prev a (Some x) (set_prev x q s)"
    let ?s = "set_loc pp (Some x) ?s1"
    have "subtree ?s1 p ?t" using Node.prems ax by (intro subtree_cong [of ?t ?s1 s p]) auto
    then have "subtree ?s p ?t" using Node.prems by (intro set_loc_subtree) auto
    moreover have "up ?s (Some x) ?t" using Node.prems set_loc_up [OF Node.prems(7)] by (simp del: up_simps) simp
    ultimately obtain y s' where S: "push_sink k msk x p ?s = Some (y, s')" "h_right s' y = nullptr"
      "y \<in> insert x (set_tree ?t)" "subtree (set_left y nullptr s') (Some x) (shift_down (?b # ?bs) x ?t)"
      "frame (insert x (set_tree ?t)) ?s s'" "h_prev s' x = h_prev ?s x"
      using push_sink_ok [of k msk ?t ?s p x] Node.prems m bits by auto
    have g: "get_loc pp s' = Some x"
      using frame_get_loc [OF S(5) Node.prems(7)] set_loc_out(1) [OF Node.prems(7)] by simp
    let ?f = "set_left y nullptr s'"
    have f: "get_loc pp ?f = Some x" using g S(3) Node.prems(7) by auto
    have "push_loop key k msk x pp p q s = Some ?f"
      using m p True S(1,2) by (simp add: push_loop.simps [of key k msk x pp])
    moreover have "up ?f q (shift_down (?b # ?bs) x ?t)"
      using S(6) set_loc_out(2) [OF Node.prems(7)] ax by simp
    moreover have "frame (insert x (set_tree ?t)) (set_loc pp (Some x) s) ?f"
    proof -
      have "frame {a, x} (set_loc pp (Some x) s) ?s"
        by (cases pp) (use Node.prems(7) in \<open>auto simp: frame_def\<close>)
      moreover have "frame (insert x (set_tree ?t)) ?s ?f" using S(3,5) by (auto simp: frame_def)
      ultimately show ?thesis by (rule frame_trans) auto
    qed
    ultimately show ?thesis using S(4) f True bits by auto
  next
    case False
    let ?pp = "if ?b then RightOf a else LeftOf a"
    let ?t = "if ?b then r else l"
    have "fits ?bs ?t" "subtree s (get_loc ?pp s) ?t" "nodup ?t" "x \<notin> set_tree ?t" "up s p ?t"
      "loc_out ?pp (insert x (set_tree ?t))"
      using Node.prems bits ax by auto
    note f = this
    have "\<exists>s'. push_loop key k (msk div 2) x ?pp (get_loc ?pp s) p s = Some s'
      \<and> subtree s' (get_loc ?pp s') (ins_path key ?bs x ?t) \<and> up s' p (ins_path key ?bs x ?t)
      \<and> frame (insert x (set_tree ?t)) (set_loc ?pp (get_loc ?pp s') s) s'"
    proof (cases ?b)
      case True
      then show ?thesis using Node.IH(2) [OF _ _ _ _ _ refl, of "msk div 2" "RightOf a" p] f by simp
    next
      case False
      then show ?thesis using Node.IH(1) [OF _ _ _ _ _ refl, of "msk div 2" "LeftOf a" p] f by simp
    qed
    then obtain s' where IH: "push_loop key k (msk div 2) x ?pp (get_loc ?pp s) p s = Some s'"
      "subtree s' (get_loc ?pp s') (ins_path key ?bs x ?t)" "up s' p (ins_path key ?bs x ?t)"
      "frame (insert x (set_tree ?t)) (set_loc ?pp (get_loc ?pp s') s) s'" by blast
    have fr: "frame (insert x (set_tree (Node l a r))) s s'"
      using IH(4) by (cases ?b) (auto simp: frame_def)
    have g: "get_loc pp s' = p" using frame_get_loc [OF fr Node.prems(7)] Node.prems(6) by simp
    have "set_loc pp p s = s" using set_loc_same [OF Node.prems(7), of s] Node.prems(6) by simp
    moreover have "h_prev s' a = h_prev s a" using IH(4) Node.prems by (cases ?b) (auto simp: frame_def)
    moreover have "subtree s' (if ?b then h_left s' a else h_right s' a) (if ?b then l else r)"
      "up s' p (if ?b then l else r)"
    proof -
      let ?A = "insert a (insert x (set_tree ?t))" and ?o = "if ?b then l else r"
      have A: "frame ?A s s'" using IH(4) by (cases ?b) (auto simp: frame_def)
      have "?A \<inter> set_tree ?o = {}" "nodup ?o" "up s p ?o"
        "subtree s (if ?b then h_left s a else h_right s a) ?o"
        using Node.prems(2-5) ax p by (cases ?b; auto)+
      moreover have "(if ?b then h_left s' a else h_right s' a) = (if ?b then h_left s a else h_right s a)"
        using IH(4) Node.prems(3,4) by (cases ?b) (auto simp: frame_def)
      ultimately show "subtree s' (if ?b then h_left s' a else h_right s' a) ?o" "up s' p ?o"
        using subtree_frame [OF A] up_frame [OF A] by simp_all
    qed
    moreover have "push_loop key k msk x pp p q s = Some s'"
      using m p False IH(1) by (simp add: push_loop.simps [of key k msk x pp])
    ultimately show ?thesis
      using IH g fr False bits p Node.prems by (cases ?b) auto
  qed
qed

section \<open>Well-formed heaps\<close>

text \<open>
  The pointers spell a heap-ordered complete tree of distinct nodes, as many as \<open>__size_\<close> says,
  and a node that is not in the heap has a null \<open>_Prev\<close>: this is how \<open>_M_remove\<close> tells.
\<close>

definition heap_wf :: "('n \<Rightarrow> 'k::linorder) \<Rightarrow> 'n heap \<Rightarrow> 'n tree \<Rightarrow> bool" where
  "heap_wf key s t \<longleftrightarrow> tree_rep s t \<and> nodup t \<and> heap_ord key t \<and> complete_from 1 (h_size s) t
     \<and> (\<forall>x. x \<notin> set_tree t \<longrightarrow> h_prev s x = nullptr)"

lemma nodup_mset: "mset_tree t = mset_tree t' \<Longrightarrow> nodup t \<longleftrightarrow> nodup t'"
  by (metis mset_eq_imp_distinct_iff mset_inorder)

lemma nodup_add: "mset_tree t' = add_mset x (mset_tree t) \<Longrightarrow> nodup t' \<longleftrightarrow> nodup t \<and> x \<notin> set_tree t"
proof -
  assume "mset_tree t' = add_mset x (mset_tree t)"
  then have "mset (inorder t') = mset (x # inorder t)" by simp
  then have "nodup t' \<longleftrightarrow> distinct (x # inorder t)" by (rule mset_eq_imp_distinct_iff)
  then show ?thesis by auto
qed

lemma heap_wf_new [simp]: "heap_wf key heap_new Leaf"
  by (simp add: heap_wf_def heap_new_def tree_rep_def)

lemma heap_push_ok:
  assumes wf: "heap_wf key s t" and x: "x \<notin> set_tree t"
  shows "\<exists>s'. heap_push key x s = Some s' \<and> h_size s' = Suc (h_size s)
    \<and> heap_wf key s' (ins_path key (dirs (Suc (h_size s))) x t)"
proof -
  let ?k = "Suc (h_size s)" and ?s = "s\<lparr>h_size := h_size s + 1\<rparr>"
  let ?t = "ins_path key (dirs ?k) x t"
  have c: "complete_from 1 (h_size s) t" and sub: "subtree s (h_root s) t" "up s nullptr t"
    and nd: "nodup t" and ho: "heap_ord key t" using wf by (simp_all add: heap_wf_def tree_rep_def)
  have p: "pos (dirs ?k) 1 = ?k" by (rule pos_dirs) simp
  have f: "fits (dirs ?k) t" by (rule complete_fits [OF c p]) simp
  have sub': "subtree ?s (h_root s) t" by (rule subtree_cong [OF _ _ nd sub(1)]) simp_all
  have up': "up ?s nullptr t" using sub(2) by (cases t) auto
  have "loc_out Root (insert x (set_tree t))" and "h_root s = get_loc Root ?s" by simp_all
  from push_loop_ok [OF f sub' nd x up' this(2,1), of key]
  obtain s' where s': "push_loop key ?k (path_bit_mask ?k) x Root (h_root s) nullptr ?s = Some s'"
    "subtree s' (get_loc Root s') ?t" "up s' nullptr ?t"
    "frame (insert x (set_tree t)) (set_loc Root (get_loc Root s') ?s) s'"
    by blast
  have set: "set_tree ?t = insert x (set_tree t)" by (rule set_ins_path [OF f])
  moreover have "nodup ?t" using nodup_add [OF mset_ins_path [OF f], of key x] nd x by blast
  moreover have "heap_ord key ?t" using f ho by (rule heap_ins_path)
  moreover have "complete_from 1 ?k ?t" by (rule complete_ins_path [OF c p]) simp
  moreover have "\<forall>z. z \<notin> set_tree ?t \<longrightarrow> h_prev s' z = nullptr"
    using s'(4) wf set by (auto simp: heap_wf_def frame_def)
  moreover have "h_size s' = ?k" using s'(4) by (simp add: frame_def)
  moreover have "heap_push key x s = Some s'" using s'(1) by (simp add: heap_push_def)
  ultimately show ?thesis using s'(2,3) by (auto simp: heap_wf_def tree_rep_def)
qed

section \<open>Removing the last leaf\<close>

lemma up_del_path: "ends bs t \<Longrightarrow> del_path bs t = (x, t') \<Longrightarrow> up s q t \<Longrightarrow> up s q t'"
  using del_path_root [of bs t x t'] by (cases t; cases t') auto

lemma leaf_loop_ok:
  assumes "ends (path_bits k msk) t" "subtree s p t" "nodup t" "p = get_loc pp s" "loc_out pp (set_tree t)"
    and "del_path (path_bits k msk) t = (x, t')"
  shows "\<exists>L. leaf_loop k msk pp p s = Some (L, Some x)
     \<and> subtree (set_loc L nullptr s) (get_loc pp (set_loc L nullptr s)) t'
     \<and> frame (set_tree t) (set_loc pp (get_loc pp (set_loc L nullptr s)) s) (set_loc L nullptr s)
     \<and> h_prev (set_loc L nullptr s) = h_prev s"
  using assms
proof (induction t arbitrary: msk p pp t')
  case Leaf
  then show ?case by simp
next
  case (Node l a r)
  have p: "p = Some a" using Node.prems by simp
  show ?case
  proof (cases "msk = 0")
    case True
    with Node.prems show ?thesis
      using set_loc_out(1,2) [OF Node.prems(5)]
      by (auto simp: leaf_loop.simps [of k 0] frame_def)
  next
    case False
    let ?bs = "path_bits k (msk div 2)"
    let ?b = "msk AND k \<noteq> 0"
    have bits: "path_bits k msk = ?b # ?bs" using False by (rule path_bits_pos)
    let ?pp = "if ?b then RightOf a else LeftOf a"
    let ?t = "if ?b then r else l"
    obtain u where u: "del_path ?bs ?t = (x, u)" "t' = (if ?b then Node l a u else Node u a r)"
      using Node.prems(6) bits by (auto split: prod.splits if_splits)
    have f: "ends ?bs ?t" "subtree s (get_loc ?pp s) ?t" "nodup ?t" "loc_out ?pp (set_tree ?t)"
      using Node.prems(1-5) bits by auto
    have "\<exists>L. leaf_loop k (msk div 2) ?pp (get_loc ?pp s) s = Some (L, Some x)
     \<and> subtree (set_loc L nullptr s) (get_loc ?pp (set_loc L nullptr s)) u
     \<and> frame (set_tree ?t) (set_loc ?pp (get_loc ?pp (set_loc L nullptr s)) s) (set_loc L nullptr s)
     \<and> h_prev (set_loc L nullptr s) = h_prev s"
    proof (cases ?b)
      case True
      then show ?thesis using Node.IH(2) [OF _ _ _ refl, of "msk div 2" "RightOf a" u] f u by simp
    next
      case False
      then show ?thesis using Node.IH(1) [OF _ _ _ refl, of "msk div 2" "LeftOf a" u] f u by simp
    qed
    then obtain L where IH: "leaf_loop k (msk div 2) ?pp (get_loc ?pp s) s = Some (L, Some x)"
      "subtree (set_loc L nullptr s) (get_loc ?pp (set_loc L nullptr s)) u"
      "frame (set_tree ?t) (set_loc ?pp (get_loc ?pp (set_loc L nullptr s)) s) (set_loc L nullptr s)"
      "h_prev (set_loc L nullptr s) = h_prev s" by blast
    let ?s = "set_loc L nullptr s" and ?o = "if ?b then l else r"
    have A: "frame (insert a (set_tree ?t)) s ?s" using IH(3) by (cases ?b) (auto simp: frame_def)
    have "insert a (set_tree ?t) \<inter> set_tree ?o = {}" "nodup ?o"
        "subtree s (if ?b then h_left s a else h_right s a) ?o"
      using Node.prems(2,3) p by (cases ?b; auto)+
    then have o: "subtree ?s (if ?b then h_left s a else h_right s a) ?o"
      using subtree_frame [OF A] by simp
    have ch: "(if ?b then h_left ?s a else h_right ?s a) = (if ?b then h_left s a else h_right s a)"
      using IH(3) Node.prems(3) by (cases ?b) (auto simp: frame_def)
    have up: "up ?s q v = up s q v" for q v using IH(4) by (cases v) auto
    have ups: "up s (Some a) l" "up s (Some a) r" using Node.prems(2) by simp_all
    then have "up s (Some a) u" using up_del_path [OF f(1) u(1)] by (cases ?b) auto
    then have "subtree ?s p t'"
      using u(2) o ch IH(2) up ups p by (cases ?b) auto
    moreover have fr: "frame (set_tree (Node l a r)) s ?s" by (rule frame_mono [OF A]) auto
    moreover have "get_loc pp ?s = p" using frame_get_loc [OF fr Node.prems(5)] Node.prems(4) by simp
    moreover have "set_loc pp p s = s" using set_loc_same [OF Node.prems(5), of s] Node.prems(4) by simp
    moreover have "leaf_loop k msk pp p s = Some (L, Some x)"
      using False p IH(1) by (simp add: leaf_loop.simps [of k msk])
    ultimately show ?thesis using IH(4) by auto
  qed
qed

lemma remove_least_leaf_ok:
  assumes "tree_rep s t" "nodup t" "complete_from 1 (Suc n) t"
    and "del_path (dirs (Suc n)) t = (x, t')"
  shows "\<exists>s'. remove_least_leaf Root (Suc n) s = Some (Some x, s') \<and> tree_rep s' t'
    \<and> h_prev s' = h_prev s \<and> h_size s' = h_size s"
proof -
  have e: "ends (dirs (Suc n)) t"
    using complete_ends [OF assms(3)] pos_dirs [of "Suc n"] by simp
  have "subtree s (h_root s) t" "h_root s = get_loc Root s" "loc_out Root (set_tree t)"
    using assms(1) by (simp_all add: tree_rep_def)
  from leaf_loop_ok [OF e this(1) assms(2) this(2,3) assms(4)]
  obtain L where L: "leaf_loop (Suc n) (path_bit_mask (Suc n)) Root (h_root s) s = Some (L, Some x)"
    "subtree (set_loc L nullptr s) (get_loc Root (set_loc L nullptr s)) t'"
    "h_prev (set_loc L nullptr s) = h_prev s"
    by blast
  have "up s nullptr t'" using up_del_path [OF e assms(4)] assms(1) by (simp add: tree_rep_def)
  then have "up (set_loc L nullptr s) nullptr t'" using L(3) by (cases t') auto
  with L show ?thesis by (auto simp: remove_least_leaf_def tree_rep_def)
qed

section \<open>Sinking\<close>

lemma swap_right_simps [simp]:
  assumes "a \<noteq> b"
  shows "h_left (swap_with_right_child a b s) = (h_left s)(a := h_left s b, b := h_left s a)"
    "h_right (swap_with_right_child a b s) = (h_right s)(a := h_right s b, b := Some a)"
    "h_prev (swap_with_right_child a b s) = h_prev s" "h_root (swap_with_right_child a b s) = h_root s"
    "h_size (swap_with_right_child a b s) = h_size s"
  using assms by (simp_all add: swap_with_right_child_def Let_def fun_upd_twist)

lemma swap_left_simps [simp]:
  assumes "a \<noteq> b"
  shows "h_left (swap_with_left_child a b s) = (h_left s)(a := h_left s b, b := Some a)"
    "h_right (swap_with_left_child a b s) = (h_right s)(a := h_right s b, b := h_right s a)"
    "h_prev (swap_with_left_child a b s) = h_prev s" "h_root (swap_with_left_child a b s) = h_root s"
    "h_size (swap_with_left_child a b s) = h_size s"
  using assms by (simp_all add: swap_with_left_child_def Let_def fun_upd_twist)

text \<open>
  The loop on a node \<open>p\<close> whose children have stale \<open>_Prev\<close> pointers. The root of the result is \<open>p\<close>
  itself, or a former child whose \<open>_Prev\<close> the loop leaves for the caller to write.
\<close>

fun slot :: "bool \<Rightarrow> 'n \<Rightarrow> 'n loc" where
  "slot True c = RightOf c"
| "slot False c = LeftOf c"

lemma sink_glue:
  assumes "loc_out pp (insert c B)" "get_loc pp s = Some c" "c \<notin> B"
    and "set_tree u \<inter> insert c B = {}" "nodup u"
    and "subtree s (get_loc (slot (\<not> d) c) s) u" "up s (Some c) u"
    and "frame B (set_loc (slot d c) v s) s'" "subtree s' (get_loc (slot d c) s') t" "up s' (Some c) t"
  shows "get_loc pp s' = Some c \<and> h_prev s' c = h_prev s c \<and> frame (insert c B) s s'
    \<and> subtree s' (Some c) (if d then Node u c t else Node t c u)"
proof -
  have fr: "frame (insert c B) s s'" using assms(8) by (cases d) (auto simp: frame_def)
  then have "subtree s' (get_loc (slot (\<not> d) c) s) u" "up s' (Some c) u" "get_loc pp s' = Some c"
    using subtree_frame [OF fr, of u] up_frame [OF fr, of u] frame_get_loc [OF fr assms(1)] assms(2,4-7)
    by auto
  moreover have "get_loc (slot (\<not> d) c) s' = get_loc (slot (\<not> d) c) s" "h_prev s' c = h_prev s c"
    using assms(3,8) by (cases d; auto simp: frame_def)+
  ultimately show ?thesis using fr assms(9,10) by (cases d) auto
qed

lemma sink_root:
  "\<exists>u x v. sink key p l r = Node u x v
     \<and> (x = p \<or> (\<exists>y z. l = Node y x z) \<or> (\<exists>y z. r = Node y x z))"
  by (cases "(key, p, l, r)" rule: sink.cases) auto

text \<open>After the recursive call the root of the sunken subtree points to its new parent.\<close>

lemma sink_up:
  assumes "subtree s' q (sink key p l r)" "up s (Some c) l" "up s (Some c) r" "q = Some p \<Longrightarrow> h_prev s' p = Some c"
    and "\<And>x. q = Some x \<Longrightarrow> x \<noteq> p \<Longrightarrow> h_prev s' x = h_prev s x"
  shows "up s' (Some c) (sink key p l r)"
proof -
  obtain u x v where x: "sink key p l r = Node u x v"
    "x = p \<or> (\<exists>y z. l = Node y x z) \<or> (\<exists>y z. r = Node y x z)"
    using sink_root [of key p l r] by blast
  then have q: "q = Some x" using assms(1) by simp
  show ?thesis
  proof (cases "x = p")
    case True
    with x q assms(4) show ?thesis by simp
  next
    case False
    with x q assms(2,3) assms(5) [of x] show ?thesis by auto
  qed
qed

definition sunk :: "('n \<Rightarrow> 'k::linorder) \<Rightarrow> 'n \<Rightarrow> 'n loc \<Rightarrow> 'n ptr \<Rightarrow> 'n heap \<Rightarrow> 'n tree \<Rightarrow> 'n set \<Rightarrow> bool" where
  "sunk key p pp parent s t A \<longleftrightarrow> (\<exists>s'. heap_down_sink key p pp parent s = Some s'
    \<and> subtree s' (get_loc pp s') t \<and> frame A (set_loc pp (get_loc pp s') s) s'
    \<and> (\<forall>x. get_loc pp s' = Some x \<longrightarrow> h_prev s' x = (if x = p then parent else h_prev s x)))"

text \<open>
  One round of the loop moves the child \<open>c\<close> in direction \<open>d\<close> up and \<open>p\<close> into its place; \<open>u\<close> is the
  other subtree of \<open>p\<close>, \<open>s3\<close> the store after the round.
\<close>

lemma sink_round:
  fixes d :: bool and c p :: 'n and cl cr :: "'n tree"
  defines "B \<equiv> insert p (set_tree cl \<union> set_tree cr)"
  assumes run: "heap_down_sink key p pp parent s = heap_down_sink key p (slot d c) (Some c) s3"
    and IH: "subtree s3 (h_left s3 p) cl \<Longrightarrow> subtree s3 (h_right s3 p) cr \<Longrightarrow> get_loc (slot d c) s3 = Some p
      \<Longrightarrow> sunk key p (slot d c) (Some c) s3 (sink key p cl cr) B"
    and c: "subtree s (Some c) (Node cl c cr)" and u: "subtree s (get_loc (slot (\<not> d) p) s) u"
    and nd: "nodup (Node u p (Node cl c cr))" and out: "loc_out pp (set_tree (Node u p (Node cl c cr)))"
    and s3: "get_loc pp s3 = Some c" "h_left s3 p = h_left s c" "h_right s3 p = h_right s c"
      "get_loc (slot d c) s3 = Some p" "get_loc (slot (\<not> d) c) s3 = get_loc (slot (\<not> d) p) s"
      "h_prev s3 = (case u of Leaf \<Rightarrow> h_prev s | Node _ b _ \<Rightarrow> (h_prev s)(b := Some c))"
      "\<And>z. z \<in> set_tree u \<union> set_tree cl \<union> set_tree cr \<Longrightarrow> h_left s3 z = h_left s z \<and> h_right s3 z = h_right s z"
      "frame (set_tree (Node u p (Node cl c cr))) (set_loc pp (Some c) s) s3"
  shows "sunk key p pp parent s (if d then Node u c (sink key p cl cr) else Node (sink key p cl cr) c u)
    (set_tree (Node u p (Node cl c cr)))"
proof -
  have pc: "p \<noteq> c" using nd by auto
  have prev: "h_prev s3 z = h_prev s z" if "z \<notin> set_tree u" for z
    using that s3(6) by (cases u) auto
  have sub: "subtree s3 (h_left s3 p) cl" "subtree s3 (h_right s3 p) cr"
    unfolding s3(2,3) using c nd prev s3(7) by (auto intro!: subtree_cong [of _ s3 s])
  have ups: "up s3 (Some c) cl" "up s3 (Some c) cr"
    using c nd prev by (auto intro!: up_cong [of _ s3 s])
  have "subtree s3 (get_loc (slot (\<not> d) c) s3) u"
    unfolding s3(5) using u nd s3(6,7) by (intro subtree_cong [of u s3 s]) (cases u; auto)+
  moreover have "up s3 (Some c) u" using s3(6) by (cases u) auto
  moreover obtain s' where s': "heap_down_sink key p (slot d c) (Some c) s3 = Some s'"
    "subtree s' (get_loc (slot d c) s') (sink key p cl cr)"
    "frame B (set_loc (slot d c) (get_loc (slot d c) s') s3) s'"
    "\<And>x. get_loc (slot d c) s' = Some x \<Longrightarrow> h_prev s' x = (if x = p then Some c else h_prev s3 x)"
    using IH [OF sub s3(4)] unfolding sunk_def by blast
  moreover have "up s' (Some c) (sink key p cl cr)"
    by (rule sink_up [OF s'(2) ups]) (use s'(4) in auto)
  moreover have "loc_out pp (insert c B)" "c \<notin> B" "set_tree u \<inter> insert c B = {}" "nodup u"
    using out nd unfolding B_def by (cases pp; auto)+
  ultimately have G: "get_loc pp s' = Some c \<and> h_prev s' c = h_prev s3 c \<and> frame (insert c B) s3 s'
      \<and> subtree s' (Some c) (if d then Node u c (sink key p cl cr) else Node (sink key p cl cr) c u)"
    using s3(1) by (intro sink_glue) auto
  moreover have "h_prev s3 c = h_prev s c" using nd by (intro prev) auto
  moreover have "frame (set_tree (Node u p (Node cl c cr))) (set_loc pp (Some c) s) s'"
    by (rule frame_trans [OF s3(8), of "insert c B"]) (use G in \<open>auto simp: B_def\<close>)
  ultimately show ?thesis using run s'(1) pc unfolding sunk_def by auto
qed

lemma down_sink_ok:
  assumes "subtree s (h_left s p) l" "subtree s (h_right s p) r"
    and "nodup (Node l p r)" "loc_out pp (set_tree (Node l p r))" "get_loc pp s = Some p"
    and "complete_from i n (Node l b r)"
  shows "sunk key p pp parent s (sink key p l r) (set_tree (Node l p r))"
  using assms
proof (induction key p l r arbitrary: s pp parent i b rule: sink.induct)
  case (3 key a r)
  then have "r = Leaf" by (auto simp: complete_from_Leaf_iff)
  with 3 have "h_left s a = nullptr" "h_right s a = nullptr" by simp_all
  moreover have "set_loc pp (Some a) s = s" using set_loc_same [OF 3(4), of s] 3(5) by simp
  ultimately show ?case using 3 \<open>r = Leaf\<close>
    by (auto simp: heap_down_sink.simps [of key a] frame_def sunk_def)
next
  case (1 key p ll la lr rl ra rr)
  let ?l = "Node ll la lr" and ?r = "Node rl ra rr"
  let ?A = "set_tree (Node ?l p ?r)"
  have lp: "h_left s p = Some la" and rp: "h_right s p = Some ra" using 1(3,4) by auto
  have nd: "p \<noteq> ra" "p \<noteq> la" "la \<noteq> ra" using 1(5) by auto
  have sl: "subtree s (Some la) ?l" and sr: "subtree s (Some ra) ?r" using 1(3,4) lp rp by simp_all
  have cl: "complete_from (2 * i) n ?l" and cr: "complete_from (Suc (2 * i)) n ?r" using 1(8) by simp_all
  have nl: "nodup (Node ll p lr)" and nr: "nodup (Node rl p rr)" using 1(5) by auto
  have o1: "loc_out (RightOf ra) (set_tree (Node rl p rr))"
    and o2: "loc_out (LeftOf la) (set_tree (Node ll p lr))" using 1(5) by auto
  consider (right) "key ra < key la" "key ra < key p" | (left) "\<not> key ra < key la" "key la < key p"
    | (stay) "\<not> (if key ra < key la then key ra < key p else key la < key p)" by argo
  then show ?case
  proof cases
    case right
    let ?s = "set_loc pp (Some ra) (set_prev la (Some ra) (swap_with_right_child p ra s))"
    have run: "heap_down_sink key p pp parent s = heap_down_sink key p (slot True ra) (Some ra) ?s"
      using right lp rp by (simp add: heap_down_sink.simps [of key p pp])
    have "sunk key p pp parent s (if True then Node ?l ra (sink key p rl rr) else Node (sink key p rl rr) ra ?l)
        (set_tree (Node ?l p ?r))"
    proof (rule sink_round [OF run _ sr])
      show "sunk key p (slot True ra) (Some ra) ?s (sink key p rl rr) (insert p (set_tree rl \<union> set_tree rr))"
        if "subtree ?s (h_left ?s p) rl" "subtree ?s (h_right ?s p) rr" "get_loc (slot True ra) ?s = Some p"
        using 1(1) [OF right that(1,2) nr o1 that(3) [unfolded slot.simps] cr, of "Some ra"] by simp
      show "frame ?A (set_loc pp (Some ra) s) ?s"
        using 1(6) nd by (cases pp) (auto simp: frame_def)
    qed (use 1(5,6) sl lp rp nd set_loc_out [OF 1(6)] in auto)
    with right show ?thesis by simp
  next
    case left
    let ?s = "set_loc pp (Some la) (set_prev ra (Some la) (swap_with_left_child p la s))"
    have run: "heap_down_sink key p pp parent s = heap_down_sink key p (slot False la) (Some la) ?s"
      using left lp rp by (simp add: heap_down_sink.simps [of key p pp])
    have A: "?A = set_tree (Node ?r p ?l)" by auto
    have "sunk key p pp parent s (if False then Node ?r la (sink key p ll lr) else Node (sink key p ll lr) la ?r)
        (set_tree (Node ?r p ?l))"
    proof (rule sink_round [OF run _ sl])
      show "sunk key p (slot False la) (Some la) ?s (sink key p ll lr) (insert p (set_tree ll \<union> set_tree lr))"
        if "subtree ?s (h_left ?s p) ll" "subtree ?s (h_right ?s p) lr" "get_loc (slot False la) ?s = Some p"
        using 1(2) [OF left that(1,2) nl o2 that(3) [unfolded slot.simps] cl, of "Some la"] by simp
      show "frame (set_tree (Node ?r p ?l)) (set_loc pp (Some la) s) ?s"
        using 1(6) nd by (cases pp) (auto simp: frame_def)
    qed (use 1(5,6) sr lp rp nd set_loc_out [OF 1(6)] A in auto)
    with left A show ?thesis by simp
  next
    case stay
    let ?s = "set_prev p parent (set_prev la (Some p) (set_prev ra (Some p) s))"
    have "heap_down_sink key p pp parent s = Some ?s"
      using stay lp rp by (simp add: heap_down_sink.simps [of key p pp] split: if_splits)
    moreover have "subtree ?s (Some la) ?l" "subtree ?s (Some ra) ?r"
      by (rule subtree_cong [of _ ?s s]; use 1(5) sl sr in auto)+
    moreover have "get_loc pp ?s = Some p" using 1(6,7) by simp
    moreover have "set_loc pp (Some p) s = s" using set_loc_same [OF 1(6), of s] 1(7) by simp
    moreover have "frame ?A s ?s" by (auto simp: frame_def)
    moreover have "sink key p ?l ?r = Node ?l p ?r" using stay by (simp split: if_splits)
    ultimately show ?thesis using lp rp nd unfolding sunk_def by simp
  qed
next
  case (2 key p ll la lr)
  let ?l = "Node ll la lr"
  have lp: "h_left s p = Some la" and rp: "h_right s p = nullptr" using 2(2,3) by auto
  have nd: "p \<noteq> la" using 2(4) by auto
  have sl: "subtree s (Some la) ?l" using 2(2) lp by simp
  have cl: "complete_from (2 * i) n ?l" using 2(7) by simp
  have nl: "nodup (Node ll p lr)" using 2(4) by auto
  have o2: "loc_out (LeftOf la) (set_tree (Node ll p lr))" using 2(4) by auto
  show ?case
  proof (cases "key la < key p")
    case True
    let ?s = "set_loc pp (Some la) (swap_with_left_child p la s)"
    have run: "heap_down_sink key p pp parent s = heap_down_sink key p (slot False la) (Some la) ?s"
      using True lp rp by (simp add: heap_down_sink.simps [of key p pp])
    have A: "set_tree (Node ?l p Leaf) = set_tree (Node Leaf p ?l)" by auto
    have "sunk key p pp parent s (if False then Node Leaf la (sink key p ll lr) else Node (sink key p ll lr) la Leaf)
        (set_tree (Node Leaf p ?l))"
    proof (rule sink_round [OF run _ sl])
      show "sunk key p (slot False la) (Some la) ?s (sink key p ll lr) (insert p (set_tree ll \<union> set_tree lr))"
        if "subtree ?s (h_left ?s p) ll" "subtree ?s (h_right ?s p) lr" "get_loc (slot False la) ?s = Some p"
        using 2(1) [OF True that(1,2) nl o2 that(3) [unfolded slot.simps] cl, of "Some la"] by simp
      show "frame (set_tree (Node Leaf p ?l)) (set_loc pp (Some la) s) ?s"
        using 2(5) nd by (cases pp) (auto simp: frame_def)
    qed (use 2(4,5) lp rp nd set_loc_out [OF 2(5)] A in auto)
    with True A show ?thesis by simp
  next
    case False
    let ?s = "set_prev p parent (set_prev la (Some p) s)"
    have "heap_down_sink key p pp parent s = Some ?s"
      using False lp rp by (simp add: heap_down_sink.simps [of key p pp])
    moreover have "subtree ?s (Some la) ?l"
      by (rule subtree_cong [of _ ?s s]; use 2(4) sl in auto)
    moreover have "get_loc pp ?s = Some p" using 2(5,6) by simp
    moreover have "set_loc pp (Some p) s = s" using set_loc_same [OF 2(5), of s] 2(6) by simp
    moreover have "frame (set_tree (Node ?l p Leaf)) s ?s" by (auto simp: frame_def)
    ultimately show ?thesis using lp rp nd False unfolding sunk_def by simp
  qed
qed

section \<open>Contexts on the heap\<close>

text \<open>The location that holds the pointer to the hole, and the node above it.\<close>

fun ctx_slot :: "'n ctx \<Rightarrow> 'n loc" where
  "ctx_slot [] = Root"
| "ctx_slot ((d, a, u) # c) = slot d a"

fun ctx_par :: "'n ctx \<Rightarrow> 'n ptr" where
  "ctx_par [] = nullptr"
| "ctx_par ((d, a, u) # c) = Some a"

fun ctx_rep :: "'n heap \<Rightarrow> 'n ctx \<Rightarrow> bool" where
  "ctx_rep s [] = True"
| "ctx_rep s ((d, a, u) # c) \<longleftrightarrow> subtree s (get_loc (slot (\<not> d) a) s) u \<and> up s (Some a) u
     \<and> h_prev s a = ctx_par c \<and> get_loc (ctx_slot c) s = Some a \<and> ctx_rep s c"

lemma subtree_plug:
  "t \<noteq> Leaf \<Longrightarrow> tree_rep s (plug c t) \<longleftrightarrow>
     ctx_rep s c \<and> subtree s (get_loc (ctx_slot c) s) t \<and> up s (ctx_par c) t"
proof (induction c t rule: plug.induct)
  case (1 t)
  then show ?case by (simp add: tree_rep_def)
next
  case (2 d a u c t)
  then show ?case by (cases d) auto
qed

fun ctx_nodes :: "'n ctx \<Rightarrow> 'n set" where
  "ctx_nodes [] = {}"
| "ctx_nodes ((d, a, u) # c) = insert a (set_tree u \<union> ctx_nodes c)"

fun ctx_dist :: "'n ctx \<Rightarrow> bool" where
  "ctx_dist [] = True"
| "ctx_dist ((d, a, u) # c) \<longleftrightarrow>
     nodup u \<and> a \<notin> set_tree u \<and> insert a (set_tree u) \<inter> ctx_nodes c = {} \<and> ctx_dist c"

lemma nodup_plug: "nodup (plug c t) \<longleftrightarrow> nodup t \<and> ctx_dist c \<and> set_tree t \<inter> ctx_nodes c = {}"
  by (induction c t rule: plug.induct) auto

lemma set_plug: "set_tree (plug c t) = set_tree t \<union> ctx_nodes c"
  by (induction c t rule: plug.induct) auto

lemma frame_slot: "frame A s s' \<Longrightarrow> a \<notin> A \<Longrightarrow> get_loc (slot d a) s' = get_loc (slot d a) s"
  by (cases d) (auto simp: frame_def)

lemma ctx_rep_frame:
  "ctx_rep s c \<Longrightarrow> frame A s s' \<Longrightarrow> A \<inter> ctx_nodes c = {} \<Longrightarrow> ctx_dist c \<Longrightarrow> ctx_rep s' c"
proof (induction c)
  case (Cons f c)
  obtain d a u where f: "f = (d, a, u)" by (cases f)
  have "get_loc (ctx_slot c) s' = get_loc (ctx_slot c) s"
    using Cons.prems(2,3) f frame_slot [OF Cons.prems(2)]
    by (cases c) (auto simp: frame_def split: prod.splits)
  then show ?case
    using Cons f frame_slot [OF Cons.prems(2), of a "\<not> d"] subtree_frame [OF Cons.prems(2), of u]
      up_frame [OF Cons.prems(2), of u]
    by (auto simp: frame_def)
qed simp

text \<open>The pointer into the hole may change.\<close>

lemma ctx_rep_hole:
  assumes "ctx_rep s ((d, a, u) # c)" "frame A (set_loc (slot d a) v s) s'"
    "A \<inter> ctx_nodes ((d, a, u) # c) = {}" "ctx_dist ((d, a, u) # c)"
  shows "ctx_rep s' ((d, a, u) # c)"
proof -
  have fr: "frame (insert a A) s s'" using assms(2) by (cases d) (auto simp: frame_def)
  have "ctx_rep s' c" by (rule ctx_rep_frame [OF _ fr]) (use assms(1,3,4) in auto)
  moreover have "get_loc (ctx_slot c) s' = get_loc (ctx_slot c) s"
    using fr assms(3,4) frame_slot [OF fr]
    by (cases c) (auto simp: frame_def split: prod.splits)
  moreover have "get_loc (slot (\<not> d) a) s' = get_loc (slot (\<not> d) a) s" "h_prev s' a = h_prev s a"
    using assms(2,3) by (cases d; auto simp: frame_def)+
  moreover have "subtree s' (get_loc (slot (\<not> d) a) s) u" "up s' (Some a) u"
    using assms(1,3,4) subtree_frame [OF fr, of u] up_frame [OF fr, of u] by auto
  ultimately show ?thesis using assms(1) by simp
qed

section \<open>Percolating\<close>

text \<open>Which of the two \<open>_Prev\<close> pointers of the children of \<open>p\<close> is still to be written.\<close>

definition pending :: "'n loc \<Rightarrow> 'n heap \<Rightarrow> 'n \<Rightarrow> 'n tree \<Rightarrow> 'n tree \<Rightarrow> bool" where
  "pending px s b l r \<longleftrightarrow>
     (\<exists>y x z. l = Node y x z \<and> px = PrevOf x \<and> up s (Some b) r)
   \<or> (\<exists>y x z. r = Node y x z \<and> px = PrevOf x \<and> up s (Some b) l)
   \<or> (l = Leaf \<and> px = Sentinel \<and> up s (Some b) r)"

lemma pending_write:
  assumes "pending px s b l r" "subtree s (h_left s p) l" "subtree s (h_right s p) r" "nodup (Node l p r)"
  defines "s1 \<equiv> set_loc px (Some b) s"
  shows "subtree s1 (h_left s p) l" "subtree s1 (h_right s p) r" "up s1 (Some b) l" "up s1 (Some b) r"
    "h_left s1 = h_left s" "h_right s1 = h_right s" "h_root s1 = h_root s" "h_size s1 = h_size s"
    "z \<notin> set_tree l \<union> set_tree r \<Longrightarrow> h_prev s1 z = h_prev s z"
proof -
  have "px = Sentinel \<and> l = Leaf \<or> (\<exists>x. px = PrevOf x \<and> x \<in> set_tree l \<union> set_tree r)"
    using assms(1) by (auto simp: pending_def)
  then show "h_left s1 = h_left s" "h_right s1 = h_right s" "h_root s1 = h_root s" "h_size s1 = h_size s"
    "z \<notin> set_tree l \<union> set_tree r \<Longrightarrow> h_prev s1 z = h_prev s z"
    by (auto simp: s1_def)
  show "up s1 (Some b) l" "up s1 (Some b) r"
    using assms(1,4) by (auto simp: pending_def s1_def intro: up_cong [of _ _ s])
  have nd: "nodup l" "nodup r" "set_tree l \<inter> set_tree r = {}" using assms(4) by auto
  consider (sent) "px = Sentinel"
    | (left) y x z where "l = Node y x z" "px = PrevOf x" "h_left s p = Some x" "x \<notin> set_tree r"
    | (right) y x z where "r = Node y x z" "px = PrevOf x" "h_right s p = Some x" "x \<notin> set_tree l"
    using assms(1-3) nd(3) by (auto simp: pending_def)
  then have "subtree s1 (h_left s p) l \<and> subtree s1 (h_right s p) r"
  proof cases
    case sent
    then show ?thesis
      using assms(2,3) by (simp_all add: s1_def)
  next
    case left
    have "subtree s1 (h_left s p) l"
      by (rule subtree_cong [OF _ _ nd(1) assms(2)]) (use left in \<open>auto simp: s1_def\<close>)
    moreover have "subtree s1 (h_right s p) r"
      by (rule subtree_cong [OF _ _ nd(2) assms(3)]) (use left in \<open>auto simp: s1_def\<close>)
    ultimately show ?thesis ..
  next
    case right
    have "subtree s1 (h_left s p) l"
      by (rule subtree_cong [OF _ _ nd(1) assms(2)]) (use right in \<open>auto simp: s1_def\<close>)
    moreover have "subtree s1 (h_right s p) r"
      by (rule subtree_cong [OF _ _ nd(2) assms(3)]) (use right in \<open>auto simp: s1_def\<close>)
    ultimately show ?thesis ..
  qed
  then show "subtree s1 (h_left s p) l" "subtree s1 (h_right s p) r" by simp_all
qed

lemma get_slot_other: "subtree s (get_loc (slot (\<not> d) a) s) u \<Longrightarrow> x \<notin> set_tree u \<Longrightarrow>
    get_loc (slot d a) s = Some x \<Longrightarrow> h_right s a = Some x \<longleftrightarrow> d"
  by (cases d; cases u) auto

lemma percolate_round:
  assumes rep: "ctx_rep s ((d, b, u) # (e, g, v) # c)" and p: "get_loc (slot d b) s = Some p"
    and sub: "subtree s (h_left s p) l" "subtree s (h_right s p) r" and pend: "pending px s b l r"
    and nd: "nodup (Node l p r)" "ctx_dist ((d, b, u) # (e, g, v) # c)"
      "set_tree (Node l p r) \<inter> ctx_nodes ((d, b, u) # (e, g, v) # c) = {}"
    and u: "u = Node ul x ur"
  defines "l' \<equiv> if d then u else Node l b r" and "r' \<equiv> if d then Node l b r else u"
  shows "\<exists>s'. percolate_loop key p px b (h_prev s b) s =
      (if key p < key g then percolate_loop key p (PrevOf x) g (h_prev s' g) s'
       else Some (set_prev p (Some g) (set_prev b (Some p) (set_prev x (Some p) s'))))
    \<and> ctx_rep s' ((e, g, v) # c) \<and> get_loc (slot e g) s' = Some p
    \<and> subtree s' (h_left s' p) l' \<and> subtree s' (h_right s' p) r' \<and> pending (PrevOf x) s' g l' r'
    \<and> h_size s' = h_size s \<and> (\<forall>z. z \<notin> set_tree l \<union> set_tree r \<longrightarrow> h_prev s' z = h_prev s z)"
proof -
  let ?s1 = "set_loc px (Some b) s"
  let ?s2 = "if d then swap_with_right_child b p ?s1 else swap_with_left_child b p ?s1"
  let ?s3 = "set_loc (slot e g) (Some p) ?s2"
  note w = pending_write [OF pend sub nd(1)]
  have ne: "b \<noteq> p" "b \<noteq> g" "p \<noteq> g" "x \<noteq> b" "x \<noteq> p" "x \<noteq> g" using nd(2,3) u by auto
  have hb: "get_loc (slot (\<not> d) b) s = Some x" using rep u by simp
  have hg: "h_prev s b = Some g" "get_loc (slot e g) s = Some b" using rep by simp_all
  have right: "h_right s b = Some p \<longleftrightarrow> d" "h_right s g = Some b \<longleftrightarrow> e"
    using get_slot_other [of s d b u p] get_slot_other [of s e g v b] rep p hg(2) nd(2,3) by auto
  have loop: "percolate_loop key p px b (h_prev s b) s =
      (if key p < key g then percolate_loop key p (PrevOf x) g (h_prev ?s3 g) ?s3
       else Some (set_prev p (Some g) (set_prev b (Some p) (set_prev x (Some p) ?s3))))"
    using hb hg right ne w(5,6) by (cases d; cases e) (simp_all add: percolate_loop.simps [of key p px b])
  have prev: "h_prev ?s3 = h_prev ?s1" using ne by (cases d; cases e) simp_all
  have ch: "get_loc (slot (\<not> d) p) ?s3 = Some x" "get_loc (slot d p) ?s3 = Some b"
      "h_left ?s3 b = h_left s p" "h_right ?s3 b = h_right s p" "get_loc (slot e g) ?s3 = Some p"
    using ne hb w(5,6) by (cases d; cases e; simp)+
  have fr: "frame {b, p, g} ?s1 ?s3" using ne by (cases d; cases e) (simp_all add: frame_def)
  have fr1: "frame (set_tree l \<union> set_tree r) s ?s1" using w(5-9) by (simp add: frame_def)
  have hole: "frame (insert b (set_tree (Node l p r))) (set_loc (slot e g) (Some p) s) ?s3"
    using ne w(5-9) by (cases d; cases e) (simp_all add: frame_def)
  have c3: "ctx_rep ?s3 ((e, g, v) # c)"
    by (rule ctx_rep_hole [OF _ hole]) (use rep nd(2,3) in auto)
  have fr3: "frame (insert g (insert b (set_tree (Node l p r)))) s ?s3"
    by (rule frame_trans [OF fr1 fr]) auto
  have dis: "insert g (insert b (set_tree (Node l p r))) \<inter> set_tree u = {}" "nodup u"
    using nd(2,3) by auto
  have "subtree s (Some x) u" "up s (Some b) u" using rep hb by simp_all
  then have u3: "subtree ?s3 (Some x) u" "up ?s3 (Some b) u"
    using subtree_frame [OF fr3 dis] up_frame [OF fr3 dis(1)] by blast+
  have lr: "subtree ?s3 (h_left s p) l" "subtree ?s3 (h_right s p) r" "up ?s3 (Some b) l" "up ?s3 (Some b) r"
    using subtree_frame [OF fr _ _ w(1)] subtree_frame [OF fr _ _ w(2)] up_frame [OF fr _ w(3)]
      up_frame [OF fr _ w(4)] nd by auto
  then have b3: "subtree ?s3 (Some b) (Node l b r)" using ch(3,4) by simp
  have "h_prev ?s3 b = Some g" using w(9) [of b] prev hg(1) nd(3) by auto
  then have "pending (PrevOf x) ?s3 g l' r'" using u by (auto simp: pending_def l'_def r'_def)
  moreover have "subtree ?s3 (h_left ?s3 p) l' \<and> subtree ?s3 (h_right ?s3 p) r'"
    using ch(1,2) u3 b3 unfolding l'_def r'_def by (cases d) simp_all
  moreover have "h_size ?s3 = h_size s" using fr fr1 by (simp add: frame_def)
  moreover have "\<forall>z. z \<notin> set_tree l \<union> set_tree r \<longrightarrow> h_prev ?s3 z = h_prev s z" using prev w(9) by simp
  ultimately show ?thesis using loop c3 ch(5) by (intro exI [of _ ?s3]) simp_all
qed

lemma percolate_ok:
  assumes "key p < key b" "ctx_rep s ((d, b, u) # c)" "get_loc (slot d b) s = Some p"
    and "subtree s (h_left s p) l" "subtree s (h_right s p) r" "pending px s b l r"
    and "nodup (plug ((d, b, u) # c) (Node l p r))" "full_ctx ((d, b, u) # c)"
    and "key (fst (snd (last ((d, b, u) # c)))) \<le> key p"
  shows "\<exists>s'. percolate_loop key p px b (h_prev s b) s = Some s'
    \<and> tree_rep s' (percolate key p ((d, b, u) # c) l r) \<and> h_size s' = h_size s
    \<and> (\<forall>z. z \<notin> set_tree (plug ((d, b, u) # c) (Node l p r)) \<longrightarrow> h_prev s' z = h_prev s z)"
  using assms
proof (induction c arbitrary: d b u l r px s)
  case Nil
  then show ?case by simp
next
  case (Cons f c)
  obtain e g v where f: "f = (e, g, v)" by (cases f)
  let ?c = "(e, g, v) # c" and ?l = "if d then u else Node l b r" and ?r = "if d then Node l b r else u"
  obtain ul x ur where u: "u = Node ul x ur" using Cons.prems(8) by (cases u) auto
  have nd: "nodup (Node l p r)" "ctx_dist ((d, b, u) # ?c)"
    "set_tree (Node l p r) \<inter> ctx_nodes ((d, b, u) # ?c) = {}"
    using Cons.prems(7) unfolding f by (simp_all only: nodup_plug)
  from percolate_round [OF Cons.prems(2) [unfolded f] Cons.prems(3-6) nd u, of key]
  obtain s3 where s3: "percolate_loop key p px b (h_prev s b) s =
      (if key p < key g then percolate_loop key p (PrevOf x) g (h_prev s3 g) s3
       else Some (set_prev p (Some g) (set_prev b (Some p) (set_prev x (Some p) s3))))"
    "ctx_rep s3 ?c" "get_loc (slot e g) s3 = Some p"
    "subtree s3 (h_left s3 p) ?l" "subtree s3 (h_right s3 p) ?r" "pending (PrevOf x) s3 g ?l ?r"
    "h_size s3 = h_size s" "\<forall>z. z \<notin> set_tree l \<union> set_tree r \<longrightarrow> h_prev s3 z = h_prev s z" by blast
  have nd': "nodup (Node ?l p ?r)" "ctx_dist ?c" "set_tree (Node ?l p ?r) \<inter> ctx_nodes ?c = {}"
    using nd by (cases d; auto)+
  have set: "set_tree (Node ?l p ?r) \<union> ctx_nodes ?c = set_tree (Node l p r) \<union> ctx_nodes ((d, b, u) # ?c)"
    by (cases d) auto
  show ?case
  proof (cases "key p < key g")
    case True
    have "nodup (plug ?c (Node ?l p ?r))" unfolding nodup_plug using nd' by blast
    from Cons.IH [OF True s3(2-6) this] Cons.prems(8,9) f
    obtain s' where s': "percolate_loop key p (PrevOf x) g (h_prev s3 g) s3 = Some s'"
      "tree_rep s' (percolate key p ?c ?l ?r)" "h_size s' = h_size s3"
      "\<forall>z. z \<notin> set_tree (plug ?c (Node ?l p ?r)) \<longrightarrow> h_prev s' z = h_prev s3 z" by auto
    moreover have "percolate key p ((d, b, u) # ?c) l r = percolate key p ?c ?l ?r"
      using Cons.prems(1) by (simp only: percolate.simps if_True) (cases d; simp)
    ultimately show ?thesis
      unfolding f using s3(1,7,8) True set by (auto simp: set_plug)
  next
    case False
    let ?s = "set_prev p (Some g) (set_prev b (Some p) (set_prev x (Some p) s3))"
    have ne: "p \<noteq> b" "p \<noteq> x" "x \<noteq> b" "p \<notin> set_tree ?l" "p \<notin> set_tree ?r" "nodup ?l" "nodup ?r"
      using nd' u by (cases d; auto)+
    have fr: "frame {p, b, x} s3 ?s" by (auto simp: frame_def)
    have "ctx_rep ?s ?c"
      by (rule ctx_rep_frame [OF s3(2) fr _ nd'(2)]) (use nd'(3) u in \<open>cases d; auto\<close>)
    moreover have "get_loc (ctx_slot ?c) ?s = Some p" using s3(3) by (cases e) simp_all
    moreover have "subtree ?s (h_left s3 p) ?l"
      by (rule subtree_cong [OF _ _ ne(6) s3(4)]) (use ne u nd' s3(4) in \<open>cases d; auto\<close>)+
    moreover have "subtree ?s (h_right s3 p) ?r"
      by (rule subtree_cong [OF _ _ ne(7) s3(5)]) (use ne u nd' s3(5) in \<open>cases d; auto\<close>)+
    moreover have "up ?s (Some p) ?l" "up ?s (Some p) ?r" using ne u by (cases d; simp)+
    ultimately have "tree_rep ?s (plug ?c (Node ?l p ?r))"
      by (subst subtree_plug) simp_all
    moreover have "percolate key p ((d, b, u) # ?c) l r = plug ?c (Node ?l p ?r)"
      using Cons.prems(1) False by (cases d) simp_all
    moreover have "\<forall>z. z \<notin> set_tree (plug ((d, b, u) # ?c) (Node l p r)) \<longrightarrow> h_prev ?s z = h_prev s z"
      using s3(8) u by (auto simp: set_plug)
    ultimately show ?thesis unfolding f using s3(1,7) False by simp
  qed
qed

section \<open>A node in the place of another\<close>

lemma up_size [simp]: "up (s\<lparr>h_size := n\<rparr>) p t = up s p t"
  by (cases t) auto

lemma subtree_size [simp]: "subtree (s\<lparr>h_size := n\<rparr>) p t = subtree s p t"
  by (induction t arbitrary: p) auto

lemma tree_rep_size [simp]: "tree_rep (s\<lparr>h_size := n\<rparr>) t = tree_rep s t"
  by (simp add: tree_rep_def)

lemma ctx_slot_cases:
  obtains "ctx_slot c = Root" | x where "ctx_slot c = RightOf x" "x \<in> ctx_nodes c"
    | x where "ctx_slot c = LeftOf x" "x \<in> ctx_nodes c"
proof (cases c)
  case (Cons f c')
  with that show thesis by (cases f; cases "fst f") auto
qed (use that in simp)

text \<open>The pointers of \<open>p\<close> after it has taken the children and the place of \<open>a\<close>.\<close>

definition take_place :: "'n \<Rightarrow> 'n \<Rightarrow> 'n loc \<Rightarrow> 'n heap \<Rightarrow> 'n heap" where
  "take_place p a pp s = set_loc pp (Some p) (set_left p (h_left s a) (set_right p (h_right s a) s))"

lemma take_place_ok:
  assumes rep: "tree_rep s (plug c (Node l a r))" and nd: "nodup (plug c (Node l a r))"
    and p: "p \<notin> set_tree (plug c (Node l a r))"
  defines "s' \<equiv> take_place p a (ctx_slot c) s"
  shows "ctx_rep s' c" "get_loc (ctx_slot c) s' = Some p" "subtree s' (h_left s' p) l" "subtree s' (h_right s' p) r"
    "h_prev s' = h_prev s" "h_size s' = h_size s" "up s' (Some a) l" "up s' (Some a) r"
    "h_left s' p = h_left s a" "h_right s' p = h_right s a"
proof -
  note n = nd [unfolded nodup_plug] and q = p [unfolded set_plug]
  have r: "ctx_rep s c" "subtree s (h_left s a) l" "subtree s (h_right s a) r" "up s (Some a) l" "up s (Some a) r"
    using rep subtree_plug [where t = "Node l a r" and c = c and s = s] by auto
  have pc: "p \<noteq> x" if "x \<in> ctx_nodes c" for x using that q by auto
  show "h_prev s' = h_prev s" "h_size s' = h_size s" "h_left s' p = h_left s a" "h_right s' p = h_right s a"
      "get_loc (ctx_slot c) s' = Some p"
    unfolding s'_def take_place_def using pc by (cases c rule: ctx_slot_cases; simp)+
  show "ctx_rep s' c"
  proof (cases c)
    case Nil
    then show ?thesis by simp
  next
    case (Cons f c')
    obtain d x u where f: "f = (d, x, u)" by (cases f)
    have "frame {p} (set_loc (slot d x) (Some p) s) s'"
      unfolding s'_def take_place_def Cons f using pc [of x] Cons f by (cases d) (auto simp: frame_def)
    then show ?thesis
      using ctx_rep_hole [of s d x u c' "{p}" "Some p" s'] r(1) n q unfolding Cons f by auto
  qed
  have keep: "h_left s' z = h_left s z \<and> h_right s' z = h_right s z \<and> h_prev s' z = h_prev s z"
    if "z \<in> set_tree l \<union> set_tree r" for z
  proof -
    have "z \<noteq> p" "z \<notin> ctx_nodes c" using that n q by auto
    then show ?thesis unfolding s'_def take_place_def by (cases c rule: ctx_slot_cases) auto
  qed
  show "subtree s' (h_left s' p) l" "subtree s' (h_right s' p) r"
    unfolding \<open>h_left s' p = _\<close> \<open>h_right s' p = _\<close>
    using keep n r(2,3) by (auto intro!: subtree_cong [of _ s' s])
  show "up s' (Some a) l" "up s' (Some a) r"
    using keep r(4,5) by (auto intro!: up_cong [of _ s' s])
qed

lemma sink_replace:
  assumes rep: "tree_rep s (plug c (Node l a r))" and nd: "nodup (plug c (Node l a r))"
    and p: "p \<notin> set_tree (plug c (Node l a r))" and comp: "complete_from 1 n (plug c (Node l a r))"
  shows "\<exists>s' x. heap_down_sink key p (ctx_slot c) (ctx_par c) (take_place p a (ctx_slot c) s) = Some s'
    \<and> get_loc (ctx_slot c) s' = Some x \<and> tree_rep (set_prev x (ctx_par c) s') (plug c (sink key p l r))
    \<and> h_size s' = h_size s \<and> x \<in> insert p (set_tree l \<union> set_tree r)
    \<and> (\<forall>z. z \<notin> insert p (set_tree l \<union> set_tree r) \<longrightarrow> h_prev s' z = h_prev s z)"
proof -
  let ?s = "take_place p a (ctx_slot c) s" and ?A = "set_tree (Node l p r)" and ?t = "sink key p l r"
  note tp = take_place_ok [OF rep nd p]
  have A: "nodup (Node l p r)" "?A \<inter> ctx_nodes c = {}" "ctx_dist c"
    using nd p unfolding nodup_plug set_plug by auto
  have out: "loc_out (ctx_slot c) ?A"
    by (rule ctx_slot_cases [of c]) (use A(2) in auto)
  from down_sink_ok [OF tp(3,4) A(1) out tp(2) complete_plug_hole [OF comp]]
  obtain s' where s': "heap_down_sink key p (ctx_slot c) (ctx_par c) ?s = Some s'"
    "subtree s' (get_loc (ctx_slot c) s') ?t" "frame ?A (set_loc (ctx_slot c) (get_loc (ctx_slot c) s') ?s) s'"
    unfolding sunk_def by blast
  obtain u x v where t: "?t = Node u x v" using sink_root [of key p l r] by blast
  then have x: "get_loc (ctx_slot c) s' = Some x" using s'(2) by simp
  have xA: "x \<in> ?A" using set_sink [of key p l r] t by auto
  have nt: "nodup ?t" using A(1) nodup_mset [of ?t "Node l p r"] by (simp add: mset_sink)
  let ?r = "set_prev x (ctx_par c) s'"
  have "frame ?A s' ?r" using xA by (auto simp: frame_def)
  from frame_trans [OF s'(3) this order.refl order.refl]
  have fr: "frame ?A (set_loc (ctx_slot c) (Some x) ?s) ?r" unfolding x .
  have "ctx_rep ?r c"
  proof (cases c)
    case (Cons f c')
    obtain d y w where f: "f = (d, y, w)" by (cases f)
    show ?thesis
      using ctx_rep_hole [of ?s d y w c' ?A "Some x" ?r] tp(1) fr A(2,3) unfolding Cons f by simp
  qed simp
  moreover have "get_loc (ctx_slot c) ?r = Some x"
    by (rule ctx_slot_cases [of c]) (use x in simp_all)
  moreover have "subtree ?r (Some x) ?t"
    by (rule subtree_cong [OF _ _ nt]) (use s'(2) x in auto)
  moreover have "up ?r (ctx_par c) ?t" using t by simp
  ultimately have "tree_rep ?r (plug c ?t)" using t by (subst subtree_plug) simp_all
  moreover have "h_prev (set_loc (ctx_slot c) q z) = h_prev z" for q z
    by (rule ctx_slot_cases [of c]) simp_all
  ultimately show ?thesis using s'(1,3) x xA tp(5,6) by (auto simp: frame_def)
qed

lemma percolate_replace:
  assumes rep: "tree_rep s (plug ((d, b, u) # c) (Node l a r))" and nd: "nodup (plug ((d, b, u) # c) (Node l a r))"
    and p: "p \<notin> set_tree (plug ((d, b, u) # c) (Node l a r))" and less: "key p < key b"
    and full: "full_ctx ((d, b, u) # c)" and root: "key (fst (snd (last ((d, b, u) # c)))) \<le> key p"
  shows "\<exists>s'. heap_up_percolate key p b (take_place p a (slot d b) s) = Some s'
    \<and> tree_rep s' (percolate key p ((d, b, u) # c) l r) \<and> h_size s' = h_size s
    \<and> (\<forall>z. z \<notin> set_tree (plug ((d, b, u) # c) (Node l p r)) \<longrightarrow> h_prev s' z = h_prev s z)"
proof -
  let ?c = "(d, b, u) # c" and ?s = "take_place p a (slot d b) s"
  let ?px = "case h_left ?s p of None \<Rightarrow> Sentinel | Some l \<Rightarrow> PrevOf l"
  let ?py = "case h_right ?s p of None \<Rightarrow> Sentinel | Some r \<Rightarrow> PrevOf r"
  let ?s1 = "set_loc ?py (Some b) ?s"
  note tp = take_place_ok [OF rep nd p, unfolded ctx_slot.simps]
  have n1: "nodup l" "nodup r" "nodup (Node l p r)" "set_tree l \<inter> set_tree r = {}" and n2: "ctx_dist ?c"
    "set_tree (Node l p r) \<inter> ctx_nodes ?c = {}"
    using nd p unfolding nodup_plug set_plug by auto
  have np: "nodup (plug ?c (Node l p r))" unfolding nodup_plug using n1(3) n2 by blast
  have eq: "h_left ?s1 = h_left ?s" "h_right ?s1 = h_right ?s" "h_root ?s1 = h_root ?s"
    by (simp_all split: option.split)
  have prev: "h_prev ?s1 z = h_prev ?s z" if "h_right ?s p \<noteq> Some z" for z
    using that by (simp split: option.split)
  have rr: "z \<in> set_tree r" if "h_right ?s p = Some z" for z
    using that tp(4) by (cases r) auto
  have fr: "frame (set_tree r) ?s ?s1" using eq prev rr by (auto simp: frame_def)
  have "subtree ?s1 (h_left ?s1 p) l"
    unfolding eq by (rule subtree_frame [OF fr _ n1(1) tp(3)]) (use n1(4) in auto)
  moreover have "subtree ?s1 (h_right ?s1 p) r"
    unfolding eq by (rule subtree_cong [OF _ _ n1(2) tp(4)]) (use eq prev in auto)
  moreover have "up ?s1 (Some b) r" using tp(4) by (cases r) auto
  then have "pending ?px ?s1 b l r" using tp(3) by (cases l) (auto simp: pending_def)
  moreover have "ctx_rep ?s1 ?c" by (rule ctx_rep_frame [OF tp(1) fr _ n2(1)]) (use n2(2) in auto)
  moreover have "get_loc (slot d b) ?s1 = Some p" using tp(2) eq by (cases d) simp_all
  ultimately have "\<exists>s'. percolate_loop key p ?px b (h_prev ?s1 b) ?s1 = Some s'
    \<and> tree_rep s' (percolate key p ?c l r) \<and> h_size s' = h_size ?s1
    \<and> (\<forall>z. z \<notin> set_tree (plug ?c (Node l p r)) \<longrightarrow> h_prev s' z = h_prev ?s1 z)"
    by (intro percolate_ok [OF less _ _ _ _ _ np full root])
  moreover have "h_prev ?s1 z = h_prev s z" if "z \<notin> set_tree (plug ?c (Node l p r))" for z
    using that prev [of z] rr [of z] tp(5) unfolding set_plug by auto
  ultimately show ?thesis using tp(6) unfolding heap_up_percolate_def Let_def by auto
qed

section \<open>Pop and remove implement their functional readings\<close>

lemma wf_last_leaf:
  assumes wf: "heap_wf key s t" and n: "h_size s = Suc n"
  obtains x t' s1 where "ends (dirs (Suc n)) t" "del_path (dirs (Suc n)) t = (x, t')"
    "set_tree t = insert x (set_tree t')" "x \<notin> set_tree t'" "nodup t'" "heap_ord key t'" "complete_from 1 n t'"
    "remove_least_leaf Root (Suc n) s = Some (Some x, s1)" "tree_rep s1 t'" "h_prev s1 = h_prev s" "h_size s1 = Suc n"
proof -
  have c: "complete_from 1 (Suc n) t" and rep: "tree_rep s t" and nd: "nodup t" and ho: "heap_ord key t"
    using wf n by (simp_all add: heap_wf_def)
  have p: "pos (dirs (Suc n)) 1 = Suc n" by (rule pos_dirs) simp
  have e: "ends (dirs (Suc n)) t" using complete_ends [OF c p] by simp
  obtain x t' where d: "del_path (dirs (Suc n)) t = (x, t')" by fastforce
  have "nodup t' \<and> x \<notin> set_tree t'" using nodup_add [OF del_path_mset [OF e d]] nd by simp
  with that [OF e d del_path_set [OF e d] _ _ del_path_heap [OF e ho d] del_path_complete [OF c p _ d]]
    remove_least_leaf_ok [OF rep nd c d] n show thesis by auto
qed

lemma heap_pop_ok:
  assumes wf: "heap_wf key s t" and t: "t = Node l a r"
  shows "\<exists>s' t'. heap_pop key s = Some s' \<and> heap_wf key s' t' \<and> set_tree t' = set_tree t - {a}
    \<and> h_size s' = h_size s - 1"
proof -
  obtain n where n: "h_size s = Suc n"
    using wf t by (cases "h_size s") (auto simp: heap_wf_def)
  obtain x t' s1 where d: "ends (dirs (Suc n)) t" "del_path (dirs (Suc n)) t = (x, t')"
    "set_tree t = insert x (set_tree t')" "x \<notin> set_tree t'" "nodup t'" "heap_ord key t'" "complete_from 1 n t'"
    "remove_least_leaf Root (Suc n) s = Some (Some x, s1)" "tree_rep s1 t'" "h_prev s1 = h_prev s" "h_size s1 = Suc n"
    by (rule wf_last_leaf [OF wf n])
  have root: "h_root s = Some a" "h_prev s a = nullptr" and nd: "nodup t"
    and out: "\<And>z. z \<notin> set_tree t \<Longrightarrow> h_prev s z = nullptr"
    using wf t by (auto simp: heap_wf_def tree_rep_def)
  show ?thesis
  proof (cases "n = 0")
    case True
    then have "t' = Leaf" using d(7) complete_from_Leaf_iff [OF d(7)] by simp
    then have "set_tree t = {x}" using d(3) by simp
    moreover have "a \<in> set_tree t" using t by simp
    ultimately have sa: "set_tree t = {a}" by simp
    have "h_prev s z = nullptr" for z using out [of z] root(2) sa by (cases "z = a") auto
    then have st: "set_tree t - {a} = {}" "\<And>z. h_prev s z = nullptr" using sa by auto
    then have "heap_wf key (s\<lparr>h_root := nullptr, h_size := 0\<rparr>) Leaf" by (simp add: heap_wf_def tree_rep_def)
    moreover have "heap_pop key s = Some (s\<lparr>h_root := nullptr, h_size := 0\<rparr>)"
      using n True by (simp add: heap_pop_def)
    ultimately show ?thesis using st n True by (intro exI [of _ "s\<lparr>h_root := nullptr, h_size := 0\<rparr>"] exI [of _ Leaf]) simp
  next
    case False
    then have "t' \<noteq> Leaf" using complete_from_Leaf_iff [OF d(7)] by simp
    from del_path_root [OF d(1,2) t this] obtain l' r' where t': "t' = Node l' a r'" by blast
    let ?s = "s1\<lparr>h_size := n\<rparr>"
    have rep: "tree_rep ?s (plug [] (Node l' a r'))" using d(9) t' by simp
    have pl: "nodup (plug [] (Node l' a r'))" "x \<notin> set_tree (plug [] (Node l' a r'))"
      "complete_from 1 n (plug [] (Node l' a r'))" using d(4,5,7) t' by simp_all
    from sink_replace [OF rep pl, of key] obtain s' y where s':
      "heap_down_sink key x Root nullptr (take_place x a Root ?s) = Some s'" "h_root s' = Some y"
      "tree_rep (set_prev y nullptr s') (sink key x l' r')" "h_size s' = n"
      "y \<in> insert x (set_tree l' \<union> set_tree r')"
      "\<forall>z. z \<notin> insert x (set_tree l' \<union> set_tree r') \<longrightarrow> h_prev s' z = h_prev s1 z" by auto
    have xa: "x \<noteq> a" using d(4) t' by auto
    have r1: "h_root s1 = Some a" using d(9) t' by (simp add: tree_rep_def)
    have "(set_left x (h_left s1 a) (set_right x (h_right s1 a) s1))\<lparr>h_root := Some x, h_size := n\<rparr>
        = take_place x a Root ?s"
      by (simp add: take_place_def set_left_def set_right_def)
    then have run: "heap_pop key s = Some (set_prev y nullptr s')"
      using n False d(8,11) root(1) r1 s'(1,2) xa by (simp add: heap_pop_def)
    have set: "set_tree (sink key x l' r') = set_tree t - {a}"
      using d(3,4,5) t' by (auto simp: set_sink)
    have "nodup (sink key x l' r')"
      using d(4,5) t' nodup_mset [of "sink key x l' r'" "Node l' x r'"] by (simp add: mset_sink)
    moreover have "heap_ord key (sink key x l' r')"
      using d(6,7) t' by (intro heap_sink [of key l' r' 1 n a]) (auto simp: complete_from_Leaf_iff)
    moreover have "complete_from 1 n (sink key x l' r')"
      using d(7) t' complete_sink [of 1 n l' a r' key x] by simp
    moreover have "\<forall>z. z \<notin> set_tree (sink key x l' r') \<longrightarrow> h_prev (set_prev y nullptr s') z = nullptr"
      using s'(6) set out root(2) d(3,10) t' by (auto simp: set_sink)
    ultimately have "heap_wf key (set_prev y nullptr s') (sink key x l' r')"
      using s'(3,4) by (simp add: heap_wf_def)
    with run set n s'(4) show ?thesis
      by (intro exI [of _ "set_prev y nullptr s'"] exI [of _ "sink key x l' r'"]) simp
  qed
qed

lemma plug_root: "c \<noteq> [] \<Longrightarrow> \<exists>l r. plug c t = Node l (fst (snd (last c))) r"
proof (induction c t rule: plug.induct)
  case (2 d a s c t)
  then show ?case by (cases c) auto
qed simp

lemma tree_rep_set_prev: "tree_rep s t \<Longrightarrow> nodup t \<Longrightarrow> z \<notin> set_tree t \<Longrightarrow> tree_rep (set_prev z v s) t"
  unfolding tree_rep_def by (auto intro!: subtree_cong [of t _ s] up_cong [of t _ s])

text \<open>How \<open>_M_remove\<close> finds the location that points to a node.\<close>

lemma remove_location:
  assumes "tree_rep s (plug c (Node l a r))" "nodup (plug c (Node l a r))"
    "p \<notin> set_tree (plug c (Node l a r))"
  defines "s' \<equiv> set_left p (h_left s a) (set_right p (h_right s a) s)"
  shows "h_prev s' a = ctx_par c" "get_loc (ctx_slot c) s = Some a"
    "(case ctx_par c of None \<Rightarrow> Root | Some b \<Rightarrow> if h_right s' b = Some a then RightOf b else LeftOf b) = ctx_slot c"
proof -
  have r: "ctx_rep s c" "get_loc (ctx_slot c) s = Some a" "h_prev s a = ctx_par c"
    using assms(1) subtree_plug [where t = "Node l a r" and c = c and s = s] by auto
  then show "h_prev s' a = ctx_par c" "get_loc (ctx_slot c) s = Some a" by (simp_all add: s'_def)
  show "(case ctx_par c of None \<Rightarrow> Root | Some b \<Rightarrow> if h_right s' b = Some a then RightOf b else LeftOf b) = ctx_slot c"
  proof (cases c)
    case (Cons f c')
    obtain d b u where f: "f = (d, b, u)" by (cases f)
    have n: "ctx_dist c" "set_tree (Node l a r) \<inter> ctx_nodes c = {}" "p \<notin> ctx_nodes c"
      using assms(2,3) unfolding nodup_plug set_plug by auto
    have "h_right s b = Some a \<longleftrightarrow> d"
      using get_slot_other [of s d b u a] r n(2) unfolding Cons f by auto
    moreover have "b \<noteq> p" using n(3) unfolding Cons f by auto
    ultimately show ?thesis unfolding Cons f by (cases d) (simp_all add: s'_def)
  qed simp
qed

lemma heap_remove_absent:
  assumes "heap_wf key s t" "node \<notin> set_tree t"
  shows "heap_remove key node s = Some (False, s)"
proof -
  have "h_root s \<noteq> Some node" using assms by (cases t) (auto simp: heap_wf_def tree_rep_def)
  with assms show ?thesis by (simp add: heap_remove_def heap_wf_def)
qed

lemma heap_remove_run:
  assumes "\<not> (h_prev s a = nullptr \<and> h_root s \<noteq> Some a)" "h_root s \<noteq> nullptr" "h_size s = Suc n"
    and "remove_least_leaf Root (Suc n) s = Some (Some x, s1)" "x \<noteq> a" "h_size s1 = Suc n"
    and rep: "tree_rep s1 (plug c (Node l a r))" "nodup (plug c (Node l a r))" "x \<notin> set_tree (plug c (Node l a r))"
  defines "s4 \<equiv> take_place x a (ctx_slot c) (s1\<lparr>h_size := n\<rparr>)"
  shows "ctx_par c = Some b \<Longrightarrow> key x < key b \<Longrightarrow> heap_up_percolate key x b s4 = Some s5
      \<Longrightarrow> heap_remove key a s = Some (True, set_prev a nullptr s5)"
    and "\<not> (\<exists>b. ctx_par c = Some b \<and> key x < key b)
      \<Longrightarrow> heap_down_sink key x (ctx_slot c) (ctx_par c) s4 = Some s5 \<Longrightarrow> get_loc (ctx_slot c) s5 = Some y
      \<Longrightarrow> heap_remove key a s = Some (True, set_prev a nullptr (set_prev y (ctx_par c) s5))"
proof -
  let ?s = "s1\<lparr>h_size := n\<rparr>"
  have rep': "tree_rep ?s (plug c (Node l a r))" using rep(1) by simp
  note loc = remove_location [OF rep' rep(2,3)]
  have run: "heap_remove key a s = (case ctx_par c of
              Some b \<Rightarrow> if key x < key b then do {
                  s5 \<leftarrow> heap_up_percolate key x b s4; Some (True, set_prev a nullptr s5) }
                else do {
                  s5 \<leftarrow> heap_down_sink key x (ctx_slot c) (ctx_par c) s4;
                  y \<leftarrow> deref (get_loc (ctx_slot c) s5);
                  Some (True, set_prev a nullptr (set_prev y (ctx_par c) s5)) }
            | None \<Rightarrow> do {
                  s5 \<leftarrow> heap_down_sink key x (ctx_slot c) (ctx_par c) s4;
                  y \<leftarrow> deref (get_loc (ctx_slot c) s5);
                  Some (True, set_prev a nullptr (set_prev y (ctx_par c) s5)) })"
  proof -
    have g: "(h_prev s a = nullptr \<and> h_root s \<noteq> Some a) = False" using assms(1) by simp
    have slot: "ctx_slot c = (if h_right s1 b = Some a then RightOf b else LeftOf b)" "b \<noteq> x" if "ctx_par c = Some b" for b
    proof -
      have "b \<in> ctx_nodes c" using that by (cases c rule: ctx_par.cases) auto
      then show "b \<noteq> x" using rep(3) unfolding set_plug by auto
      then show "ctx_slot c = (if h_right s1 b = Some a then RightOf b else LeftOf b)"
        using loc(3) that by simp
    qed
    show ?thesis
    proof (cases "ctx_par c")
      case None
      then show ?thesis
        using assms(2-6) loc unfolding heap_remove_def s4_def take_place_def g if_False by simp
    next
      case (Some b)
      then show ?thesis
        using assms(2-6) loc(1) slot [OF Some] unfolding heap_remove_def s4_def take_place_def g if_False
        by (cases "h_right s1 b = Some a") (simp_all add: Let_def)
    qed
  qed
  show "ctx_par c = Some b \<Longrightarrow> key x < key b \<Longrightarrow> heap_up_percolate key x b s4 = Some s5
      \<Longrightarrow> heap_remove key a s = Some (True, set_prev a nullptr s5)"
    by (simp add: run)
  show "\<not> (\<exists>b. ctx_par c = Some b \<and> key x < key b)
      \<Longrightarrow> heap_down_sink key x (ctx_slot c) (ctx_par c) s4 = Some s5 \<Longrightarrow> get_loc (ctx_slot c) s5 = Some y
      \<Longrightarrow> heap_remove key a s = Some (True, set_prev a nullptr (set_prev y (ctx_par c) s5))"
    by (cases "ctx_par c") (simp_all add: run)
qed

lemma heap_remove_wf:
  assumes "heap_wf key s t" "a \<in> set_tree t" "h_size s = Suc n"
    and "tree_rep s' t'" "mset_tree t = add_mset a (mset_tree t')" "heap_ord key t'" "complete_from 1 n t'" "h_size s' = n"
    and "\<And>z. z \<notin> set_tree t \<Longrightarrow> h_prev s' z = h_prev s z"
  shows "heap_wf key (set_prev a nullptr s') t' \<and> set_tree t' = set_tree t - {a} \<and> h_size (set_prev a nullptr s') = h_size s - 1"
proof -
  have nd: "nodup t'" "a \<notin> set_tree t'" using nodup_add [OF assms(5)] assms(1) by (simp_all add: heap_wf_def)
  have set: "set_tree t = insert a (set_tree t')" using assms(5) by (simp flip: set_mset_tree)
  show ?thesis
    using assms nd set tree_rep_set_prev [OF assms(4) nd] by (auto simp: heap_wf_def)
qed

lemma heap_remove_ok:
  assumes wf: "heap_wf key s t" and a: "a \<in> set_tree t"
  shows "\<exists>s' t'. heap_remove key a s = Some (True, s') \<and> heap_wf key s' t' \<and> set_tree t' = set_tree t - {a}
    \<and> h_size s' = h_size s - 1"
proof -
  obtain n where n: "h_size s = Suc n"
    using wf a by (cases "h_size s"; cases t) (auto simp: heap_wf_def)
  obtain x t' s1 where d: "ends (dirs (Suc n)) t" "del_path (dirs (Suc n)) t = (x, t')"
    "set_tree t = insert x (set_tree t')" "x \<notin> set_tree t'" "nodup t'" "heap_ord key t'" "complete_from 1 n t'"
    "remove_least_leaf Root (Suc n) s = Some (Some x, s1)" "tree_rep s1 t'" "h_prev s1 = h_prev s" "h_size s1 = Suc n"
    by (rule wf_last_leaf [OF wf n])
  let ?s = "s1\<lparr>h_size := n\<rparr>"
  have rep: "tree_rep s t" and ho: "heap_ord key t" using wf by (simp_all add: heap_wf_def)
  have root: "h_root s \<noteq> nullptr" using rep a by (cases t) (auto simp: tree_rep_def)
  obtain c0 l0 r0 where "t = plug c0 (Node l0 a r0)" using find_node [OF a] by blast
  with rep have "get_loc (ctx_slot c0) s = Some a" "h_prev s a = ctx_par c0"
    using subtree_plug [where t = "Node l0 a r0" and c = c0 and s = s] by auto
  then have guard: "\<not> (h_prev s a = nullptr \<and> h_root s \<noteq> Some a)" by (cases c0) auto
  have mset: "mset_tree t = add_mset x (mset_tree t')" by (rule del_path_mset [OF d(1,2)])
  show ?thesis
  proof (cases "x = a")
    case True
    have "heap_remove key a s = Some (True, set_prev a nullptr ?s)"
      using guard root n d(8,11) True by (simp add: heap_remove_def)
    moreover have "heap_wf key (set_prev a nullptr ?s) t' \<and> set_tree t' = set_tree t - {a}
        \<and> h_size (set_prev a nullptr ?s) = h_size s - 1"
      by (rule heap_remove_wf [OF wf a n _ mset [unfolded True] d(6,7)]) (use d(9,10) in simp_all)
    ultimately show ?thesis by blast
  next
    case False
    then have "a \<in> set_tree t'" using a d(3) by auto
    from find_node [OF this] obtain c l r where t': "t' = plug c (Node l a r)" by blast
    note run = heap_remove_run [OF guard root n d(8) False d(11) d(9,5,4) [unfolded t']]
    have rep': "tree_rep ?s (plug c (Node l a r))" using d(9) t' by simp
    have out: "h_prev s' z = h_prev s z"
      if "\<forall>z. z \<notin> set_tree (plug c (Node l x r)) \<longrightarrow> h_prev s' z = h_prev ?s z" "z \<notin> set_tree t" for s' z
      using that d(3,10) t' by (auto simp: set_plug)
    have ms: "mset_tree t = add_mset a (mset_tree u)" if "mset_tree u = add_mset x (mset_tree l + mset_tree r) + ctx_mset c" for u
      using mset t' that by (simp add: mset_plug)
    have ord: "ctx_ord key c" "heap_ord key l" "heap_ord key r" "\<forall>y \<in> set_tree (Node l a r). lower_bound key c y"
      "\<forall>y \<in> set_tree l \<union> set_tree r. key a \<le> key y"
      using d(6) t' by (auto simp: heap_plug)
    show ?thesis
    proof (cases "\<exists>b. ctx_par c = Some b \<and> key x < key b")
      case True
      then obtain e b u c' where c: "c = (e, b, u) # c'" and less: "key x < key b"
        by (cases c rule: ctx_par.cases) auto
      have full: "full_ctx c"
        using percolate_full_ctx [of n t key _ x e b u c' l a r] d(2) pos_dirs [of "Suc n"] wf n t' c less
        by (auto simp: heap_wf_def)
      obtain l1 w r1 where r1: "t = Node l1 w r1" using d(3) by (cases t) auto
      moreover have "w = fst (snd (last c))"
        using plug_root [of c "Node l a r"] del_path_root [OF d(1,2) r1] t' c by fastforce
      ultimately have r1: "t = Node l1 (fst (snd (last c))) r1" by simp
      have "x \<in> set_tree t" using d(3) by simp
      from heap_ord_root [OF ho [unfolded r1] this [unfolded r1]]
      have le: "key (fst (snd (last c))) \<le> key x" .
      from percolate_replace [OF rep' [unfolded c] _ _ less full [unfolded c] le [unfolded c]] d(4,5) t' c
      obtain s' where s': "heap_up_percolate key x b (take_place x a (slot e b) ?s) = Some s'"
        "tree_rep s' (percolate key x c l r)" "h_size s' = n"
        "\<forall>z. z \<notin> set_tree (plug c (Node l x r)) \<longrightarrow> h_prev s' z = h_prev ?s z" by auto
      have "key x \<le> key y" if "y \<in> set_tree l \<union> set_tree r" for y
      proof -
        have "lower_bound key c y" using ord(4) that by simp
        then show ?thesis using less unfolding c by (auto intro: less_imp_le less_le_trans)
      qed
      then have "heap_ord key (Node l x r)" using ord(2,3) by simp
      then have "heap_ord key (percolate key x c l r)" using ord by (intro heap_percolate) auto
      moreover have "complete_from 1 n (percolate key x c l r)" 
        by (rule complete_percolate [OF d(7) [unfolded t']])
      ultimately have "heap_wf key (set_prev a nullptr s') (percolate key x c l r)
        \<and> set_tree (percolate key x c l r) = set_tree t - {a} \<and> h_size (set_prev a nullptr s') = h_size s - 1"
        using s'(2,3) out [OF s'(4)] ms [OF mset_percolate] by (intro heap_remove_wf [OF wf a n])
      moreover have "heap_remove key a s = Some (True, set_prev a nullptr s')"
        by (rule run(1) [OF _ less]) (use c s'(1) in simp_all)
      ultimately show ?thesis by blast
    next
      case False
      from sink_replace [OF rep' d(5,4,7) [unfolded t'], of key] obtain s' y where s':
        "heap_down_sink key x (ctx_slot c) (ctx_par c) (take_place x a (ctx_slot c) ?s) = Some s'"
        "get_loc (ctx_slot c) s' = Some y" "tree_rep (set_prev y (ctx_par c) s') (plug c (sink key x l r))"
        "h_size s' = n" "y \<in> insert x (set_tree l \<union> set_tree r)"
        "\<forall>z. z \<notin> insert x (set_tree l \<union> set_tree r) \<longrightarrow> h_prev s' z = h_prev ?s z" by auto
      let ?r = "set_prev y (ctx_par c) s'" and ?u = "plug c (sink key x l r)"
      have pr: "\<forall>z. z \<notin> set_tree (plug c (Node l x r)) \<longrightarrow> h_prev ?r z = h_prev ?s z"
        using s'(5,6) by (auto simp: set_plug)
      have hole: "complete_from (cpos c 1) n (Node l a r)" 
        by (rule complete_plug_hole [OF d(7) [unfolded t']])
      then have "heap_ord key (sink key x l r)"
        by (intro heap_sink [OF ord(2,3) _ hole]) (auto simp: complete_from_Leaf_iff)
      moreover have "lower_bound key c x"
      proof (cases c rule: ctx_par.cases)
        case (2 e b u c')
        then have "key b \<le> key x" "lower_bound key c' b" using False ord(1) by auto
        then show ?thesis using 2 lower_bound_mono by auto
      qed simp
      ultimately have "heap_ord key ?u" using ord by (auto simp: heap_plug set_sink)
      moreover have "complete_from 1 n ?u"
        by (rule complete_plug_swap [OF d(7) [unfolded t'] complete_sink])
      moreover have "mset_tree ?u = add_mset x (mset_tree l + mset_tree r) + ctx_mset c"
        by (simp add: mset_plug mset_sink)
      ultimately have "heap_wf key (set_prev a nullptr ?r) ?u \<and> set_tree ?u = set_tree t - {a}
          \<and> h_size (set_prev a nullptr ?r) = h_size s - 1"
        using s'(3,4) out [OF pr] ms by (intro heap_remove_wf [OF wf a n]) auto
      moreover have "heap_remove key a s = Some (True, set_prev a nullptr ?r)"
        by (rule run(2) [OF False s'(1,2)])
      ultimately show ?thesis by blast
    qed
  qed
qed

section \<open>The priority queue\<close>

definition heap_repr :: "('n \<Rightarrow> 'k::linorder) \<Rightarrow> 'n heap \<Rightarrow> 'n set \<Rightarrow> bool" where
  "heap_repr key s A \<longleftrightarrow> (\<exists>t. heap_wf key s t \<and> set_tree t = A)"

lemma heap_push_set:
  assumes "heap_repr key s A" "x \<notin> A"
  shows "\<exists>s'. heap_push key x s = Some s' \<and> heap_repr key s' (insert x A) \<and> h_size s' = Suc (h_size s)"
proof -
  obtain t where t: "heap_wf key s t" "set_tree t = A" using assms by (auto simp: heap_repr_def)
  then have "complete_from 1 (h_size s) t" by (simp add: heap_wf_def)
  then have "fits (dirs (Suc (h_size s))) t" by (rule complete_fits [OF _ pos_dirs]) simp_all
  from set_ins_path [OF this, of key x] heap_push_ok [OF t(1), of x] assms(2) t(2)
  show ?thesis by (auto simp: heap_repr_def)
qed

lemma heap_wf_top:
  assumes "heap_wf key s t"
  shows "case h_root s of None \<Rightarrow> t = Leaf | Some a \<Rightarrow> \<exists>l r. t = Node l a r \<and> (\<forall>x \<in> set_tree t. key a \<le> key x)"
  using assms by (cases t) (auto simp: heap_wf_def tree_rep_def)

lemma heap_wf_size: "heap_wf key s t \<Longrightarrow> h_size s = card (set_tree t)"
proof -
  assume wf: "heap_wf key s t"
  then have "size t = h_size s" by (simp add: heap_wf_def complete_size)
  moreover have "card (set_tree t) = size t"
    using wf distinct_card [of "inorder t"] by (simp add: heap_wf_def)
  ultimately show ?thesis by simp
qed

interpretation timers: priority_queue "heap_repr key" key h_root "heap_push key" "heap_pop key" "heap_remove key"
  for key :: "'n \<Rightarrow> 'k::linorder"
proof (unfold_locales, goal_cases)
  case (1 s A)
  then show ?case by (auto simp: heap_repr_def)
next
  case (2 s A)
  then show ?case using heap_wf_top by (fastforce simp: heap_repr_def split: option.splits)
next
  case (3 s A x)
  then show ?case using heap_push_set [of key s A x] by auto
next
  case (4 s A a)
  then obtain t where t: "heap_wf key s t" "set_tree t = A" by (auto simp: heap_repr_def)
  with 4 heap_wf_top [OF t(1)] obtain l r where "t = Node l a r" by auto
  from heap_pop_ok [OF t(1) this] t(2) show ?case by (auto simp: heap_repr_def)
next
  case (5 s A x)
  then obtain t where t: "heap_wf key s t" "set_tree t = A" by (auto simp: heap_repr_def)
  show ?case
  proof (cases "x \<in> A")
    case True
    with heap_remove_ok [OF t(1), of x] t(2) show ?thesis by (auto simp: heap_repr_def)
  next
    case False
    with heap_remove_absent [OF t(1), of x] t show ?thesis by (auto simp: heap_repr_def)
  qed
qed

lemma heap_repr_new [simp]: "heap_repr key heap_new {}"
  unfolding heap_repr_def by (rule exI [of _ Leaf]) simp

lemma heap_repr_size: "heap_repr key s A \<Longrightarrow> h_size s = card A"
  by (auto simp: heap_repr_def heap_wf_size)

lemma heap_of_list: "distinct xs \<Longrightarrow> \<exists>s. heap_repr key s (set xs)"
  using timers.run_refines [of key heap_new "{}" "map Push xs"]
  by (auto simp: pq_valid_pushes pq_spec_pushes)

section \<open>Properties\<close>

text \<open>
  C1: \<open>_M_push\<close> of a node that is not in the timer heap has no undefined behaviour, keeps the
  heap well formed (heap-ordered, complete, parent pointers right, \<open>__size_\<close> exact) and adds
  exactly that node.
\<close>

theorem heap_push_correct:
  assumes "heap_repr key s A" "x \<notin> A"
  shows "\<exists>s'. heap_push key x s = Some s' \<and> heap_repr key s' (insert x A) \<and> h_size s' = h_size s + 1"
  using heap_push_set [OF assms] by simp

theorem heap_push_correct_witness:
  "\<exists>s'. heap_push id (7::nat) heap_new = Some s' \<and> heap_repr id s' {7} \<and> h_size s' = 1"
proof -
  have "h_size (heap_new :: nat heap) = 0" by (simp add: heap_new_def)
  then show ?thesis using heap_push_correct [OF heap_repr_new, of "7::nat" id] by simp
qed

text \<open>
  C2: the root of a nonempty timer heap has a least key, and \<open>_M_pop\<close> removes exactly the root:
  the code that takes the last leaf, puts it at the root and sinks it along the smaller
  children dereferences no null pointer, terminates and restores the heap.
\<close>

theorem heap_pop_correct:
  assumes "heap_repr key s A" "A \<noteq> {}"
  shows "\<exists>a s'. h_root s = Some a \<and> a \<in> A \<and> (\<forall>x \<in> A. key a \<le> key x)
    \<and> heap_pop key s = Some s' \<and> heap_repr key s' (A - {a}) \<and> h_size s' = h_size s - 1"
proof -
  from timers.top_law [OF assms(1)] assms(2) obtain a where
    a: "h_root s = Some a" "a \<in> A" "\<forall>x \<in> A. key a \<le> key x" by (auto split: option.splits)
  from timers.pop_law [OF assms(1) a(1)] obtain s' where
    s': "heap_pop key s = Some s'" "heap_repr key s' (A - {a})" by auto
  have "h_size s' = h_size s - 1"
    using heap_repr_size [OF assms(1)] heap_repr_size [OF s'(2)] a(2) by simp
  with a s' show ?thesis by blast
qed

theorem heap_pop_correct_witness:
  "\<exists>s a s'. heap_repr id s {3, 5, 9 :: nat} \<and> h_root s = Some a \<and> heap_pop id s = Some s'
    \<and> heap_repr id s' ({3, 5, 9} - {a})"
proof -
  obtain s where s: "heap_repr id s {3, 5, 9 :: nat}" using heap_of_list [of "[3, 5, 9 :: nat]" id] by auto
  have "{3, 5, 9 :: nat} \<noteq> {}" by simp
  from heap_pop_correct [OF s this] obtain a s' where
    "h_root s = Some a" "heap_pop id s = Some s'" "heap_repr id s' ({3, 5, 9} - {a})" by meson
  with s show ?thesis by (intro exI conjI)
qed

text \<open>
  C3: \<open>_M_remove\<close> of a node takes exactly that node out of the heap and returns true, wherever
  the node stands; of a node that is not in the heap it returns false and changes nothing.
  In particular \<open>__heap_up_percolate\<close> never runs past the root.
\<close>

theorem heap_remove_correct:
  assumes "heap_repr key s A"
  shows "\<exists>s'. heap_remove key x s = Some (x \<in> A, s') \<and> heap_repr key s' (A - {x})
    \<and> (x \<notin> A \<longrightarrow> s' = s) \<and> h_prev s' x = nullptr"
proof -
  obtain s' where s': "heap_remove key x s = Some (x \<in> A, s')" "heap_repr key s' (A - {x})"
    using timers.rem_law [OF assms, of x] by auto
  moreover have "x \<notin> A \<Longrightarrow> s' = s"
    using assms heap_remove_absent [of key s _ x] s'(1) by (auto simp: heap_repr_def)
  moreover have "h_prev s' x = nullptr" using s'(2) by (auto simp: heap_repr_def heap_wf_def)
  ultimately show ?thesis by blast
qed

theorem heap_remove_correct_witness:
  "\<exists>s s'. heap_repr id s {3, 5, 9 :: nat} \<and> heap_remove id 5 s = Some (True, s') \<and> heap_repr id s' {3, 9}"
proof -
  obtain s where s: "heap_repr id s {3, 5, 9 :: nat}" using heap_of_list [of "[3, 5, 9 :: nat]" id] by auto
  have "{3, 5, 9} - {5 :: nat} = {3, 9}" by auto
  with heap_remove_correct [OF s, of 5] s show ?thesis by auto
qed

text \<open>
  timers pushed in any order and then taken from the root one by one come out exactly once
  each, by increasing deadline.
\<close>

theorem heap_sorts_timers:
  assumes "distinct xs"
  shows "\<exists>s ys. pq_run (heap_push key) (heap_remove key) (map Push xs) heap_new = Some ([], s)
    \<and> pq_drain h_root (heap_pop key) (length xs) s = Some ys
    \<and> set ys = set xs \<and> distinct ys \<and> sorted (map key ys)"
  using timers.sort_nodes [OF heap_repr_new assms] .

theorem heap_sorts_timers_witness:
  "\<exists>s ys. pq_run (heap_push id) (heap_remove id) (map Push [5, 2, 8 :: nat]) heap_new = Some ([], s)
    \<and> pq_drain h_root (heap_pop id) 3 s = Some ys \<and> set ys = {5, 2, 8} \<and> sorted ys"
proof -
  have "distinct [5, 2, 8 :: nat]" by simp
  from heap_sorts_timers [OF this, of id] show ?thesis
    by (simp only: list.simps(3) list.set length_Cons list.size list.map id_apply numeral_3_eq_3)
      (auto simp: comp_def)
qed



end
