(* ===== verification/Stop_Source.thy ===== *)
theory Stop_Source
  imports Prelude
begin

text \<open>
  \<open>__stop_inplace.hpp\<close>: a stop source with an intrusive list of callbacks under a one-byte
  spin lock. The model is a step relation: every thread has a program counter into
  \<open>_M_request_stop\<close>, the constructor of \<open>__stop_callback\<close> (\<open>_M_register_callback\<close>) or its destructor
  (\<open>_M_remove_callback\<close>), and a step is one access to the atomic \<open>__state_\<close>, one access to
  \<open>__callback_completed_\<close>, one call of a callback, or the plain code between two of these, which
  the code runs with the lock held. Memory is sequentially consistent. A weak
  compare-exchange may fail spuriously.

  Two auxiliary fields record what the code does not store: the lifetime \<open>life\<close> of a callback
  object and the phase \<open>ph\<close> of its execution; the list \<open>ran\<close> logs the calls of \<open>_M_execute\<close>.
  No step of the code reads \<open>ph\<close> or \<open>ran\<close>; \<open>life\<close> only says when a client may construct or
  destroy an object.
\<close>

section \<open>Back-off\<close>

datatype backoff = Pause | Yield

definition yield_threshold :: u32 where "yield_threshold = 20"

definition pause_try :: "u32 \<Rightarrow> backoff \<times> u32" where
  "pause_try n =
     (if n < yield_threshold then (Pause, n + 1)
      else (let c = n + 1 in (Yield, if c = 0 then yield_threshold else c)))"

fun pause_run :: "nat \<Rightarrow> u32 \<Rightarrow> backoff list" where
  "pause_run 0 k = []"
| "pause_run (Suc n) k = (case pause_try k of (b, c) \<Rightarrow> b # pause_run n c)"

section \<open>State\<close>

text \<open>What a \<open>__stop_cb_base **\<close> points to.\<close>

datatype 'c slot = Head | NextOf 'c

datatype life = Unborn | Constructing | Alive | Destroying | Dead
datatype phase = Fresh | Pending | Linked | Taken | Ran | Done | Inline | InlineRan | Unlinked

record 'c stop_mem =
  st_state :: u8
  st_callback :: "'c ptr"
  st_notify :: bool
  cb_source :: "('c, bool) field"
  cb_next :: "('c, 'c ptr) field"
  cb_prev :: "('c, 'c slot ptr) field"
  cb_completed :: "('c, bool) field"
  life :: "'c \<Rightarrow> life"
  ph :: "'c \<Rightarrow> phase"
  ran :: "'c list"

definition none_flag :: u8 where "none_flag = 0"
definition stop_requested_flag :: u8 where "stop_requested_flag = 1"
definition locked_flag :: u8 where "locked_flag = 2"

definition stop_new :: "'c stop_mem" where
  "stop_new = \<lparr>st_state = none_flag, st_callback = nullptr, st_notify = False, cb_source = (\<lambda>_. False),
     cb_next = (\<lambda>_. nullptr), cb_prev = (\<lambda>_. nullptr), cb_completed = (\<lambda>_. False),
     life = (\<lambda>_. Unborn), ph = (\<lambda>_. Fresh), ran = []\<rparr>"

definition stop_requested :: "'c stop_mem \<Rightarrow> bool" where
  "stop_requested m \<longleftrightarrow> st_state m AND stop_requested_flag \<noteq> 0"

text \<open>The assertions of the destructor \<open>~__stop_source\<close>.\<close>

definition stop_destroy :: "'c stop_mem \<Rightarrow> unit ub" where
  "stop_destroy m = do {
     assert_c (st_state m AND locked_flag = 0);
     assert_c (st_callback m = nullptr)
   }"

fun get_slot :: "'c slot \<Rightarrow> 'c stop_mem \<Rightarrow> 'c ptr" where
  "get_slot Head m = st_callback m"
| "get_slot (NextOf c) m = cb_next m c"

fun set_slot :: "'c slot \<Rightarrow> 'c ptr \<Rightarrow> 'c stop_mem \<Rightarrow> 'c stop_mem" where
  "set_slot Head v m = m\<lparr>st_callback := v\<rparr>"
| "set_slot (NextOf c) v m = m\<lparr>cb_next := (cb_next m)(c := v)\<rparr>"

section \<open>The plain code under the lock\<close>

text \<open>\<open>_M_try_push_front_callback\<close> between lock and unlock.\<close>

definition link_cb :: "'c \<Rightarrow> 'c stop_mem \<Rightarrow> 'c stop_mem" where
  "link_cb c m =
     (let m1 = m\<lparr>cb_next := (cb_next m)(c := st_callback m)\<rparr>;
          m2 = m1\<lparr>cb_prev := (cb_prev m1)(c := Some Head)\<rparr>;
          m3 = (case st_callback m2 of None \<Rightarrow> m2
                | Some d \<Rightarrow> m2\<lparr>cb_prev := (cb_prev m2)(d := Some (NextOf c))\<rparr>);
          m4 = m3\<lparr>st_callback := Some c\<rparr>
      in m4\<lparr>ph := (ph m4)(c := Linked)\<rparr>)"

text \<open>The head of the loop of \<open>_M_request_stop\<close>: take the first callback off the list.\<close>

definition take_cb :: "'c \<Rightarrow> 'c stop_mem \<Rightarrow> 'c stop_mem" where
  "take_cb c m =
     (let m1 = m\<lparr>cb_prev := (cb_prev m)(c := nullptr)\<rparr>;
          m2 = m1\<lparr>st_callback := cb_next m1 c\<rparr>;
          m3 = (case st_callback m2 of None \<Rightarrow> m2
                | Some d \<Rightarrow> m2\<lparr>cb_prev := (cb_prev m2)(d := Some Head)\<rparr>)
      in m3\<lparr>ph := (ph m3)(c := Taken)\<rparr>)"

text \<open>The first branch of \<open>_M_remove_callback\<close>; \<open>sl\<close> is the value of \<open>__prev_\<close>.\<close>

definition unlink_cb :: "'c \<Rightarrow> 'c slot \<Rightarrow> 'c stop_mem \<Rightarrow> 'c stop_mem" where
  "unlink_cb c sl m =
     (let m1 = set_slot sl (cb_next m c) m;
          m2 = (case cb_next m1 c of None \<Rightarrow> m1
                | Some d \<Rightarrow> m1\<lparr>cb_prev := (cb_prev m1)(d := cb_prev m1 c)\<rparr>)
      in m2\<lparr>ph := (ph m2)(c := Unlinked)\<rparr>)"

section \<open>Steps of one thread\<close>

datatype 'c pc =
    Idle
  | Req_Load | Req_Cas | Req_Notify | Req_Loop | Req_Release 'c | Req_Exec 'c | Req_Complete 'c
  | Req_Lock_Load | Req_Lock_Cas u8 | Req_Final | Req_Ret bool
  | Reg_Load 'c | Reg_Cas 'c | Reg_Link 'c | Reg_Release 'c | Reg_Fail 'c | Reg_Exec 'c | Reg_Ret 'c
  | Rem_Load 'c | Rem_Cas 'c u8 | Rem_Unlink 'c u8 | Rem_Release 'c u8 | Rem_Release_Wait 'c u8 bool
  | Rem_Wait 'c | Rem_Ret 'c

text \<open>
  \<open>_M_try_lock_unless_stop_requested\<close> after a load or a failed exchange: return false, go for
  the exchange (whose expected value is then \<open>__none_flag_\<close>), or spin.
\<close>

definition try_next :: "u8 \<Rightarrow> 'c pc \<Rightarrow> 'c pc \<Rightarrow> 'c pc \<Rightarrow> 'c pc" where
  "try_next prev fail cas spin =
     (if prev AND stop_requested_flag \<noteq> 0 then fail else if prev = none_flag then cas else spin)"

text \<open>\<open>_M_lock\<close> after a load or a failed exchange.\<close>

definition lock_next :: "u8 \<Rightarrow> (u8 \<Rightarrow> 'c pc) \<Rightarrow> 'c pc \<Rightarrow> 'c pc" where
  "lock_next prev cas spin = (if prev AND locked_flag \<noteq> 0 then spin else cas prev)"

fun tstep :: "'c pc \<Rightarrow> 'c stop_mem \<Rightarrow> ('c pc \<times> 'c stop_mem) list" where
  "tstep Idle m = []"
\<comment> \<open>\<open>_M_request_stop\<close>\<close>
| "tstep Req_Load m = [(try_next (st_state m) (Req_Ret True) Req_Cas Req_Load, m)]"
| "tstep Req_Cas m =
     (try_next (st_state m) (Req_Ret True) Req_Cas Req_Load, m) #
     (if st_state m = none_flag
      then [(Req_Notify, m\<lparr>st_state := locked_flag OR stop_requested_flag\<rparr>)] else [])"
| "tstep Req_Notify m = [(Req_Loop, m\<lparr>st_notify := True\<rparr>)]"
| "tstep Req_Loop m = (case st_callback m of None \<Rightarrow> [(Req_Final, m)] | Some c \<Rightarrow> [(Req_Release c, take_cb c m)])"
| "tstep (Req_Release c) m = [(Req_Exec c, m\<lparr>st_state := stop_requested_flag\<rparr>)]"
| "tstep (Req_Exec c) m = [(Req_Complete c, m\<lparr>ran := c # ran m, ph := (ph m)(c := Ran)\<rparr>)]"
| "tstep (Req_Complete c) m =
     [(Req_Lock_Load, m\<lparr>cb_completed := (cb_completed m)(c := True), ph := (ph m)(c := Done)\<rparr>)]"
| "tstep Req_Lock_Load m = [(lock_next (st_state m) Req_Lock_Cas Req_Lock_Load, m)]"
| "tstep (Req_Lock_Cas prev) m =
     (lock_next (st_state m) Req_Lock_Cas Req_Lock_Load, m) #
     (if st_state m = prev then [(Req_Loop, m\<lparr>st_state := prev OR locked_flag\<rparr>)] else [])"
| "tstep Req_Final m = [(Req_Ret False, m\<lparr>st_state := stop_requested_flag\<rparr>)]"
| "tstep (Req_Ret b) m = [(Idle, m)]"
\<comment> \<open>the constructor of \<open>__stop_callback\<close>\<close>
| "tstep (Reg_Load c) m = [(try_next (st_state m) (Reg_Fail c) (Reg_Cas c) (Reg_Load c), m)]"
| "tstep (Reg_Cas c) m =
     (try_next (st_state m) (Reg_Fail c) (Reg_Cas c) (Reg_Load c), m) #
     (if st_state m = none_flag then [(Reg_Link c, m\<lparr>st_state := locked_flag\<rparr>)] else [])"
| "tstep (Reg_Link c) m = [(Reg_Release c, link_cb c m)]"
| "tstep (Reg_Release c) m = [(Reg_Ret c, m\<lparr>st_state := none_flag\<rparr>)]"
| "tstep (Reg_Fail c) m = [(Reg_Exec c, m\<lparr>cb_source := (cb_source m)(c := False), ph := (ph m)(c := Inline)\<rparr>)]"
| "tstep (Reg_Exec c) m = [(Reg_Ret c, m\<lparr>ran := c # ran m, ph := (ph m)(c := InlineRan)\<rparr>)]"
| "tstep (Reg_Ret c) m = [(Idle, m\<lparr>life := (life m)(c := Alive)\<rparr>)]"
\<comment> \<open>the destructor of \<open>__stop_callback\<close>\<close>
| "tstep (Rem_Load c) m = [(lock_next (st_state m) (Rem_Cas c) (Rem_Load c), m)]"
| "tstep (Rem_Cas c prev) m =
     (lock_next (st_state m) (Rem_Cas c) (Rem_Load c), m) #
     (if st_state m = prev then [(Rem_Unlink c prev, m\<lparr>st_state := prev OR locked_flag\<rparr>)] else [])"
| "tstep (Rem_Unlink c prev) m =
     (case cb_prev m c of None \<Rightarrow> [(Rem_Release_Wait c prev (st_notify m), m)]
      | Some sl \<Rightarrow> [(Rem_Release c prev, unlink_cb c sl m)])"
| "tstep (Rem_Release c prev) m = [(Rem_Ret c, m\<lparr>st_state := prev\<rparr>)]"
| "tstep (Rem_Release_Wait c prev notify) m =
     [(if notify then Rem_Wait c else Rem_Ret c, m\<lparr>st_state := prev\<rparr>)]"
| "tstep (Rem_Wait c) m = [(if cb_completed m c then Rem_Ret c else Rem_Wait c, m)]"
| "tstep (Rem_Ret c) m = [(Idle, m\<lparr>life := (life m)(c := Dead)\<rparr>)]"

text \<open>
  What a client thread may start: a stop request, the construction of a callback object on this
  source, the destruction of one that is alive.
\<close>

definition construct_cb :: "'c \<Rightarrow> 'c stop_mem \<Rightarrow> 'c stop_mem" where
  "construct_cb c m = m\<lparr>cb_source := (cb_source m)(c := True), cb_next := (cb_next m)(c := nullptr),
     cb_prev := (cb_prev m)(c := nullptr), cb_completed := (cb_completed m)(c := False),
     life := (life m)(c := Constructing), ph := (ph m)(c := Pending)\<rparr>"

definition destroy_cb :: "'c \<Rightarrow> 'c stop_mem \<Rightarrow> 'c pc \<times> 'c stop_mem" where
  "destroy_cb c m = (if cb_source m c then Rem_Load c else Rem_Ret c, m\<lparr>life := (life m)(c := Destroying)\<rparr>)"

section \<open>Steps of the system\<close>

type_synonym ('t, 'c) sys = "('t \<Rightarrow> 'c pc) \<times> 'c stop_mem"

inductive stop_step :: "('t, 'c) sys \<Rightarrow> ('t, 'c) sys \<Rightarrow> bool" where
  run: "(p, m') \<in> set (tstep (T t) m) \<Longrightarrow> stop_step (T, m) (T(t := p), m')"
| request: "T t = Idle \<Longrightarrow> stop_step (T, m) (T(t := Req_Load), m)"
| construct: "T t = Idle \<Longrightarrow> life m c = Unborn \<Longrightarrow> stop_step (T, m) (T(t := Reg_Load c), construct_cb c m)"
| destroy: "T t = Idle \<Longrightarrow> life m c = Alive \<Longrightarrow> stop_step (T, m) (T(t := fst (destroy_cb c m)), snd (destroy_cb c m))"

inductive stop_reachable :: "('t, 'c) sys \<Rightarrow> bool" where
  init: "stop_reachable (\<lambda>_. Idle, stop_new)"
| step: "stop_reachable s \<Longrightarrow> stop_step s s' \<Longrightarrow> stop_reachable s'"

inductive_cases stop_stepE: "stop_step (T, m) s'"

section \<open>The lock\<close>

text \<open>Threads between a successful exchange and the store that releases the lock, and the value of \<open>__state_\<close> meanwhile.\<close>

fun holds :: "'c pc \<Rightarrow> u8 option" where
  "holds Req_Notify = Some 3" | "holds Req_Loop = Some 3" | "holds (Req_Release c) = Some 3"
| "holds Req_Final = Some 3"
| "holds (Reg_Link c) = Some 2" | "holds (Reg_Release c) = Some 2"
| "holds (Rem_Unlink c prev) = Some (prev OR 2)" | "holds (Rem_Release c prev) = Some (prev OR 2)"
| "holds (Rem_Release_Wait c prev n) = Some (prev OR 2)"
| "holds _ = None"

text \<open>The thread whose request set the stop flag, until it returns.\<close>

fun winner :: "'c pc \<Rightarrow> bool" where
  "winner Req_Notify = True" | "winner Req_Loop = True" | "winner (Req_Release c) = True"
| "winner (Req_Exec c) = True" | "winner (Req_Complete c) = True" | "winner Req_Lock_Load = True"
| "winner (Req_Lock_Cas prev) = True" | "winner Req_Final = True"
| "winner _ = False"

text \<open>The saved lock word in a program counter is that of a free lock.\<close>

fun saved_ok :: "'c pc \<Rightarrow> bool" where
  "saved_ok (Req_Lock_Cas prev) = (prev = 1)"
| "saved_ok (Rem_Cas c prev) = (prev = 0 \<or> prev = 1)"
| "saved_ok (Rem_Unlink c prev) = (prev = 0 \<or> prev = 1)"
| "saved_ok (Rem_Release c prev) = (prev = 0 \<or> prev = 1)"
| "saved_ok (Rem_Release_Wait c prev n) = (prev = 0 \<or> prev = 1)"
| "saved_ok _ = True"

definition flag_set :: "u8 \<Rightarrow> bool" where
  "flag_set w \<longleftrightarrow> w = 1 \<or> w = 3"

definition holder_word :: "('t \<Rightarrow> 'c pc) \<Rightarrow> u8 \<Rightarrow> bool" where
  "holder_word T w \<longleftrightarrow> (\<forall>t v. holds (T t) = Some v \<longrightarrow> w = v)"

definition one_holder :: "('t \<Rightarrow> 'c pc) \<Rightarrow> bool" where
  "one_holder T \<longleftrightarrow> (\<forall>t u. holds (T t) \<noteq> None \<longrightarrow> holds (T u) \<noteq> None \<longrightarrow> t = u)"

definition free_word :: "('t \<Rightarrow> 'c pc) \<Rightarrow> u8 \<Rightarrow> bool" where
  "free_word T w \<longleftrightarrow> w = 0 \<or> w = 1 \<or> (\<exists>t. holds (T t) \<noteq> None)"

definition winner_flag :: "('t \<Rightarrow> 'c pc) \<Rightarrow> u8 \<Rightarrow> bool" where
  "winner_flag T w \<longleftrightarrow> (\<forall>t. winner (T t) \<longrightarrow> flag_set w)"

definition one_winner :: "('t \<Rightarrow> 'c pc) \<Rightarrow> bool" where
  "one_winner T \<longleftrightarrow> (\<forall>t u. winner (T t) \<longrightarrow> winner (T u) \<longrightarrow> t = u)"

definition lock_inv :: "('t, 'c) sys \<Rightarrow> bool" where
  "lock_inv s \<longleftrightarrow> holder_word (fst s) (st_state (snd s)) \<and> one_holder (fst s)
     \<and> free_word (fst s) (st_state (snd s)) \<and> (\<forall>t. saved_ok (fst s t))
     \<and> winner_flag (fst s) (st_state (snd s)) \<and> one_winner (fst s)"

lemmas flag_defs = none_flag_def stop_requested_flag_def locked_flag_def

lemma flag_word_simps [simp]:
  "(0 :: u8) OR 2 = 2" "(1 :: u8) OR 2 = 3" "(2 :: u8) OR 1 = 3" "(0::u8) AND 1 = 0" "(0::u8) AND 2 = 0"
  "(1::u8) AND 1 = 1" "(1::u8) AND 2 = 0" "(2::u8) AND 1 = 0" "(2::u8) AND 2 = 2" "(3::u8) AND 1 = 1" "(3::u8) AND 2 = 2"
  "flag_set 1" "flag_set 3" "\<not> flag_set 0" "\<not> flag_set 2"
  by (simp_all add: flag_set_def)

lemma lock_invI:
  assumes "\<And>t w. holds (T t) = Some w \<Longrightarrow> st_state m = w"
    and "\<And>t u. holds (T t) \<noteq> None \<Longrightarrow> holds (T u) \<noteq> None \<Longrightarrow> t = u"
    and "st_state m = 0 \<or> st_state m = 1 \<or> (\<exists>t. holds (T t) \<noteq> None)"
    and "\<And>t. saved_ok (T t)" "\<And>t. winner (T t) \<Longrightarrow> flag_set (st_state m)"
    and "\<And>t u. winner (T t) \<Longrightarrow> winner (T u) \<Longrightarrow> t = u"
  shows "lock_inv (T, m)"
proof -
  have "holder_word T (st_state m)" unfolding holder_word_def using assms(1) by blast
  moreover have "one_holder T" unfolding one_holder_def using assms(2) by blast
  moreover have "free_word T (st_state m)" unfolding free_word_def using assms(3) .
  moreover have "winner_flag T (st_state m)" unfolding winner_flag_def using assms(5) by blast
  moreover have "one_winner T" unfolding one_winner_def using assms(6) by blast
  ultimately show ?thesis using assms(4) by (simp add: lock_inv_def)
qed

lemma lock_invD:
  assumes "lock_inv (T, m)"
  shows "holds (T t) = Some w \<Longrightarrow> st_state m = w" "holds (T t) \<noteq> None \<Longrightarrow> holds (T u) \<noteq> None \<Longrightarrow> t = u"
    "st_state m = 0 \<or> st_state m = 1 \<or> (\<exists>t. holds (T t) \<noteq> None)" "saved_ok (T t)"
    "winner (T t) \<Longrightarrow> flag_set (st_state m)" "winner (T t) \<Longrightarrow> winner (T u) \<Longrightarrow> t = u"
proof -
  have c: "holder_word T (st_state m)" "one_holder T" "free_word T (st_state m)" "saved_ok (T t)"
    "winner_flag T (st_state m)" "one_winner T"
    using assms by (simp_all add: lock_inv_def)
  show "holds (T t) = Some w \<Longrightarrow> st_state m = w" using c(1) unfolding holder_word_def by blast
  show "holds (T t) \<noteq> None \<Longrightarrow> holds (T u) \<noteq> None \<Longrightarrow> t = u" using c(2) unfolding one_holder_def by blast
  show "st_state m = 0 \<or> st_state m = 1 \<or> (\<exists>t. holds (T t) \<noteq> None)" using c(3) unfolding free_word_def .
  show "saved_ok (T t)" by (rule c(4))
  show "winner (T t) \<Longrightarrow> flag_set (st_state m)" using c(5) unfolding winner_flag_def by blast
  show "winner (T t) \<Longrightarrow> winner (T u) \<Longrightarrow> t = u" using c(6) unfolding one_winner_def by blast
qed

lemma saved_word: "(prev :: u8) = 0 \<or> prev = 1 \<Longrightarrow> prev OR 2 = 2 \<or> prev OR 2 = 3"
  by (elim disjE) simp_all

lemma holds_word: "holds p = Some w \<Longrightarrow> saved_ok p \<Longrightarrow> w = 2 \<or> w = 3"
  by (cases p rule: holds.cases) (simp_all, (drule saved_word, simp)+)

lemma lock_word: "lock_inv (T, m) \<Longrightarrow> st_state m = 0 \<or> st_state m = 1 \<or> st_state m = 2 \<or> st_state m = 3"
proof -
  assume inv: "lock_inv (T, m)"
  consider "st_state m = 0" | "st_state m = 1" | t w where "holds (T t) = Some w"
    using lock_invD(3) [OF inv] by (metis not_None_eq)
  then show ?thesis
  proof cases
    case 3
    from holds_word [OF 3 lock_invD(4) [OF inv]] lock_invD(1) [OF inv 3] show ?thesis by simp
  qed simp_all
qed

lemma lock_free:
  assumes "lock_inv (T, m)" "st_state m = 0 \<or> st_state m = 1"
  shows "holds (T u) = None"
proof (rule ccontr)
  assume "holds (T u) \<noteq> None"
  then obtain w where w: "holds (T u) = Some w" by blast
  with lock_invD(1) [OF assms(1) w] holds_word [OF w lock_invD(4) [OF assms(1)]] assms(2) show False by auto
qed

text \<open>The three kinds of steps: not about the lock, taking it, releasing it.\<close>

lemma lock_keep:
  assumes inv: "lock_inv (T, m)" and "st_state m' = st_state m" "holds p = holds (T t)" "saved_ok p" "winner p \<Longrightarrow> winner (T t)"
  shows "lock_inv (T(t := p), m')"
proof -
  have H: "holds ((T(t := p)) u) = holds (T u)" for u using assms(3) by simp
  have W: "winner ((T(t := p)) u) \<Longrightarrow> winner (T u)" for u using assms(5) by (cases "u = t") simp_all
  show ?thesis
  proof (rule lock_invI)
    show "holds ((T(t := p)) u) = Some w \<Longrightarrow> st_state m' = w" for u w
      using lock_invD(1) [OF inv, of u w] unfolding H assms(2) .
    show "holds ((T(t := p)) u) \<noteq> None \<Longrightarrow> holds ((T(t := p)) v) \<noteq> None \<Longrightarrow> u = v" for u v
      using lock_invD(2) [OF inv, of u v] unfolding H .
    show "st_state m' = 0 \<or> st_state m' = 1 \<or> (\<exists>u. holds ((T(t := p)) u) \<noteq> None)"
      using lock_invD(3) [OF inv] unfolding H assms(2) .
    show "saved_ok ((T(t := p)) u)" for u using lock_invD(4) [OF inv, of u] assms(4) by simp
    show "winner ((T(t := p)) u) \<Longrightarrow> flag_set (st_state m')" for u
      using lock_invD(5) [OF inv W] unfolding assms(2) .
    show "winner ((T(t := p)) u) \<Longrightarrow> winner ((T(t := p)) v) \<Longrightarrow> u = v" for u v
      using lock_invD(6) [OF inv W W] .
  qed
qed

lemma lock_take:
  assumes inv: "lock_inv (T, m)" and w: "st_state m = 0 \<or> st_state m = 1" and p: "holds p = Some (st_state m')" "saved_ok p"
    and win: "winner p \<Longrightarrow> flag_set (st_state m') \<and> (winner (T t) \<or> st_state m = 0)"
    and flag: "flag_set (st_state m) \<Longrightarrow> flag_set (st_state m')"
  shows "lock_inv (T(t := p), m')"
proof -
  note free = lock_free [OF inv w]
  have W: "winner (T u) \<Longrightarrow> flag_set (st_state m) \<and> st_state m \<noteq> 0" for u
    using lock_invD(5) [OF inv, of u] by (auto simp: flag_set_def)
  show ?thesis
  proof (rule lock_invI)
    show "winner ((T(t := p)) u) \<Longrightarrow> winner ((T(t := p)) v) \<Longrightarrow> u = v" for u v
      using lock_invD(6) [OF inv] W win by (auto simp: fun_upd_apply split: if_splits)
    show "winner ((T(t := p)) u) \<Longrightarrow> flag_set (st_state m')" for u
      using W win flag by (cases "u = t") auto
  qed (use p free lock_invD(4) [OF inv] in \<open>auto split: if_splits\<close>)
qed

lemma lock_release:
  assumes inv: "lock_inv (T, m)" and t: "holds (T t) \<noteq> None" and p: "holds p = None" "saved_ok p"
    and w: "st_state m' = 0 \<or> st_state m' = 1"
    and win: "winner p \<Longrightarrow> winner (T t)" and flag: "flag_set (st_state m) \<Longrightarrow> flag_set (st_state m')"
  shows "lock_inv (T(t := p), m')"
proof -
  have none: "holds (T u) = None" if "u \<noteq> t" for u using lock_invD(2) [OF inv t, of u] that by (cases "holds (T u)") auto
  have W: "winner ((T(t := p)) u) \<Longrightarrow> winner (T u)" for u using win by (cases "u = t") simp_all
  show ?thesis
  proof (rule lock_invI)
    show "winner ((T(t := p)) u) \<Longrightarrow> winner ((T(t := p)) v) \<Longrightarrow> u = v" for u v
      using lock_invD(6) [OF inv] W by blast
    show "winner ((T(t := p)) u) \<Longrightarrow> flag_set (st_state m')" for u
      using W lock_invD(5) [OF inv] flag by blast
  qed (use p none w lock_invD(4) [OF inv] in \<open>auto split: if_splits\<close>)
qed

lemma cb_state_simps [simp]:
  "st_state (link_cb c m) = st_state m" "st_state (take_cb c m) = st_state m" "st_state (unlink_cb c sl m) = st_state m"
  "st_state (construct_cb c m) = st_state m" "st_state (snd (destroy_cb c m)) = st_state m"
  by (auto simp: link_cb_def take_cb_def unlink_cb_def construct_cb_def destroy_cb_def Let_def split: option.split)
    (cases sl; simp)+

text \<open>Every step of a thread is of one of the three kinds.\<close>

definition keeps :: "'c pc \<Rightarrow> u8 \<Rightarrow> 'c pc \<Rightarrow> u8 \<Rightarrow> bool" where
  "keeps q w p w' \<longleftrightarrow> w' = w \<and> holds p = holds q \<and> (winner p \<longrightarrow> winner q)"

definition takes :: "'c pc \<Rightarrow> u8 \<Rightarrow> 'c pc \<Rightarrow> u8 \<Rightarrow> bool" where
  "takes q w p w' \<longleftrightarrow> (w = 0 \<or> w = 1) \<and> holds p = Some w'
     \<and> (winner p \<longrightarrow> flag_set w' \<and> (winner q \<or> w = 0)) \<and> (flag_set w \<longrightarrow> flag_set w')"

definition releases :: "'c pc \<Rightarrow> u8 \<Rightarrow> 'c pc \<Rightarrow> u8 \<Rightarrow> bool" where
  "releases q w p w' \<longleftrightarrow> holds q \<noteq> None \<and> holds p = None \<and> (w' = 0 \<or> w' = 1)
     \<and> (winner p \<longrightarrow> winner q) \<and> (flag_set w \<longrightarrow> flag_set w')"

lemmas kind_defs = keeps_def takes_def releases_def try_next_def lock_next_def flag_defs

lemma tstep_kind:
  assumes "(p, m') \<in> set (tstep q m)" "saved_ok q" "\<And>w. holds q = Some w \<Longrightarrow> st_state m = w"
    and "st_state m = 0 \<or> st_state m = 1 \<or> st_state m = 2 \<or> st_state m = 3"
    and "winner q \<Longrightarrow> flag_set (st_state m)"
  shows "saved_ok p \<and> (keeps q (st_state m) p (st_state m') \<or> takes q (st_state m) p (st_state m')
    \<or> releases q (st_state m) p (st_state m'))"
proof (cases q)
  case Req_Lock_Load
  then show ?thesis
    using assms by (elim disjE) (auto simp: kind_defs split: if_splits option.splits)
next
  case (Req_Lock_Cas prev)
  then show ?thesis
    using assms by (elim disjE) (auto simp: kind_defs split: if_splits option.splits)
next
  case (Rem_Cas c prev)
  then show ?thesis
    using assms by (elim disjE) (auto simp: kind_defs split: if_splits option.splits)
next
  case (Rem_Unlink c prev)
  then show ?thesis
    using assms by (elim disjE) (auto simp: kind_defs split: if_splits option.splits)
next
  case (Rem_Release c prev)
  then show ?thesis
    using assms by (elim disjE) (auto simp: kind_defs split: if_splits option.splits)
next
  case (Rem_Release_Wait c prev n)
  then show ?thesis
    using assms by (elim disjE) (auto simp: kind_defs split: if_splits option.splits)
next
  case Req_Cas
  then show ?thesis
    using assms by (elim disjE) (auto simp: kind_defs split: if_splits option.splits)
next
  case (Reg_Cas c)
  then show ?thesis
    using assms by (elim disjE) (auto simp: kind_defs split: if_splits option.splits)
qed (use assms in \<open>auto simp: kind_defs split: if_splits option.splits\<close>)

lemma lock_tstep:
  assumes inv: "lock_inv (T, m)" and "(p, m') \<in> set (tstep (T t) m)"
  shows "lock_inv (T(t := p), m')"
proof -
  from tstep_kind [OF assms(2) lock_invD(4) [OF inv] lock_invD(1) [OF inv] lock_word [OF inv]
    lock_invD(5) [OF inv]]
  have "saved_ok p" and "keeps (T t) (st_state m) p (st_state m') \<or> takes (T t) (st_state m) p (st_state m')
    \<or> releases (T t) (st_state m) p (st_state m')" by simp_all
  then show ?thesis
    using lock_keep [OF inv, of m' p t] lock_take [OF inv, of p m' t] lock_release [OF inv, of t p m']
    by (auto simp: keeps_def takes_def releases_def)
qed

lemma lock_step: "lock_inv s \<Longrightarrow> stop_step s s' \<Longrightarrow> lock_inv s'"
proof (erule stop_step.cases, goal_cases)
  case (1 p m' T t m)
  then show ?case using lock_tstep by simp
next
  case (2 T t m)
  then have "lock_inv (T(t := Req_Load), m)" by (intro lock_keep) simp_all
  with 2 show ?case by simp
next
  case (3 T t m c)
  then have "lock_inv (T(t := Reg_Load c), construct_cb c m)" by (intro lock_keep) simp_all
  with 3 show ?case by simp
next
  case (4 T t m c)
  then have "lock_inv (T(t := fst (destroy_cb c m)), snd (destroy_cb c m))"
    by (intro lock_keep) (simp_all add: destroy_cb_def split: if_splits)
  with 4 show ?case by simp
qed

lemma lock_reachable: "stop_reachable s \<Longrightarrow> lock_inv s"
proof (induction rule: stop_reachable.induct)
  case init
  show ?case by (rule lock_invI) (simp_all add: stop_new_def flag_defs)
qed (rule lock_step)

section \<open>The callback list\<close>

text \<open>From a slot the \<open>__next_\<close> links lead through \<open>cs\<close>, and every \<open>__prev_\<close> is the slot that points to its callback.\<close>

fun dseg :: "'c stop_mem \<Rightarrow> 'c slot \<Rightarrow> 'c list \<Rightarrow> bool" where
  "dseg m sl [] \<longleftrightarrow> get_slot sl m = nullptr"
| "dseg m sl (c # cs) \<longleftrightarrow> get_slot sl m = Some c \<and> cb_prev m c = Some sl \<and> dseg m (NextOf c) cs"

lemma dseg_cong:
  "get_slot sl m' = get_slot sl m \<Longrightarrow> (\<And>c. c \<in> set cs \<Longrightarrow> cb_next m' c = cb_next m c \<and> cb_prev m' c = cb_prev m c)
     \<Longrightarrow> dseg m' sl cs = dseg m sl cs"
  by (induction cs arbitrary: sl) auto

lemma link_cb_fields:
  "st_callback (link_cb c m) = Some c" "cb_next (link_cb c m) = (cb_next m)(c := st_callback m)"
  "cb_prev (link_cb c m) = (case st_callback m of None \<Rightarrow> (cb_prev m)(c := Some Head)
     | Some d \<Rightarrow> (cb_prev m)(c := Some Head, d := Some (NextOf c)))"
  "st_notify (link_cb c m) = st_notify m" "cb_source (link_cb c m) = cb_source m"
  "cb_completed (link_cb c m) = cb_completed m" "life (link_cb c m) = life m"
  "ph (link_cb c m) = (ph m)(c := Linked)" "ran (link_cb c m) = ran m"
  by (simp_all add: link_cb_def Let_def split: option.split)

lemma take_cb_fields:
  "st_callback (take_cb c m) = cb_next m c" "cb_next (take_cb c m) = cb_next m"
  "cb_prev (take_cb c m) = (case cb_next m c of None \<Rightarrow> (cb_prev m)(c := nullptr)
     | Some d \<Rightarrow> (cb_prev m)(c := nullptr, d := Some Head))"
  "st_notify (take_cb c m) = st_notify m" "cb_source (take_cb c m) = cb_source m"
  "cb_completed (take_cb c m) = cb_completed m" "life (take_cb c m) = life m"
  "ph (take_cb c m) = (ph m)(c := Taken)" "ran (take_cb c m) = ran m"
  by (simp_all add: take_cb_def Let_def split: option.split)

lemma set_slot_fields [simp]:
  "cb_prev (set_slot sl v m) = cb_prev m" "st_notify (set_slot sl v m) = st_notify m"
  "cb_source (set_slot sl v m) = cb_source m" "cb_completed (set_slot sl v m) = cb_completed m"
  "life (set_slot sl v m) = life m" "ph (set_slot sl v m) = ph m" "ran (set_slot sl v m) = ran m"
  by (cases sl; simp)+

lemma unlink_cb_fields:
  "st_notify (unlink_cb c sl m) = st_notify m" "cb_source (unlink_cb c sl m) = cb_source m"
  "cb_completed (unlink_cb c sl m) = cb_completed m" "life (unlink_cb c sl m) = life m"
  "ph (unlink_cb c sl m) = (ph m)(c := Unlinked)" "ran (unlink_cb c sl m) = ran m"
  by (simp_all add: unlink_cb_def Let_def split: option.split)

lemma dseg_link:
  assumes "dseg m Head cs" "distinct cs" "c \<notin> set cs"
  shows "dseg (link_cb c m) Head (c # cs)"
proof (cases cs)
  case Nil
  with assms show ?thesis by (auto simp: link_cb_fields)
next
  case (Cons d ds)
  with assms have d: "st_callback m = Some d" "c \<noteq> d" "d \<notin> set ds" "c \<notin> set ds" "dseg m (NextOf d) ds" by auto
  then have "dseg (link_cb c m) (NextOf d) ds"
    by (subst dseg_cong [of _ _ m]) (auto simp: link_cb_fields)
  with Cons d show ?thesis by (simp add: link_cb_fields)
qed

lemma dseg_take:
  assumes "dseg m Head (c # cs)" "distinct (c # cs)"
  shows "dseg (take_cb c m) Head cs"
proof (cases cs)
  case Nil
  with assms show ?thesis by (auto simp: take_cb_fields)
next
  case (Cons d ds)
  with assms have d: "cb_next m c = Some d" "c \<noteq> d" "d \<notin> set ds" "c \<notin> set ds" "dseg m (NextOf d) ds" by auto
  then have "dseg (take_cb c m) (NextOf d) ds"
    by (subst dseg_cong [of _ _ m]) (auto simp: take_cb_fields)
  with Cons d show ?thesis by (simp add: take_cb_fields)
qed

text \<open>Unlinking a callback of the list, wherever it stands.\<close>

lemma unlink_cb_links:
  assumes "sl \<noteq> NextOf c"
  shows "get_slot sl' (unlink_cb c sl m) = (if sl' = sl then cb_next m c else get_slot sl' m)"
    "cb_prev (unlink_cb c sl m) = (case cb_next m c of None \<Rightarrow> cb_prev m
      | Some d \<Rightarrow> (cb_prev m)(d := cb_prev m c))"
  using assms by (cases sl; cases sl'; auto simp: unlink_cb_def Let_def split: option.split)+

lemma dseg_tail: "dseg m sl (as @ c # cs) \<Longrightarrow> dseg m (NextOf c) cs"
  by (induction as arbitrary: sl) auto

lemma dseg_unlink:
  assumes "dseg m sl0 (as @ c # cs)" "distinct (as @ c # cs)" "case sl0 of Head \<Rightarrow> True | NextOf d \<Rightarrow> d \<notin> set (as @ c # cs)"
  defines "sl \<equiv> if as = [] then sl0 else NextOf (last as)"
  shows "cb_prev m c = Some sl \<and> dseg (unlink_cb c sl m) sl0 (as @ cs)"
  using assms(1-3) unfolding sl_def
proof (induction as arbitrary: sl0)
  case Nil
  have sl: "sl0 \<noteq> NextOf c" using Nil.prems(3) by auto
  note l = unlink_cb_links [OF sl]
  show ?case
  proof (cases cs)
    case Nil
    with \<open>dseg m sl0 ([] @ c # cs)\<close> show ?thesis by (simp add: l)
  next
    case (Cons d ds)
    with Nil.prems have d: "cb_next m c = Some d" "c \<noteq> d" "d \<notin> set ds" "c \<notin> set ds" "dseg m (NextOf d) ds"
      "cb_prev m c = Some sl0" "sl0 \<noteq> NextOf d" by auto
    have "cb_next (unlink_cb c sl0 m) x = cb_next m x" if "x \<in> set cs" for x
      using that Nil.prems(3) l(1) [of "NextOf x" m] by (auto split: slot.splits)
    then have "dseg (unlink_cb c sl0 m) (NextOf d) ds"
      using d Cons by (subst dseg_cong [of _ _ m]) (auto simp: l)
    with Cons d show ?thesis by (simp add: l)
  qed
next
  case (Cons a as)
  let ?sl = "if as = [] then NextOf a else NextOf (last as)"
  have "cb_prev m c = Some ?sl \<and> dseg (unlink_cb c ?sl m) (NextOf a) (as @ cs)"
    using Cons.IH [of "NextOf a"] Cons.prems by auto
  moreover have "?sl \<noteq> NextOf c" "?sl \<noteq> sl0" using Cons.prems last_in_set [of as] by (auto split: slot.splits)
  moreover have "cb_next m c \<noteq> Some a"
    using dseg_tail [OF Cons.prems(1) [folded append_Cons]] Cons.prems(2) by (cases cs) auto
  ultimately show ?case
    using Cons.prems by (auto simp: unlink_cb_links split: option.split)
qed

section \<open>The life of a callback\<close>

fun owner :: "'c pc \<Rightarrow> 'c option" where
  "owner (Reg_Load c) = Some c" | "owner (Reg_Cas c) = Some c" | "owner (Reg_Link c) = Some c"
| "owner (Reg_Release c) = Some c" | "owner (Reg_Fail c) = Some c" | "owner (Reg_Exec c) = Some c"
| "owner (Reg_Ret c) = Some c"
| "owner (Rem_Load c) = Some c" | "owner (Rem_Cas c prev) = Some c" | "owner (Rem_Unlink c prev) = Some c"
| "owner (Rem_Release c prev) = Some c" | "owner (Rem_Release_Wait c prev n) = Some c"
| "owner (Rem_Wait c) = Some c" | "owner (Rem_Ret c) = Some c"
| "owner _ = None"

text \<open>The callback that a stop request has taken off the list and not yet completed.\<close>

fun executes :: "'c pc \<Rightarrow> 'c option" where
  "executes (Req_Release c) = Some c" | "executes (Req_Exec c) = Some c" | "executes (Req_Complete c) = Some c"
| "executes _ = None"

definition fetched :: "phase \<Rightarrow> bool" where
  "fetched p \<longleftrightarrow> p = Taken \<or> p = Ran \<or> p = Done"

definition registered :: "phase \<Rightarrow> bool" where
  "registered p \<longleftrightarrow> p = Linked \<or> fetched p \<or> p = InlineRan"

definition over :: "phase \<Rightarrow> bool" where
  "over p \<longleftrightarrow> p = Unlinked \<or> p = Done \<or> p = InlineRan"

lemma phase_simps [simp]:
  "fetched Taken" "fetched Ran" "fetched Done" "\<not> fetched Fresh" "\<not> fetched Pending" "\<not> fetched Linked"
  "\<not> fetched Inline" "\<not> fetched InlineRan" "\<not> fetched Unlinked"
  "registered Linked" "registered Taken" "registered Ran" "registered Done" "registered InlineRan"
  "\<not> registered Fresh" "\<not> registered Pending" "\<not> registered Inline" "\<not> registered Unlinked"
  "over Unlinked" "over Done" "over InlineRan" "\<not> over Fresh" "\<not> over Pending" "\<not> over Linked"
  "\<not> over Taken" "\<not> over Ran" "\<not> over Inline"
  by (simp_all add: fetched_def registered_def over_def)

fun pc_ok :: "('c \<Rightarrow> life) \<Rightarrow> ('c \<Rightarrow> phase) \<Rightarrow> 'c pc \<Rightarrow> bool" where
  "pc_ok L P (Req_Release c) = (P c = Taken)"
| "pc_ok L P (Req_Exec c) = (P c = Taken)"
| "pc_ok L P (Req_Complete c) = (P c = Ran)"
| "pc_ok L P (Reg_Load c) = (L c = Constructing \<and> P c = Pending)"
| "pc_ok L P (Reg_Cas c) = (L c = Constructing \<and> P c = Pending)"
| "pc_ok L P (Reg_Link c) = (L c = Constructing \<and> P c = Pending)"
| "pc_ok L P (Reg_Release c) = (L c = Constructing \<and> P c = Linked)"
| "pc_ok L P (Reg_Fail c) = (L c = Constructing \<and> P c = Pending)"
| "pc_ok L P (Reg_Exec c) = (L c = Constructing \<and> P c = Inline)"
| "pc_ok L P (Reg_Ret c) = (L c = Constructing \<and> registered (P c))"
| "pc_ok L P (Rem_Load c) = (L c = Destroying \<and> (P c = Linked \<or> fetched (P c)))"
| "pc_ok L P (Rem_Cas c prev) = (L c = Destroying \<and> (P c = Linked \<or> fetched (P c)))"
| "pc_ok L P (Rem_Unlink c prev) = (L c = Destroying \<and> (P c = Linked \<or> fetched (P c)))"
| "pc_ok L P (Rem_Release c prev) = (L c = Destroying \<and> P c = Unlinked)"
| "pc_ok L P (Rem_Release_Wait c prev n) = (L c = Destroying \<and> n \<and> fetched (P c))"
| "pc_ok L P (Rem_Wait c) = (L c = Destroying \<and> fetched (P c))"
| "pc_ok L P (Rem_Ret c) = (L c = Destroying \<and> over (P c))"
| "pc_ok L P _ = True"

definition cb_inv :: "'c stop_mem \<Rightarrow> 'c \<Rightarrow> bool" where
  "cb_inv m c \<longleftrightarrow>
     (c \<in> set (ran m) \<longleftrightarrow> ph m c = Ran \<or> ph m c = Done \<or> ph m c = InlineRan)
   \<and> (cb_completed m c \<longleftrightarrow> ph m c = Done)
   \<and> (fetched (ph m c) \<longrightarrow> cb_prev m c = nullptr \<and> st_notify m)
   \<and> (life m c = Unborn \<longleftrightarrow> ph m c = Fresh)
   \<and> (life m c = Alive \<longrightarrow> registered (ph m c))
   \<and> (life m c = Dead \<longrightarrow> over (ph m c))
   \<and> (cb_source m c \<longleftrightarrow> ph m c = Pending \<or> ph m c = Linked \<or> fetched (ph m c) \<or> ph m c = Unlinked)"

definition list_inv :: "'c stop_mem \<Rightarrow> bool" where
  "list_inv m \<longleftrightarrow> (\<exists>cs. dseg m Head cs \<and> distinct cs \<and> (\<forall>c. ph m c = Linked \<longleftrightarrow> c \<in> set cs))"

definition one_owner :: "('t \<Rightarrow> 'c pc) \<Rightarrow> bool" where
  "one_owner T \<longleftrightarrow> (\<forall>t u c. owner (T t) = Some c \<longrightarrow> owner (T u) = Some c \<longrightarrow> t = u)"

definition exec_inv :: "('t \<Rightarrow> 'c pc) \<Rightarrow> ('c \<Rightarrow> phase) \<Rightarrow> bool" where
  "exec_inv T P \<longleftrightarrow> (\<forall>c. P c = Taken \<or> P c = Ran \<longrightarrow> (\<exists>t. executes (T t) = Some c))"

text \<open>Once the winning request has returned the list is empty for good.\<close>

definition quiet_inv :: "('t \<Rightarrow> 'c pc) \<Rightarrow> 'c stop_mem \<Rightarrow> bool" where
  "quiet_inv T m \<longleftrightarrow> (flag_set (st_state m) \<and> (\<forall>t. \<not> winner (T t)) \<longrightarrow> st_callback m = nullptr)
     \<and> (\<forall>t. T t = Req_Final \<longrightarrow> st_callback m = nullptr)
     \<and> (\<forall>t. winner (T t) \<longrightarrow> T t = Req_Notify \<or> st_notify m)"

definition data_inv :: "('t, 'c) sys \<Rightarrow> bool" where
  "data_inv s \<longleftrightarrow> list_inv (snd s) \<and> distinct (ran (snd s)) \<and> (\<forall>c. cb_inv (snd s) c)
     \<and> (\<forall>t. pc_ok (life (snd s)) (ph (snd s)) (fst s t)) \<and> one_owner (fst s)
     \<and> exec_inv (fst s) (ph (snd s)) \<and> quiet_inv (fst s) (snd s)"

lemma data_invD:
  assumes "data_inv (T, m)"
  shows "list_inv m" "distinct (ran m)" "cb_inv m c" "pc_ok (life m) (ph m) (T t)" "one_owner T" "exec_inv T (ph m)"
    "quiet_inv T m"
  using assms by (simp_all add: data_inv_def)

lemma one_ownerD: "one_owner T \<Longrightarrow> owner (T t) = Some c \<Longrightarrow> u \<noteq> t \<Longrightarrow> owner (T u) \<noteq> Some c"
  unfolding one_owner_def by blast

lemma one_owner_upd:
  assumes "one_owner T" "\<And>c. owner p = Some c \<Longrightarrow> owner (T t) = Some c \<or> (\<forall>u. owner (T u) \<noteq> Some c)"
  shows "one_owner (T(t := p))"
  using assms unfolding one_owner_def by (auto simp: fun_upd_apply split: if_splits)

lemma exec_inv_upd:
  assumes "exec_inv T P"
    "\<And>c. P' c = Taken \<or> P' c = Ran \<Longrightarrow> executes p = Some c \<or> ((P c = Taken \<or> P c = Ran) \<and> executes (T t) \<noteq> Some c)"
  shows "exec_inv (T(t := p)) P'"
  unfolding exec_inv_def
proof (intro allI impI)
  fix c
  assume "P' c = Taken \<or> P' c = Ran"
  from assms(2) [OF this] show "\<exists>u. executes ((T(t := p)) u) = Some c"
  proof (elim disjE)
    assume "executes p = Some c"
    then show ?thesis by (intro exI [of _ t]) simp
  next
    assume a: "(P c = Taken \<or> P c = Ran) \<and> executes (T t) \<noteq> Some c"
    then obtain u where "executes (T u) = Some c" using assms(1) unfolding exec_inv_def by blast
    then show ?thesis using a by (intro exI [of _ u]) auto
  qed
qed

text \<open>A change at callback \<open>c\<close> does not concern a thread that works on another one.\<close>

lemma pc_ok_other:
  "pc_ok L P p \<Longrightarrow> owner p \<noteq> Some c \<Longrightarrow> executes p \<noteq> Some c \<Longrightarrow> pc_ok (L(c := x)) (P(c := y)) p"
  by (cases p) auto

lemma pc_ok_life: "pc_ok L P p \<Longrightarrow> owner p \<noteq> Some c \<Longrightarrow> pc_ok (L(c := x)) P p"
  by (cases p) auto

lemma pc_ok_executes: "pc_ok L P p \<Longrightarrow> executes p = Some c \<Longrightarrow> P c = Taken \<or> P c = Ran"
  by (cases p) auto

lemma pc_ok_owner: "pc_ok L P p \<Longrightarrow> owner p = Some c \<Longrightarrow> L c = Constructing \<or> L c = Destroying"
  by (cases p) auto

lemma executes_winner: "executes p = Some c \<Longrightarrow> winner p"
  by (cases p) auto

lemma data_updI:
  assumes "list_inv m'" "distinct (ran m')" "\<And>c. cb_inv m' c" "pc_ok (life m') (ph m') p"
    and "\<And>u. u \<noteq> t \<Longrightarrow> pc_ok (life m') (ph m') (T u)"
    and "one_owner (T(t := p))" "exec_inv (T(t := p)) (ph m')" "quiet_inv (T(t := p)) m'"
  shows "data_inv (T(t := p), m')"
  using assms by (simp add: data_inv_def)

lemma quiet_notify: "quiet_inv T m \<Longrightarrow> winner (T t) \<Longrightarrow> T t \<noteq> Req_Notify \<Longrightarrow> st_notify m"
  unfolding quiet_inv_def by blast

lemma quiet_final: "quiet_inv T m \<Longrightarrow> T t = Req_Final \<Longrightarrow> st_callback m = nullptr"
  unfolding quiet_inv_def by blast

lemma quiet_over: "quiet_inv T m \<Longrightarrow> flag_set (st_state m) \<Longrightarrow> (\<And>t. \<not> winner (T t)) \<Longrightarrow> st_callback m = nullptr"
  unfolding quiet_inv_def by blast

lemma quiet_upd:
  assumes "quiet_inv T m" "st_callback m' = st_callback m"
    and "winner (T t) \<Longrightarrow> \<not> winner p \<Longrightarrow> T t = Req_Final" "flag_set (st_state m') \<Longrightarrow> flag_set (st_state m) \<or> winner p"
    and "p = Req_Final \<Longrightarrow> st_callback m = nullptr" "winner p \<Longrightarrow> p = Req_Notify \<or> st_notify m'" "st_notify m \<Longrightarrow> st_notify m'"
  shows "quiet_inv (T(t := p)) m'"
proof -
  have q: "flag_set (st_state m) \<Longrightarrow> (\<And>u. \<not> winner (T u)) \<Longrightarrow> st_callback m = nullptr"
    "\<And>u. T u = Req_Final \<Longrightarrow> st_callback m = nullptr"
    using assms(1) unfolding quiet_inv_def by blast+
  have "st_callback m = nullptr" if f: "flag_set (st_state m')" and n: "\<And>u. \<not> winner ((T(t := p)) u)"
  proof (cases "winner (T t)")
    case True
    with n [of t] assms(3) q(2) show ?thesis by simp
  next
    case False
    have "\<not> winner (T u)" for u using n [of u] False by (cases "u = t") simp_all
    moreover have "flag_set (st_state m)" using f n [of t] assms(4) by simp
    ultimately show ?thesis by (rule q(1) [rotated])
  qed
  moreover have "st_callback m = nullptr" if "(T(t := p)) u = Req_Final" for u
    using that assms(5) q(2) [of u] by (cases "u = t") simp_all
  moreover have "(T(t := p)) u = Req_Notify \<or> st_notify m'" if "winner ((T(t := p)) u)" for u
    using that assms(1,6,7) unfolding quiet_inv_def by (cases "u = t") auto
  ultimately show ?thesis unfolding quiet_inv_def assms(2) by blast
qed

lemma data_plain:
  assumes inv: "data_inv (T, m)"
    and same: "st_callback m' = st_callback m" "cb_next m' = cb_next m" "cb_prev m' = cb_prev m" "ph m' = ph m" "life m' = life m"
      "ran m' = ran m" "cb_completed m' = cb_completed m" "cb_source m' = cb_source m" "st_notify m \<Longrightarrow> st_notify m'"
    and p: "pc_ok (life m) (ph m) p" "owner p = owner (T t) \<or> owner p = None" "executes p = executes (T t)"
    and q: "winner (T t) \<Longrightarrow> \<not> winner p \<Longrightarrow> T t = Req_Final" "flag_set (st_state m') \<Longrightarrow> flag_set (st_state m) \<or> winner p"
      "p = Req_Final \<Longrightarrow> st_callback m = nullptr" "winner p \<Longrightarrow> p = Req_Notify \<or> st_notify m'"
  shows "data_inv (T(t := p), m')"
proof (rule data_updI)
  note d = data_invD [OF inv]
  have "dseg m' Head cs = dseg m Head cs" for cs by (rule dseg_cong) (simp_all add: same)
  then show "list_inv m'" using d(1) by (simp add: list_inv_def same)
  show "distinct (ran m')" using d(2) by (simp add: same)
  show "cb_inv m' c" for c using d(3) [of c] same(9) by (auto simp: cb_inv_def same)
  show "pc_ok (life m') (ph m') p" "pc_ok (life m') (ph m') (T u)" for u using p(1) d(4) by (simp_all add: same)
  show "one_owner (T(t := p))" by (rule one_owner_upd [OF d(5)]) (use p(2) in auto)
  show "exec_inv (T(t := p)) (ph m')"
    by (rule exec_inv_upd [OF d(6)]) (use p(3) in \<open>auto simp: same\<close>)
  show "quiet_inv (T(t := p)) m'" by (rule quiet_upd [OF d(7) same(1) q same(9)])
qed

text \<open>A step that changes the phase or the lifetime of callback \<open>c\<close> only.\<close>

lemma data_at:
  assumes inv: "data_inv (T, m)"
    and upd: "ph m' = (ph m)(c := y)" "life m' = (life m)(c := x)"
    and other: "\<And>u. u \<noteq> t \<Longrightarrow> owner (T u) = Some c \<or> executes (T u) = Some c \<Longrightarrow> pc_ok (life m') (ph m') (T u)"
    and l: "list_inv m'" and r: "distinct (ran m')" and cb: "\<And>c. cb_inv m' c" and p: "pc_ok (life m') (ph m') p"
    and own: "owner p = None \<or> owner p = owner (T t) \<or> owner p = Some c \<and> (\<forall>u. owner (T u) \<noteq> Some c)"
    and ex: "y = Taken \<or> y = Ran \<Longrightarrow> executes p = Some c \<or> ((ph m c = Taken \<or> ph m c = Ran) \<and> executes (T t) \<noteq> Some c)"
      "executes (T t) = None \<or> executes (T t) = Some c"
    and q: "quiet_inv (T(t := p)) m'"
  shows "data_inv (T(t := p), m')"
proof (rule data_updI [OF l r cb p])
  note d = data_invD [OF inv]
  show "pc_ok (life m') (ph m') (T u)" if "u \<noteq> t" for u
    using other [OF that] pc_ok_other [OF d(4) [of u], of c x y] upd by auto
  show "one_owner (T(t := p))" by (rule one_owner_upd [OF d(5)]) (use own in auto)
  show "exec_inv (T(t := p)) (ph m')"
  proof (rule exec_inv_upd [OF d(6)])
    fix b
    assume "ph m' b = Taken \<or> ph m' b = Ran"
    then show "executes p = Some b \<or> (ph m b = Taken \<or> ph m b = Ran) \<and> executes (T t) \<noteq> Some b"
      using ex upd(1) by (cases "b = c") auto
  qed
qed (rule q)

lemma quiet_holder:
  assumes lock: "lock_inv (T, m)" and q: "quiet_inv T m" and h: "holds (T t) \<noteq> None" and p: "p \<noteq> Req_Final"
    and n: "winner p \<Longrightarrow> p = Req_Notify \<or> st_notify m'" "st_notify m \<Longrightarrow> st_notify m'"
    and k: "st_state m' = st_state m" "flag_set (st_state m) \<Longrightarrow> \<not> winner p \<Longrightarrow> (\<And>u. \<not> winner (T u)) \<Longrightarrow> st_callback m' = nullptr"
    and w: "winner (T t) \<Longrightarrow> winner p"
  shows "quiet_inv (T(t := p)) m'"
proof -
  have "st_callback m' = nullptr" if f: "flag_set (st_state m')" and n: "\<And>u. \<not> winner ((T(t := p)) u)"
  proof (rule k(2))
    show "flag_set (st_state m)" "\<not> winner p" using f n [of t] k(1) by simp_all
    show "\<not> winner (T u)" for u using n [of u] n [of t] w by (cases "u = t") auto
  qed
  moreover have "(T(t := p)) u \<noteq> Req_Final" for u
  proof (cases "u = t")
    case False
    then have "holds (T u) = None" using lock_invD(2) [OF lock h, of u] by (cases "holds (T u)") auto
    with False show ?thesis by auto
  qed (use p in simp)
  moreover have "(T(t := p)) u = Req_Notify \<or> st_notify m'" if "winner ((T(t := p)) u)" for u
    using that n q unfolding quiet_inv_def by (cases "u = t") auto
  ultimately show ?thesis unfolding quiet_inv_def by blast
qed

lemma list_invE:
  assumes "list_inv m"
  obtains cs where "dseg m Head cs" "distinct cs" "\<And>c. ph m c = Linked \<longleftrightarrow> c \<in> set cs"
  using assms unfolding list_inv_def by blast

lemma list_invI: "dseg m Head cs \<Longrightarrow> distinct cs \<Longrightarrow> (\<And>c. ph m c = Linked \<longleftrightarrow> c \<in> set cs) \<Longrightarrow> list_inv m"
  unfolding list_inv_def by blast

text \<open>An unaltered list.\<close>

lemma list_inv_same:
  "list_inv m \<Longrightarrow> st_callback m' = st_callback m \<Longrightarrow> cb_next m' = cb_next m \<Longrightarrow> cb_prev m' = cb_prev m
    \<Longrightarrow> (\<And>c. ph m' c = Linked \<longleftrightarrow> ph m c = Linked) \<Longrightarrow> list_inv m'"
proof (erule list_invE)
  fix cs
  assume s: "st_callback m' = st_callback m" "cb_next m' = cb_next m" "cb_prev m' = cb_prev m"
    "\<And>c. ph m' c = Linked \<longleftrightarrow> ph m c = Linked"
    and cs: "dseg m Head cs" "distinct cs" "\<And>c. ph m c = Linked \<longleftrightarrow> c \<in> set cs"
  have "dseg m' Head cs" using cs(1) s(1-3) by (subst dseg_cong [of _ _ m]) simp_all
  then show "list_inv m'" by (rule list_invI [OF _ cs(2)]) (simp only: s(4) cs(3))
qed

lemma cb_inv_same:
  "cb_inv m b \<Longrightarrow> ph m' b = ph m b \<Longrightarrow> life m' b = life m b \<Longrightarrow> (b \<in> set (ran m') \<longleftrightarrow> b \<in> set (ran m))
    \<Longrightarrow> cb_completed m' b = cb_completed m b \<Longrightarrow> cb_source m' b = cb_source m b
    \<Longrightarrow> (fetched (ph m b) \<Longrightarrow> cb_prev m' b = cb_prev m b) \<Longrightarrow> (st_notify m \<Longrightarrow> st_notify m') \<Longrightarrow> cb_inv m' b"
  by (simp add: cb_inv_def)

lemma dseg_prev: "dseg m sl cs \<Longrightarrow> c \<in> set cs \<Longrightarrow> cb_prev m c \<noteq> nullptr"
  by (induction cs arbitrary: sl) auto

lemma linked_prev: "list_inv m \<Longrightarrow> ph m c = Linked \<Longrightarrow> cb_prev m c \<noteq> nullptr"
  by (erule list_invE, erule dseg_prev) simp

lemma null_unlinked:
  assumes "list_inv m" "st_callback m = nullptr"
  shows "ph m c \<noteq> Linked"
proof -
  obtain cs where cs: "dseg m Head cs" "distinct cs" "\<And>c. ph m c = Linked \<longleftrightarrow> c \<in> set cs"
    by (rule list_invE [OF assms(1)], rule that)
  have "cs = []" using cs(1) assms(2) by (cases cs) simp_all
  then show ?thesis using cs(3) [of c] by simp
qed

lemma data_take:
  assumes lock: "lock_inv (T, m)" and inv: "data_inv (T, m)" and t: "T t = Req_Loop" and c: "st_callback m = Some c"
  shows "data_inv (T(t := Req_Release c), take_cb c m)"
proof -
  note d = data_invD [OF inv]
  obtain cs where cs: "dseg m Head cs" "distinct cs" "\<And>c. ph m c = Linked \<longleftrightarrow> c \<in> set cs"
    by (rule list_invE [OF d(1)], rule that)
  obtain cs' where cs': "cs = c # cs'" using cs(1) c by (cases cs) auto
  have phc: "ph m c = Linked" using cs(3) cs' by simp
  have nc: "cb_next m c \<noteq> Some c" using cs(1,2) cs' by (cases cs') auto
  have nt: "st_notify m" by (rule quiet_notify [OF d(7), of t]) (simp_all add: t)
  show ?thesis
  proof (rule data_at [OF inv, where c = c and y = Taken and x = "life m c"])
    fix u
    assume u: "u \<noteq> t" and o: "owner (T u) = Some c \<or> executes (T u) = Some c"
    have h: "holds (T u) = None" using lock_invD(2) [OF lock, of t u] u t by (cases "holds (T u)") auto
    have "executes (T u) \<noteq> Some c" using pc_ok_executes [OF d(4) [of u]] phc by auto
    with o have "owner (T u) = Some c" by simp
    then show "pc_ok (life (take_cb c m)) (ph (take_cb c m)) (T u)"
      using d(4) [of u] h phc by (cases "T u") (auto simp: take_cb_fields)
  next
    have "dseg (take_cb c m) Head cs'" by (rule dseg_take) (use cs cs' in simp_all)
    then show "list_inv (take_cb c m)"
      by (rule list_invI) (use cs cs' in \<open>auto simp: take_cb_fields\<close>)
    have d': "ph m x = Linked" if "cb_next m c = Some x" for x
      using that cs(1,3) cs' by (cases cs') auto
    show "cb_inv (take_cb c m) b" for b
    proof (cases "b = c")
      case True
      with d(3) [of c] phc nc nt show ?thesis by (cases "cb_next m c") (auto simp: cb_inv_def take_cb_fields)
    next
      case False
      then show ?thesis
        using d' by (intro cb_inv_same [OF d(3) [of b]]) (auto simp: take_cb_fields split: option.split)
    qed
    show "quiet_inv (T(t := Req_Release c)) (take_cb c m)"
      by (rule quiet_holder [OF lock d(7)]) (use t nt in \<open>simp_all add: take_cb_fields\<close>)
  qed (use d(2) t in \<open>simp_all add: take_cb_fields\<close>)
qed

lemma data_link:
  assumes lock: "lock_inv (T, m)" and inv: "data_inv (T, m)" and t: "T t = Reg_Link c"
  shows "data_inv (T(t := Reg_Release c), link_cb c m)"
proof -
  note d = data_invD [OF inv]
  obtain cs where cs: "dseg m Head cs" "distinct cs" "\<And>c. ph m c = Linked \<longleftrightarrow> c \<in> set cs"
    by (rule list_invE [OF d(1)], rule that)
  have phc: "ph m c = Pending" "life m c = Constructing" using d(4) [of t] t by simp_all
  then have nc: "c \<notin> set cs" using cs(3) [of c] by simp
  have st: "st_state m = 2" using lock_invD(1) [OF lock, of t] t by simp
  have d': "ph m x = Linked" if "st_callback m = Some x" for x
    using that cs(1,3) by (cases cs) auto
  show ?thesis
  proof (rule data_at [OF inv, where c = c and y = Linked and x = "life m c"])
    fix u
    assume u: "u \<noteq> t" and o: "owner (T u) = Some c \<or> executes (T u) = Some c"
    have "owner (T u) \<noteq> Some c" using one_ownerD [OF d(5), of t c u] t u by simp
    moreover have "executes (T u) \<noteq> Some c" using pc_ok_executes [OF d(4) [of u]] phc by auto
    ultimately show "pc_ok (life (link_cb c m)) (ph (link_cb c m)) (T u)" using o by simp
  next
    have "dseg (link_cb c m) Head (c # cs)" by (rule dseg_link [OF cs(1,2) nc])
    then show "list_inv (link_cb c m)"
      by (rule list_invI) (use cs nc in \<open>auto simp: link_cb_fields\<close>)
    show "cb_inv (link_cb c m) b" for b
    proof (cases "b = c")
      case True
      with d(3) [of c] phc show ?thesis by (auto simp: cb_inv_def link_cb_fields)
    next
      case False
      then show ?thesis
        using d' by (intro cb_inv_same [OF d(3) [of b]]) (auto simp: link_cb_fields split: option.split)
    qed
    show "quiet_inv (T(t := Reg_Release c)) (link_cb c m)"
      by (rule quiet_holder [OF lock d(7)]) (use t st in \<open>simp_all add: link_cb_fields\<close>)
    show "life (link_cb c m) = (life m)(c := life m c)" by (simp add: link_cb_fields)
  qed (use d(2) t phc in \<open>simp_all add: link_cb_fields\<close>)
qed

lemma data_unlink:
  assumes lock: "lock_inv (T, m)" and inv: "data_inv (T, m)" and t: "T t = Rem_Unlink c prev" and sl: "cb_prev m c = Some sl"
  shows "data_inv (T(t := Rem_Release c prev), unlink_cb c sl m)"
proof -
  note d = data_invD [OF inv]
  obtain cs where cs: "dseg m Head cs" "distinct cs" "\<And>c. ph m c = Linked \<longleftrightarrow> c \<in> set cs"
    by (rule list_invE [OF d(1)], rule that)
  have phc: "ph m c = Linked" "life m c = Destroying"
    using d(4) [of t] d(3) [of c] t sl by (auto simp: cb_inv_def)
  then have "c \<in> set cs" using cs(3) by simp
  then obtain as bs where s: "cs = as @ c # bs" by (meson split_list)
  from dseg_unlink [of m Head as c bs] cs(1,2) s sl have un: "dseg (unlink_cb c sl m) Head (as @ bs)" by auto
  have "dseg m (NextOf c) bs" using dseg_tail cs(1) s by metis
  then have d': "ph m x = Linked" if "cb_next m c = Some x" for x
    using that cs(3) s by (cases bs) auto
  have slc: "sl \<noteq> NextOf c" using dseg_unlink [of m Head as c bs] cs(1,2) s sl by (cases as rule: rev_cases) auto
  note l = unlink_cb_fields unlink_cb_links [OF slc]
  have ne: "st_callback m \<noteq> nullptr" using cs(1) s by (cases as) auto
  show ?thesis
  proof (rule data_at [OF inv, where c = c and y = Unlinked and x = "life m c"])
    fix u
    assume u: "u \<noteq> t" and o: "owner (T u) = Some c \<or> executes (T u) = Some c"
    have "owner (T u) \<noteq> Some c" using one_ownerD [OF d(5), of t c u] t u by simp
    moreover have "executes (T u) \<noteq> Some c" using pc_ok_executes [OF d(4) [of u]] phc by auto
    ultimately show "pc_ok (life (unlink_cb c sl m)) (ph (unlink_cb c sl m)) (T u)" using o by simp
  next
    show "list_inv (unlink_cb c sl m)"
      by (rule list_invI [OF un]) (use cs s in \<open>auto simp: l\<close>)
    show "cb_inv (unlink_cb c sl m) b" for b
    proof (cases "b = c")
      case True
      with d(3) [of c] phc show ?thesis by (auto simp: cb_inv_def l)
    next
      case False
      then show ?thesis
        using d' by (intro cb_inv_same [OF d(3) [of b]]) (auto simp: l split: option.split)
    qed
    show "quiet_inv (T(t := Rem_Release c prev)) (unlink_cb c sl m)"
      by (rule quiet_holder [OF lock d(7)]) (use t ne quiet_over [OF d(7)] in \<open>auto simp: l\<close>)
    show "life (unlink_cb c sl m) = (life m)(c := life m c)" by (simp add: l)
  qed (use d(2) t phc in \<open>simp_all add: l\<close>)
qed

text \<open>Steps that change neither the list nor the state word.\<close>

lemma data_phase:
  assumes inv: "data_inv (T, m)"
    and upd: "ph m' = (ph m)(c := y)" "life m' = (life m)(c := x)"
    and same: "st_callback m' = st_callback m" "cb_next m' = cb_next m" "cb_prev m' = cb_prev m" "st_state m' = st_state m"
      "st_notify m' = st_notify m"
    and lk: "ph m c = Linked \<longleftrightarrow> y = Linked"
    and other: "\<And>u. u \<noteq> t \<Longrightarrow> owner (T u) = Some c \<or> executes (T u) = Some c \<Longrightarrow> pc_ok (life m') (ph m') (T u)"
    and r: "distinct (ran m')" and cb: "cb_inv m' c" and out: "\<And>b. b \<noteq> c \<Longrightarrow> (b \<in> set (ran m') \<longleftrightarrow> b \<in> set (ran m))
      \<and> cb_completed m' b = cb_completed m b \<and> cb_source m' b = cb_source m b"
    and p: "pc_ok (life m') (ph m') p"
    and own: "owner p = None \<or> owner p = owner (T t) \<or> owner p = Some c \<and> (\<forall>u. owner (T u) \<noteq> Some c)"
    and ex: "y = Taken \<or> y = Ran \<Longrightarrow> executes p = Some c \<or> ((ph m c = Taken \<or> ph m c = Ran) \<and> executes (T t) \<noteq> Some c)"
      "executes (T t) = None \<or> executes (T t) = Some c"
    and w: "winner p = winner (T t)" "p \<noteq> Req_Final" "p \<noteq> Req_Notify" "T t \<noteq> Req_Notify"
  shows "data_inv (T(t := p), m')"
proof (rule data_at [OF inv upd other])
  note d = data_invD [OF inv]
  show "list_inv m'"
    by (rule list_inv_same [OF d(1) same(1-3)]) (use lk in \<open>auto simp: upd\<close>)
  show "cb_inv m' b" for b
  proof (cases "b = c")
    case False
    then show ?thesis
      using out [OF False] by (intro cb_inv_same [OF d(3) [of b]]) (simp_all add: upd same)
  qed (use cb in simp)
  show "quiet_inv (T(t := p)) m'"
    by (rule quiet_upd [OF d(7) same(1)]) (use w quiet_notify [OF d(7), of t] in \<open>simp_all add: same\<close>)
qed (use r p own ex in simp_all)

text \<open>What the other threads can be doing with the callback a thread works on.\<close>

lemma others_executed:
  assumes lock: "lock_inv (T, m)" and inv: "data_inv (T, m)" and t: "executes (T t) = Some c" and y: "fetched y"
    and u: "u \<noteq> t" and o: "owner (T u) = Some c \<or> executes (T u) = Some c"
  shows "pc_ok (life m) ((ph m)(c := y)) (T u)"
proof -
  note d = data_invD [OF inv]
  have "executes (T u) \<noteq> Some c"
    using lock_invD(6) [OF lock executes_winner [OF t] executes_winner, of u c] u by auto
  moreover have "ph m c = Taken \<or> ph m c = Ran" by (rule pc_ok_executes [OF d(4) t])
  ultimately show ?thesis
    using o d(4) [of u] y by (cases "T u") (auto simp: registered_def)
qed

lemma others_owned:
  assumes inv: "data_inv (T, m)" and t: "owner (T t) = Some c" and n: "\<not> fetched (ph m c) \<or> (ph m c = Done)"
    and u: "u \<noteq> t" and o: "owner (T u) = Some c \<or> executes (T u) = Some c"
  shows "pc_ok L P (T u)"
proof -
  note d = data_invD [OF inv]
  have "owner (T u) \<noteq> Some c" using one_ownerD [OF d(5) t u] .
  moreover have "executes (T u) \<noteq> Some c" using pc_ok_executes [OF d(4) [of u]] n by auto
  ultimately show ?thesis using o by simp
qed

fun special :: "'c pc \<Rightarrow> bool" where
  "special Req_Loop = True" | "special (Req_Exec c) = True" | "special (Req_Complete c) = True"
| "special (Reg_Link c) = True" | "special (Reg_Fail c) = True" | "special (Reg_Exec c) = True"
| "special (Reg_Ret c) = True" | "special (Rem_Unlink c prev) = True" | "special (Rem_Ret c) = True"
| "special _ = False"

definition same_data :: "'c stop_mem \<Rightarrow> 'c stop_mem \<Rightarrow> bool" where
  "same_data m m' \<longleftrightarrow> st_callback m' = st_callback m \<and> cb_next m' = cb_next m \<and> cb_prev m' = cb_prev m \<and> ph m' = ph m
     \<and> life m' = life m \<and> ran m' = ran m \<and> cb_completed m' = cb_completed m \<and> cb_source m' = cb_source m
     \<and> (st_notify m \<longrightarrow> st_notify m')"

lemma tstep_same: "(p, m') \<in> set (tstep q m) \<Longrightarrow> \<not> special q \<Longrightarrow> same_data m m'"
  by (cases q) (auto simp: same_data_def split: if_splits)

lemma tstep_pcs:
  assumes "(p, m') \<in> set (tstep q m)" "\<not> special q" "pc_ok (life m) (ph m) q" "\<And>c. cb_completed m c \<longleftrightarrow> ph m c = Done"
  shows "pc_ok (life m) (ph m) p \<and> (owner p = owner q \<or> owner p = None) \<and> executes p = executes q
    \<and> (winner q \<longrightarrow> \<not> winner p \<longrightarrow> q = Req_Final) \<and> p \<noteq> Req_Final"
  using assms by (cases q) (auto simp: try_next_def lock_next_def split: if_splits)

lemma tstep_winner:
  assumes "(p, m') \<in> set (tstep q m)" "\<not> special q" "winner q \<Longrightarrow> q = Req_Notify \<or> st_notify m" "winner p"
  shows "p = Req_Notify \<or> st_notify m'"
  using assms by (cases q) (auto simp: try_next_def lock_next_def split: if_splits)

lemma tstep_flag:
  assumes "(p, m') \<in> set (tstep q m)" "\<not> special q" "saved_ok q" "\<And>w. holds q = Some w \<Longrightarrow> st_state m = w"
    "winner q \<Longrightarrow> flag_set (st_state m)" "flag_set (st_state m')"
  shows "flag_set (st_state m) \<or> winner p"
proof (cases q)
  case (Rem_Cas c prev)
  with assms(3) have "prev = 0 \<or> prev = 1" by simp
  with Rem_Cas assms show ?thesis by (elim disjE) (auto simp: flag_defs split: if_splits)
next
  case (Rem_Release c prev)
  with assms(3) have "prev = 0 \<or> prev = 1" by simp
  with Rem_Release assms show ?thesis by (elim disjE) auto
next
  case (Rem_Release_Wait c prev n)
  with assms(3) have "prev = 0 \<or> prev = 1" by simp
  with Rem_Release_Wait assms show ?thesis by (elim disjE) auto
qed (use assms in \<open>auto simp: flag_defs split: if_splits\<close>)

lemma data_tstep:
  assumes lock: "lock_inv (T, m)" and inv: "data_inv (T, m)" and s: "(p, m') \<in> set (tstep (T t) m)"
  shows "data_inv (T(t := p), m')"
proof (cases "special (T t)")
  case False
  note d = data_invD [OF inv] and l = lock_invD [OF lock]
  have c: "\<And>c. cb_completed m c \<longleftrightarrow> ph m c = Done" using d(3) by (simp add: cb_inv_def)
  have n: "winner (T t) \<Longrightarrow> T t = Req_Notify \<or> st_notify m" using quiet_notify [OF d(7)] by blast
  show ?thesis
    using data_plain [OF inv, of m' p t] tstep_same [OF s False] tstep_pcs [OF s False d(4) c] tstep_winner [OF s False n]
      tstep_flag [OF s False l(4) l(1) l(5)]
    by (simp add: same_data_def)
next
  case True
  note d = data_invD [OF inv]
  have ok: "pc_ok (life m) (ph m) (T t)" by (rule d(4))
  show ?thesis
  proof (cases "T t")
    case Req_Loop
    then show ?thesis
    proof (cases "st_callback m")
      case None
      with s Req_Loop quiet_notify [OF d(7), of t] show ?thesis
        by (auto intro!: data_plain [OF inv])
    next
      case (Some c)
      with s Req_Loop data_take [OF lock inv Req_Loop Some] show ?thesis by simp
    qed
  next
    case (Req_Exec c)
    have "data_inv (T(t := Req_Complete c), m\<lparr>ran := c # ran m, ph := (ph m)(c := Ran)\<rparr>)"
    proof (rule data_phase [OF inv, where c = c and y = "Ran" and x = "life m c"])
      fix u
      assume u: "u \<noteq> t" "owner (T u) = Some c \<or> executes (T u) = Some c"
      show "pc_ok (life (m\<lparr>ran := c # ran m, ph := (ph m)(c := Ran)\<rparr>)) (ph (m\<lparr>ran := c # ran m, ph := (ph m)(c := Ran)\<rparr>)) (T u)"
        using others_executed [OF lock inv, where t = t and c = c and y = "Ran", OF _ _ u] ok Req_Exec by simp
    qed (use Req_Exec ok d(2) d(3) [of c] in \<open>auto simp: cb_inv_def\<close>)
    with s Req_Exec show ?thesis by simp
  next
    case (Req_Complete c)
    have "data_inv (T(t := Req_Lock_Load), m\<lparr>cb_completed := (cb_completed m)(c := True), ph := (ph m)(c := Done)\<rparr>)"
    proof (rule data_phase [OF inv, where c = c and y = "Done" and x = "life m c"])
      fix u
      assume u: "u \<noteq> t" "owner (T u) = Some c \<or> executes (T u) = Some c"
      show "pc_ok (life (m\<lparr>cb_completed := (cb_completed m)(c := True), ph := (ph m)(c := Done)\<rparr>)) (ph (m\<lparr>cb_completed := (cb_completed m)(c := True), ph := (ph m)(c := Done)\<rparr>)) (T u)"
        using others_executed [OF lock inv, where t = t and c = c and y = "Done", OF _ _ u] ok Req_Complete by simp
    qed (use Req_Complete ok d(2) d(3) [of c] in \<open>auto simp: cb_inv_def\<close>)
    with s Req_Complete show ?thesis by simp
  next
    case (Reg_Link c)
    with s data_link [OF lock inv Reg_Link] show ?thesis by simp
  next
    case (Reg_Fail c)
    have "data_inv (T(t := Reg_Exec c), m\<lparr>cb_source := (cb_source m)(c := False), ph := (ph m)(c := Inline)\<rparr>)"
    proof (rule data_phase [OF inv, where c = c and y = "Inline" and x = "life m c"])
      fix u
      assume u: "u \<noteq> t" "owner (T u) = Some c \<or> executes (T u) = Some c"
      show "pc_ok (life (m\<lparr>cb_source := (cb_source m)(c := False), ph := (ph m)(c := Inline)\<rparr>)) (ph (m\<lparr>cb_source := (cb_source m)(c := False), ph := (ph m)(c := Inline)\<rparr>)) (T u)"
        using others_owned [OF inv, where t = t and c = c, OF _ _ u] ok Reg_Fail by simp
    qed (use Reg_Fail ok d(2) d(3) [of c] in \<open>auto simp: cb_inv_def\<close>)
    with s Reg_Fail show ?thesis by simp
  next
    case (Reg_Exec c)
    have "data_inv (T(t := Reg_Ret c), m\<lparr>ran := c # ran m, ph := (ph m)(c := InlineRan)\<rparr>)"
    proof (rule data_phase [OF inv, where c = c and y = "InlineRan" and x = "life m c"])
      fix u
      assume u: "u \<noteq> t" "owner (T u) = Some c \<or> executes (T u) = Some c"
      show "pc_ok (life (m\<lparr>ran := c # ran m, ph := (ph m)(c := InlineRan)\<rparr>)) (ph (m\<lparr>ran := c # ran m, ph := (ph m)(c := InlineRan)\<rparr>)) (T u)"
        using others_owned [OF inv, where t = t and c = c, OF _ _ u] ok Reg_Exec by simp
    qed (use Reg_Exec ok d(2) d(3) [of c] in \<open>auto simp: cb_inv_def\<close>)
    with s Reg_Exec show ?thesis by simp
  next
    case (Reg_Ret c)
    have "data_inv (T(t := Idle), m\<lparr>life := (life m)(c := Alive)\<rparr>)"
    proof (rule data_phase [OF inv, where c = c and y = "ph m c" and x = Alive])
      fix u
      assume u: "u \<noteq> t" "owner (T u) = Some c \<or> executes (T u) = Some c"
      have "owner (T u) \<noteq> Some c" using one_ownerD [OF d(5) _ u(1)] Reg_Ret by simp
      from pc_ok_life [OF d(4) this]
      show "pc_ok (life (m\<lparr>life := (life m)(c := Alive)\<rparr>)) (ph (m\<lparr>life := (life m)(c := Alive)\<rparr>)) (T u)" by simp
    qed (use Reg_Ret ok d(2) d(3) [of c] in \<open>auto simp: cb_inv_def\<close>)
    with s Reg_Ret show ?thesis by simp
  next
    case (Rem_Unlink c prev)
    then show ?thesis
    proof (cases "cb_prev m c")
      case None
      then have "fetched (ph m c)" "st_notify m"
        using ok Rem_Unlink linked_prev [OF d(1), of c] d(3) [of c] by (auto simp: cb_inv_def)
      with s Rem_Unlink None ok show ?thesis by (auto intro!: data_plain [OF inv])
    next
      case (Some sl)
      with s Rem_Unlink data_unlink [OF lock inv Rem_Unlink Some] show ?thesis by simp
    qed
  next
    case (Rem_Ret c)
    have "data_inv (T(t := Idle), m\<lparr>life := (life m)(c := Dead)\<rparr>)"
    proof (rule data_phase [OF inv, where c = c and y = "ph m c" and x = "Dead"])
      fix u
      assume u: "u \<noteq> t" "owner (T u) = Some c \<or> executes (T u) = Some c"
      show "pc_ok (life (m\<lparr>life := (life m)(c := Dead)\<rparr>)) (ph (m\<lparr>life := (life m)(c := Dead)\<rparr>)) (T u)"
        using others_owned [OF inv, where t = t and c = c, OF _ _ u] ok Rem_Ret by (auto simp: over_def)
    qed (use Rem_Ret ok d(2) d(3) [of c] in \<open>auto simp: cb_inv_def\<close>)
    with s Rem_Ret show ?thesis by simp
  qed (use True in simp_all)
qed

lemma cb_inv_life:
  assumes "cb_inv m c" "life m c \<noteq> Unborn" "x \<noteq> Unborn" "x \<noteq> Alive" "x \<noteq> Dead"
  shows "cb_inv (m\<lparr>life := (life m)(c := x)\<rparr>) c"
  using assms unfolding cb_inv_def by simp

lemma data_step:
  assumes lock: "lock_inv s" and inv: "data_inv s" and s: "stop_step s s'"
  shows "data_inv s'"
  using s lock inv
proof cases
  case (run p m' T t m)
  with lock inv data_tstep [of T m p m' t] show ?thesis by simp
next
  case (request T t m)
  with inv have "data_inv (T, m)" by simp
  then have "data_inv (T(t := Req_Load), m)" using request by (intro data_plain) simp_all
  with request show ?thesis by simp
next
  case (construct T t m c)
  with inv have inv': "data_inv (T, m)" by simp
  note d = data_invD [OF inv']
  have f: "ph m c = Fresh" using d(3) [of c] construct by (simp add: cb_inv_def)
  have own: "owner (T u) \<noteq> Some c" for u using pc_ok_owner [OF d(4) [of u], of c] construct by auto
  have "data_inv (T(t := Reg_Load c), construct_cb c m)"
  proof (rule data_at [OF inv', where c = c and y = Pending and x = Constructing])
    fix u
    assume "owner (T u) = Some c \<or> executes (T u) = Some c"
    then show "pc_ok (life (construct_cb c m)) (ph (construct_cb c m)) (T u)"
      using pc_ok_owner [OF d(4) [of u], of c] pc_ok_executes [OF d(4) [of u], of c] construct f by auto
  next
    obtain cs where cs: "dseg m Head cs" "distinct cs" "\<And>c. ph m c = Linked \<longleftrightarrow> c \<in> set cs"
      by (rule list_invE [OF d(1)], rule that)
    have nc: "c \<notin> set cs" using cs(3) [of c] f by simp
    have "dseg (construct_cb c m) Head cs"
      using cs(1) nc by (subst dseg_cong [of _ _ m]) (auto simp: construct_cb_def)
    then show "list_inv (construct_cb c m)"
      by (rule list_invI [OF _ cs(2)]) (use nc cs(3) in \<open>auto simp: construct_cb_def\<close>)
    show "cb_inv (construct_cb c m) b" for b
      using d(3) [of b] f by (cases "b = c") (auto simp: cb_inv_def construct_cb_def)
    show "quiet_inv (T(t := Reg_Load c)) (construct_cb c m)"
      by (rule quiet_upd [OF d(7)]) (use construct in \<open>simp_all add: construct_cb_def\<close>)
  qed (use d(2) construct own in \<open>simp_all add: construct_cb_def\<close>)
  with construct show ?thesis by simp
next
  case (destroy T t m c)
  with inv have inv': "data_inv (T, m)" by simp
  note d = data_invD [OF inv']
  have al: "life m c = Alive" and idle: "T t = Idle" using destroy by simp_all
  have f: "registered (ph m c)" using d(3) [of c] al by (simp add: cb_inv_def)
  have "cb_source m c \<longleftrightarrow> ph m c = Pending \<or> ph m c = Linked \<or> fetched (ph m c) \<or> ph m c = Unlinked"
    using d(3) [of c] by (simp add: cb_inv_def)
  then have src: "if cb_source m c then ph m c = Linked \<or> fetched (ph m c) else over (ph m c)"
    using f by (cases "ph m c") simp_all
  have own: "owner (T u) \<noteq> Some c" for u using pc_ok_owner [OF d(4) [of u], of c] destroy by auto
  have "data_inv (T(t := fst (destroy_cb c m)), snd (destroy_cb c m))"
  proof (rule data_phase [OF inv', where c = c and y = "ph m c" and x = Destroying])
    fix u
    from pc_ok_life [OF d(4) own]
    show "pc_ok (life (snd (destroy_cb c m))) (ph (snd (destroy_cb c m))) (T u)" by (simp add: destroy_cb_def)
  next
    show "pc_ok (life (snd (destroy_cb c m))) (ph (snd (destroy_cb c m))) (fst (destroy_cb c m))"
      using f src by (cases "cb_source m c") (simp_all add: destroy_cb_def)
    show "cb_inv (snd (destroy_cb c m)) c"
    proof -
      have a: "life m c \<noteq> Unborn" by (simp add: al)
      have b: "cb_inv m c" by (rule d(3))
      have "cb_inv (m\<lparr>life := (life m)(c := Destroying)\<rparr>) c" by (rule cb_inv_life [OF b a]) simp_all
      then show ?thesis by (simp add: destroy_cb_def)
    qed
  qed (use d(2) idle own in \<open>simp_all add: destroy_cb_def\<close>)
  with destroy show ?thesis by simp
qed

lemma data_reachable: "stop_reachable s \<Longrightarrow> data_inv s"
proof (induction rule: stop_reachable.induct)
  case init
  show ?case
    by (auto simp: data_inv_def list_inv_def cb_inv_def one_owner_def exec_inv_def quiet_inv_def stop_new_def
        intro!: exI [of _ "[]"])
next
  case (step s s')
  then show ?case using data_step lock_reachable by blast
qed

section \<open>Schedules\<close>

text \<open>A schedule names the thread of each step and, where a step has two outcomes, the outcome.\<close>

datatype ('t, 'c) move = Run 't nat | Request 't | Construct 't 'c | Destroy 't 'c

fun stop_move :: "('t, 'c) move \<Rightarrow> ('t, 'c) sys \<Rightarrow> ('t, 'c) sys option" where
  "stop_move (Run t i) (T, m) =
     (let ps = tstep (T t) m in if i < length ps then Some (T(t := fst (ps ! i)), snd (ps ! i)) else None)"
| "stop_move (Request t) (T, m) = (if T t = Idle then Some (T(t := Req_Load), m) else None)"
| "stop_move (Construct t c) (T, m) =
     (if T t = Idle \<and> life m c = Unborn then Some (T(t := Reg_Load c), construct_cb c m) else None)"
| "stop_move (Destroy t c) (T, m) =
     (if T t = Idle \<and> life m c = Alive then Some (T(t := fst (destroy_cb c m)), snd (destroy_cb c m)) else None)"

fun stop_sched :: "('t, 'c) move list \<Rightarrow> ('t, 'c) sys \<Rightarrow> ('t, 'c) sys option" where
  "stop_sched [] s = Some s"
| "stop_sched (x # xs) s = Option.bind (stop_move x s) (stop_sched xs)"

lemma stop_move_step: "stop_move x s = Some s' \<Longrightarrow> stop_step s s'"
proof (cases s)
  case (Pair T m)
  assume a: "stop_move x s = Some s'"
  show ?thesis
  proof (cases x)
    case (Run t i)
    with a Pair have i: "i < length (tstep (T t) m)"
      "s' = (T(t := fst (tstep (T t) m ! i)), snd (tstep (T t) m ! i))" by (simp_all add: Let_def split: if_splits)
    then have "(fst (tstep (T t) m ! i), snd (tstep (T t) m ! i)) \<in> set (tstep (T t) m)" by simp
    from stop_step.run [of "fst (tstep (T t) m ! i)" "snd (tstep (T t) m ! i)" T t m, OF this]
    show ?thesis using Pair i by simp
  qed (use a Pair in \<open>auto split: if_splits intro: stop_step.intros\<close>)
qed

lemma stop_sched_reachable: "stop_sched xs s = Some s' \<Longrightarrow> stop_reachable s \<Longrightarrow> stop_reachable s'"
proof (induction xs arbitrary: s)
  case (Cons x xs)
  then obtain s1 where s1: "stop_move x s = Some s1" "stop_sched xs s1 = Some s'"
    by (auto simp: Option.bind_eq_Some_conv)
  from Cons.IH [OF s1(2) stop_reachable.step [OF Cons.prems(2) stop_move_step [OF s1(1)]]] show ?case .
qed simp

definition run_of :: "('t, 'c) move list \<Rightarrow> (('t, 'c) sys \<Rightarrow> bool) \<Rightarrow> bool" where
  "run_of xs P = (case stop_sched xs (\<lambda>_. Idle, stop_new) of None \<Rightarrow> False | Some s \<Rightarrow> P s)"

lemma run_ofD:
  assumes "run_of xs P"
  shows "\<exists>T m. stop_reachable (T, m) \<and> P (T, m)"
proof -
  obtain s where s: "stop_sched xs (\<lambda>_. Idle, stop_new) = Some s" "P s"
    using assms by (auto simp: run_of_def split: option.splits)
  have "stop_reachable s" by (rule stop_sched_reachable [OF s(1) stop_reachable.init])
  with s(2) show ?thesis by (cases s) auto
qed

text \<open>Two threads: \<open>False\<close> constructs callback 7, \<open>True\<close> requests a stop and runs it, \<open>False\<close> destroys the object.\<close>

definition demo_register :: "(bool, nat) move list" where
  "demo_register = [Construct False 7, Run False 0, Run False 1, Run False 0, Run False 0, Run False 0]"

definition demo_request :: "(bool, nat) move list" where
  "demo_request = [Request True, Run True 0, Run True 1, Run True 0, Run True 0, Run True 0]"

definition demo_execute :: "(bool, nat) move list" where
  "demo_execute = [Run True 0, Run True 0, Run True 0, Run True 1, Run True 0, Run True 0, Run True 0]"

definition demo_destroy :: "(bool, nat) move list" where
  "demo_destroy = [Destroy False 7, Run False 0, Run False 1, Run False 0, Run False 0]"

section \<open>Properties\<close>

lemma stop_requested_flag_set: "lock_inv (T, m) \<Longrightarrow> stop_requested m \<longleftrightarrow> flag_set (st_state m)"
  using lock_word [of T m] by (auto simp: stop_requested_def flag_defs)

text \<open>
  C6: at most one thread is between taking and releasing the spin lock of a stop source, in
  every interleaving of stop requests, registrations and removals with spurious failures of the
  exchange, and the locked bit of \<open>__state_\<close> is set meanwhile.
\<close>

theorem stop_mutual_exclusion:
  assumes "stop_reachable (T, m)" "holds (T t) \<noteq> None"
  shows "(\<forall>u. holds (T u) \<noteq> None \<longrightarrow> u = t) \<and> st_state m AND locked_flag \<noteq> 0"
proof -
  note inv = lock_reachable [OF assms(1)]
  from assms(2) obtain w where w: "holds (T t) = Some w" by blast
  have "st_state m = 2 \<or> st_state m = 3"
    using lock_invD(1) [OF inv w] holds_word [OF w lock_invD(4) [OF inv]] by simp
  then have "st_state m AND locked_flag \<noteq> 0" by (auto simp: flag_defs)
  moreover have "u = t" if "holds (T u) \<noteq> None" for u using lock_invD(2) [OF inv that assms(2)] .
  ultimately show ?thesis by blast
qed

theorem stop_mutual_exclusion_witness:
  "\<exists>T m. stop_reachable (T :: bool \<Rightarrow> nat pc, m) \<and> T False = Reg_Link 7 \<and> (\<forall>u. holds (T u) \<noteq> None \<longrightarrow> \<not> u)"
proof -
  have "run_of (take 3 demo_register) (\<lambda>(T, m). T False = Reg_Link 7)" by code_simp
  from run_ofD [OF this] obtain T m where s: "stop_reachable (T :: bool \<Rightarrow> nat pc, m)" "T False = Reg_Link (7::nat)" by auto
  with stop_mutual_exclusion [OF s(1), of False] show ?thesis by auto
qed

text \<open>
  C7: no stop callback is executed twice, whether it runs from the stop request or from its own
  constructor because the stop was already requested.
\<close>

theorem stop_callback_once:
  assumes "stop_reachable (T, m)"
  shows "distinct (ran m)"
  using data_reachable [OF assms] by (rule data_invD(2))

theorem stop_callback_once_witness:
  "\<exists>T m. stop_reachable (T :: bool \<Rightarrow> nat pc, m) \<and> ran m = [7] \<and> distinct (ran m)"
proof -
  have "run_of (demo_register @ demo_request @ demo_execute) (\<lambda>(T, m). ran m = [7])" by code_simp
  from run_ofD [OF this] obtain T m where s: "stop_reachable (T :: bool \<Rightarrow> nat pc, m)" "ran m = [7::nat]" by auto
  with stop_callback_once [OF s(1)] show ?thesis by blast
qed

text \<open>
  C8: when the destructor of a stop callback has returned, no thread is executing the callback
  or about to, and the source's list does not contain it: the object's memory may be reused.
\<close>

theorem stop_destroyed_unused:
  assumes "stop_reachable (T, m)" "life m c = Dead"
  shows "(\<forall>t. executes (T t) \<noteq> Some c) \<and> (\<exists>cs. dseg m Head cs \<and> distinct cs \<and> c \<notin> set cs)"
proof -
  note d = data_invD [OF data_reachable [OF assms(1)]]
  have o: "over (ph m c)" using d(3) [of c] assms(2) by (simp add: cb_inv_def)
  have "executes (T t) \<noteq> Some c" for t using pc_ok_executes [OF d(4) [of t], of c] o by auto
  moreover obtain cs where cs: "dseg m Head cs" "distinct cs" "\<And>c. ph m c = Linked \<longleftrightarrow> c \<in> set cs"
    by (rule list_invE [OF d(1)], rule that)
  moreover have "c \<notin> set cs" using cs(3) [of c] o by (auto simp: over_def)
  ultimately show ?thesis by blast
qed

theorem stop_destroyed_unused_witness:
  "\<exists>T m. stop_reachable (T :: bool \<Rightarrow> nat pc, m) \<and> life m 7 = Dead \<and> (\<forall>t. executes (T t) \<noteq> Some 7)"
proof -
  have "run_of (demo_register @ demo_request @ demo_execute @ demo_destroy @ [Run False 0, Run False 0]) (\<lambda>(T, m). life m 7 = Dead)"
    by code_simp
  from run_ofD [OF this] obtain T m where s: "stop_reachable (T :: bool \<Rightarrow> nat pc, m)" "life m 7 = Dead" by auto
  with stop_destroyed_unused [OF s] show ?thesis by blast
qed

text \<open>
  C9: once the stop flag is set and the request that set it has returned, every callback that
  is registered and alive has been executed: none is left on the list or half done.
\<close>

theorem stop_runs_all:
  assumes "stop_reachable (T, m)" "stop_requested m" "\<forall>t. \<not> winner (T t)" "life m c = Alive"
  shows "c \<in> set (ran m)"
proof -
  note lock = lock_reachable [OF assms(1)]
  note d = data_invD [OF data_reachable [OF assms(1)]]
  have f: "flag_set (st_state m)" using assms(2) stop_requested_flag_set [OF lock] by simp
  have "st_callback m = nullptr" by (rule quiet_over [OF d(7) f]) (use assms(3) in blast)
  then have "ph m c \<noteq> Linked" by (rule null_unlinked [OF d(1)])
  moreover have "ph m c \<noteq> Taken"
  proof
    assume "ph m c = Taken"
    then obtain t where "executes (T t) = Some c" using d(6) unfolding exec_inv_def by meson
    from executes_winner [OF this] assms(3) show False by simp
  qed
  moreover have "registered (ph m c)" "c \<in> set (ran m) \<longleftrightarrow> ph m c = Ran \<or> ph m c = Done \<or> ph m c = InlineRan"
    using d(3) [of c] assms(4) by (simp_all add: cb_inv_def)
  ultimately show ?thesis by (cases "ph m c") simp_all
qed

theorem stop_runs_all_witness:
  "\<exists>T m. stop_reachable (T :: bool \<Rightarrow> nat pc, m) \<and> stop_requested m \<and> life m 7 = Alive \<and> 7 \<in> set (ran m)"
proof -
  have "run_of (demo_register @ demo_request @ demo_execute)
      (\<lambda>(T, m). stop_requested m \<and> life m 7 = Alive \<and> T False = Idle \<and> T True = Idle)" by code_simp
  from run_ofD [OF this] obtain T m where s: "stop_reachable (T :: bool \<Rightarrow> nat pc, m)" "stop_requested m"
    "life m 7 = Alive" "T False = Idle" "T True = Idle" by auto
  have "\<forall>t. \<not> winner (T t)" using s(4,5) by (simp add: all_bool_eq)
  from stop_runs_all [OF s(1,2) this s(3)] s show ?thesis by blast
qed

lemma tstep_linked:
  "(p, m') \<in> set (tstep q m) \<Longrightarrow> ph m' c = Linked \<Longrightarrow> ph m c = Linked \<or> q = Reg_Link c"
  by (cases q) (auto simp: link_cb_fields take_cb_fields unlink_cb_fields split: if_splits option.splits)

lemma step_linked:
  assumes lock: "lock_inv (T, m)" and f: "flag_set (st_state m)" and s: "stop_step (T, m) (T', m')"
  shows "flag_set (st_state m') \<and> (ph m' c = Linked \<longrightarrow> ph m c = Linked)"
  using s
proof cases
  case (run p t)
  have k: "keeps (T t) (st_state m) p (st_state m') \<or> takes (T t) (st_state m) p (st_state m')
      \<or> releases (T t) (st_state m) p (st_state m')"
    using tstep_kind [OF run(2) lock_invD(4) [OF lock] lock_invD(1) [OF lock] lock_word [OF lock] lock_invD(5) [OF lock]]
    by simp
  have "T t \<noteq> Reg_Link c" using lock_invD(1) [OF lock, of t 2] f by auto
  with k f tstep_linked [OF run(2), of c] show ?thesis
    by (auto simp: keeps_def takes_def releases_def)
next
  case (construct t d)
  then show ?thesis using f by (auto simp: construct_cb_def split: if_splits)
next
  case (destroy t d)
  then show ?thesis using f by (simp add: destroy_cb_def)
qed (use f in simp)

text \<open>
  the stop flag is never reset, and after it is set no callback is added to the list any
  more, so that the loop of \<open>_M_request_stop\<close>, which takes one callback per round, runs at most
  as many rounds as callbacks were registered before.
\<close>

theorem stop_no_late_registration:
  assumes "stop_reachable (T, m)" "stop_requested m" "stop_step (T, m) (T', m')"
  shows "stop_requested m' \<and> (\<exists>cs cs'. dseg m Head cs \<and> dseg m' Head cs' \<and> distinct cs \<and> distinct cs' \<and> set cs' \<subseteq> set cs)"
proof -
  note lock = lock_reachable [OF assms(1)]
  note r' = stop_reachable.step [OF assms(1,3)]
  have f: "flag_set (st_state m)" using assms(2) stop_requested_flag_set [OF lock] by simp
  note s = step_linked [OF lock f assms(3)]
  obtain cs where cs: "dseg m Head cs" "distinct cs" "\<And>c. ph m c = Linked \<longleftrightarrow> c \<in> set cs"
    by (rule list_invE [OF data_invD(1) [OF data_reachable [OF assms(1)]]], rule that)
  obtain cs' where cs': "dseg m' Head cs'" "distinct cs'" "\<And>c. ph m' c = Linked \<longleftrightarrow> c \<in> set cs'"
    by (rule list_invE [OF data_invD(1) [OF data_reachable [OF r']]], rule that)
  have "set cs' \<subseteq> set cs"
  proof
    fix c
    assume "c \<in> set cs'"
    then have "ph m' c = Linked" by (simp only: cs'(3))
    with s [of c] cs(3) show "c \<in> set cs" by simp
  qed
  then show ?thesis using cs(1,2) cs'(1,2) s stop_requested_flag_set [OF lock_reachable [OF r']] by blast
qed

theorem stop_no_late_registration_witness:
  "\<exists>T m. stop_reachable (T :: bool \<Rightarrow> nat pc, m) \<and> stop_requested m
     \<and> (\<forall>T' m'. stop_step (T, m) (T', m') \<longrightarrow> stop_requested m')"
proof -
  have "run_of (demo_register @ demo_request) (\<lambda>(T, m). stop_requested m)" by code_simp
  from run_ofD [OF this] obtain T m where s: "stop_reachable (T :: bool \<Rightarrow> nat pc, m)" "stop_requested m" by auto
  with stop_no_late_registration [OF s] show ?thesis by meson
qed

text \<open>
  a destructor that found its callback taken off the list waits until the call has
  completed. The wait does not ask which thread runs the callback: destroying a callback
  object from inside its own call leaves the thread spinning for ever.
\<close>

theorem stop_destructor_waits:
  assumes "stop_reachable (T, m)" "executes (T t) = Some c" "T u = Rem_Wait c" "(p, m') \<in> set (tstep (T u) m)"
  shows "p = Rem_Wait c \<and> m' = m"
proof -
  note d = data_invD [OF data_reachable [OF assms(1)]]
  have "\<not> cb_completed m c"
    using pc_ok_executes [OF d(4) assms(2)] d(3) [of c] by (auto simp: cb_inv_def)
  then show ?thesis using assms(3,4) by simp
qed

theorem stop_destructor_waits_witness:
  "\<exists>T m. stop_reachable (T :: bool \<Rightarrow> nat pc, m) \<and> T True = Req_Exec 7 \<and> T False = Rem_Wait 7
     \<and> (\<forall>(p, m') \<in> set (tstep (T False) m). p = Rem_Wait 7)"
proof -
  have "run_of (demo_register @ demo_request @ demo_destroy)
      (\<lambda>(T, m). T True = Req_Exec 7 \<and> T False = Rem_Wait 7)" by code_simp
  from run_ofD [OF this] obtain T m where
    s: "stop_reachable (T :: bool \<Rightarrow> nat pc, m)" "T True = Req_Exec 7" "T False = Rem_Wait 7" by auto
  have "executes (T True) = Some 7" using s(2) by simp
  from stop_destructor_waits [OF s(1) this s(3)]
  have "\<forall>(p, m') \<in> set (tstep (T False) m). p = Rem_Wait 7" by auto
  with s show ?thesis by (intro exI conjI)
qed

lemma pause_yields:
  assumes "yield_threshold \<le> k"
  shows "fst (pause_try k) = Yield \<and> yield_threshold \<le> snd (pause_try k)"
proof (cases "k + 1 = 0")
  case True
  with assms show ?thesis by (simp add: pause_try_def)
next
  case False
  then have "unat (k + 1) = unat k + 1" using unatSuc [of k] by (simp add: add.commute)
  then have "yield_threshold \<le> k + 1" using assms by (simp add: word_le_nat_alt)
  with False assms show ?thesis by (simp add: pause_try_def)
qed

lemma pause_run_yields: "yield_threshold \<le> k \<Longrightarrow> pause_run n k = replicate n Yield"
proof (induction n arbitrary: k)
  case (Suc n)
  from pause_yields [OF Suc.prems] Suc.IH show ?case by (auto split: prod.splits)
qed simp

lemma pause_run_from:
  "unat k \<le> 20 \<Longrightarrow> pause_run n k = replicate (min n (20 - unat k)) Pause @ replicate (n - (20 - unat k)) Yield"
proof (induction n arbitrary: k)
  case (Suc n)
  show ?case
  proof (cases "unat k = 20")
    case True
    then have "yield_threshold \<le> k" by (simp add: yield_threshold_def word_le_nat_alt)
    from pause_run_yields [OF this] True show ?thesis by simp
  next
    case False
    with Suc.prems have l: "unat k < 20" by simp
    then have "unat (k + 1) = unat k + 1" by (intro unat_add_lem [THEN iffD1, THEN trans]) simp_all
    moreover have "pause_try k = (Pause, k + 1)" using l by (simp add: pause_try_def yield_threshold_def word_less_nat_alt)
    moreover have "20 - unat k = Suc (19 - unat k)" using l by simp
    ultimately show ?thesis using Suc.IH [of "k + 1"] l by simp
  qed
qed simp

text \<open>
  the back-off of the spin loops pauses the processor for the first 20 rounds and yields
  the thread in every later one, also after the 32-bit round counter has wrapped around.
\<close>

theorem pause_then_yield: "pause_run n 0 = replicate (min n 20) Pause @ replicate (n - 20) Yield"
  using pause_run_from [of 0 n] by simp

end
