(* ===== verification/Atomic_Queue.thy ===== *)
theory Atomic_Queue
  imports Intrusive_Queue
begin

text \<open>
  \<open>__atomic_intrusive_queue.hpp\<close>: a lock-free stack of nodes linked by \<open>_Next\<close>. Any thread pushes
  a node or prepends a private queue with a compare-exchange loop; a consumer takes the whole
  stack with one exchange and turns it into an intrusive queue. A step of the model is one
  access to \<open>__head_\<close> or the write of one link; a weak exchange may fail spuriously.

  Auxiliary fields: \<open>a_cont\<close> is the stack as the exchanges built it, \<open>a_in\<close> the nodes in the order
  they were pushed and \<open>a_out\<close> the nodes in the order in which the taken batches, each reversed as
  \<open>_M_pop_swap_reversed\<close> does, deliver them. \<open>H t\<close> is the list of nodes that thread \<open>t\<close> owns while it
  pushes or has taken them. No step of the code reads them.
\<close>

section \<open>State\<close>

record 'n astack =
  a_head :: "'n ptr"
  a_next :: "'n nexts"
  a_cont :: "'n list"
  a_in :: "'n list"
  a_out :: "'n list"

definition astack_new :: "'n nexts \<Rightarrow> 'n astack" where
  "astack_new nx = \<lparr>a_head = nullptr, a_next = nx, a_cont = [], a_in = [], a_out = []\<rparr>"

definition astack_empty :: "'n astack \<Rightarrow> bool" where
  "astack_empty m \<longleftrightarrow> a_head m = nullptr"

datatype 'n apc =
    AIdle
  | Push_Load 'n | Push_Write 'n "'n ptr" | Push_Cas 'n "'n ptr" | Push_Ret bool
  | Pre_Load "'n iqueue" | Pre_Write "'n iqueue" "'n ptr" | Pre_Cas "'n iqueue" "'n ptr"
  | Reset_Load | Reset_Cas "'n ptr" | Reset_Ret "'n ptr"

text \<open>What \<open>_M_pop_swap\<close> and \<open>_M_pop_swap_reversed\<close> make of the chain that \<open>_M_reset\<close> returned.\<close>

definition pop_swap :: "'n astack \<Rightarrow> 'n ptr \<Rightarrow> 'n iqueue ub" where
  "pop_swap m old = iq_create (a_next m) old"

definition pop_swap_reversed :: "'n astack \<Rightarrow> 'n ptr \<Rightarrow> ('n iqueue \<times> 'n astack) ub" where
  "pop_swap_reversed m old = do {
     (nx, q) \<leftarrow> iq_create_reversed (a_next m) old;
     Some (q, m\<lparr>a_next := nx\<rparr>)
   }"

section \<open>Steps of one thread\<close>

text \<open>\<open>h\<close> is the list of nodes the thread owns; writing the link of a null tail has no step.\<close>

fun atstep :: "'n apc \<Rightarrow> 'n list \<Rightarrow> 'n astack \<Rightarrow> ('n apc \<times> 'n list \<times> 'n astack) list" where
  "atstep AIdle h m = []"
\<comment> \<open>\<open>_M_push_front\<close>\<close>
| "atstep (Push_Load p) h m = [(Push_Write p (a_head m), h, m)]"
| "atstep (Push_Write p old) h m = [(Push_Cas p old, h, m\<lparr>a_next := (a_next m)(p := old)\<rparr>)]"
| "atstep (Push_Cas p old) h m =
     (Push_Write p (a_head m), h, m) #
     (if a_head m = old
      then [(Push_Ret (old = nullptr), [], m\<lparr>a_head := Some p, a_cont := p # a_cont m, a_in := a_in m @ [p]\<rparr>)]
      else [])"
| "atstep (Push_Ret b) h m = [(AIdle, h, m)]"
\<comment> \<open>\<open>_M_prepend\<close>\<close>
| "atstep (Pre_Load q) h m = [(Pre_Write q (a_head m), h, m)]"
| "atstep (Pre_Write q old) h m =
     (case iq_back q of None \<Rightarrow> []
      | Some b \<Rightarrow> [(Pre_Cas q old, h, m\<lparr>a_next := (a_next m)(b := old)\<rparr>)])"
| "atstep (Pre_Cas q old) h m =
     (Pre_Write q (a_head m), h, m) #
     (if a_head m = old
      then [(AIdle, [], m\<lparr>a_head := iq_front q, a_cont := h @ a_cont m, a_in := a_in m @ rev h\<rparr>)]
      else [])"
\<comment> \<open>\<open>_M_reset\<close>\<close>
| "atstep Reset_Load h m = [(Reset_Cas (a_head m), h, m)]"
| "atstep (Reset_Cas old) h m =
     (Reset_Cas (a_head m), h, m) #
     (if a_head m = old
      then [(Reset_Ret old, a_cont m, m\<lparr>a_head := nullptr, a_cont := [], a_out := a_out m @ rev (a_cont m)\<rparr>)]
      else [])"
| "atstep (Reset_Ret old) h m =
     (AIdle, [], m) # (case pop_swap_reversed m old of None \<Rightarrow> [] | Some (q, m') \<Rightarrow> [(AIdle, [], m')])"

section \<open>Steps of the system\<close>

type_synonym ('t, 'n) asys = "('t \<Rightarrow> 'n apc) \<times> ('t \<Rightarrow> 'n list) \<times> 'n astack"

definition unowned :: "('t, 'n) asys \<Rightarrow> 'n set \<Rightarrow> bool" where
  "unowned s A \<longleftrightarrow> (case s of (T, H, m) \<Rightarrow> A \<inter> set (a_cont m) = {} \<and> (\<forall>t. A \<inter> set (H t) = {}))"

text \<open>
  Threads start operations on nodes that nobody owns; a node that was taken is free again when
  the consumer has its queue, may be relinked at will (\<open>rewrite\<close>) and pushed again.
\<close>

inductive astep :: "('t, 'n) asys \<Rightarrow> ('t, 'n) asys \<Rightarrow> bool" where
  run: "(p, h, m') \<in> set (atstep (T t) (H t) m) \<Longrightarrow> astep (T, H, m) (T(t := p), H(t := h), m')"
| push: "T t = AIdle \<Longrightarrow> unowned (T, H, m) {p} \<Longrightarrow> astep (T, H, m) (T(t := Push_Load p), H(t := [p]), m)"
| prepend: "T t = AIdle \<Longrightarrow> unowned (T, H, m) (set ns) \<Longrightarrow> distinct ns \<Longrightarrow> ns \<noteq> [] \<Longrightarrow>
     iq_repr (a_next m) q ns \<Longrightarrow> astep (T, H, m) (T(t := Pre_Load q), H(t := ns), m)"
| reset: "T t = AIdle \<Longrightarrow> astep (T, H, m) (T(t := Reset_Load), H, m)"
| rewrite: "unowned (T, H, m) {p} \<Longrightarrow>
     astep (T, H, m) (T, H, m\<lparr>a_next := (a_next m)(p := v)\<rparr>)"

inductive areachable :: "('t, 'n) asys \<Rightarrow> bool" where
  init: "areachable (\<lambda>_. AIdle, \<lambda>_. [], astack_new nx)"
| step: "areachable s \<Longrightarrow> astep s s' \<Longrightarrow> areachable s'"

inductive_cases astepE: "astep (T, H, m) s'"

section \<open>Invariant\<close>

fun aok :: "'n nexts \<Rightarrow> 'n apc \<Rightarrow> 'n list \<Rightarrow> bool" where
  "aok nx (Push_Load p) h = (h = [p])"
| "aok nx (Push_Write p old) h = (h = [p])"
| "aok nx (Push_Cas p old) h = (h = [p] \<and> nx p = old)"
| "aok nx (Pre_Load q) h = (h \<noteq> [] \<and> (\<exists>r. lseg nx (iq_head q) h r) \<and> iq_tail q = last_ptr h)"
| "aok nx (Pre_Write q old) h = (h \<noteq> [] \<and> (\<exists>r. lseg nx (iq_head q) h r) \<and> iq_tail q = last_ptr h)"
| "aok nx (Pre_Cas q old) h = (h \<noteq> [] \<and> lseg nx (iq_head q) h old \<and> iq_tail q = last_ptr h)"
| "aok nx (Reset_Ret old) h = lseg nx old h nullptr"
| "aok nx _ h = (h = [])"

definition stack_ok :: "'n astack \<Rightarrow> bool" where
  "stack_ok m \<longleftrightarrow> lseg (a_next m) (a_head m) (a_cont m) nullptr \<and> a_in m = a_out m @ rev (a_cont m)"

definition own_ok :: "('t \<Rightarrow> 'n list) \<Rightarrow> 'n list \<Rightarrow> bool" where
  "own_ok H xs \<longleftrightarrow> (\<forall>t. distinct (H t) \<and> set (H t) \<inter> set xs = {}) \<and> (\<forall>t u. t \<noteq> u \<longrightarrow> set (H t) \<inter> set (H u) = {})"

definition ainv :: "('t, 'n) asys \<Rightarrow> bool" where
  "ainv s \<longleftrightarrow> (case s of (T, H, m) \<Rightarrow> stack_ok m \<and> own_ok H (a_cont m) \<and> (\<forall>t. aok (a_next m) (T t) (H t)))"

lemma ainvI: "stack_ok m \<Longrightarrow> own_ok H (a_cont m) \<Longrightarrow> (\<And>t. aok (a_next m) (T t) (H t)) \<Longrightarrow> ainv (T, H, m)"
  by (simp add: ainv_def)

lemma ainvD: "ainv (T, H, m) \<Longrightarrow> stack_ok m" "ainv (T, H, m) \<Longrightarrow> own_ok H (a_cont m)" "ainv (T, H, m) \<Longrightarrow> aok (a_next m) (T t) (H t)"
  by (auto simp: ainv_def)

lemma aok_frame: "aok nx p h \<Longrightarrow> (\<And>x. x \<in> set h \<Longrightarrow> nx' x = nx x) \<Longrightarrow> aok nx' p h"
proof -
  assume a: "aok nx p h" and eq: "\<And>x. x \<in> set h \<Longrightarrow> nx' x = nx x"
  have "lseg nx' p' h q' = lseg nx p' h q'" for p' q' by (rule lseg_cong) (simp add: eq)
  with a eq show ?thesis by (cases p) auto
qed

lemma own_okD:
  assumes "own_ok H xs"
  shows "distinct (H t)" "x \<in> set (H t) \<Longrightarrow> x \<notin> set xs" "t \<noteq> u \<Longrightarrow> x \<in> set (H t) \<Longrightarrow> x \<notin> set (H u)"
  using assms unfolding own_ok_def by blast+

lemma own_ok_upd:
  assumes "own_ok H xs" "distinct h" "set h \<inter> set ys = {}" "\<And>u. u \<noteq> t \<Longrightarrow> set h \<inter> set (H u) = {}"
    "\<And>u. u \<noteq> t \<Longrightarrow> set (H u) \<inter> set ys = {}"
  shows "own_ok (H(t := h)) ys"
proof -
  have "distinct ((H(t := h)) u)" "set ((H(t := h)) u) \<inter> set ys = {}" for u
    using assms(2,3,5) own_okD(1) [OF assms(1)] by (cases "u = t"; simp)+
  moreover have "set ((H(t := h)) u) \<inter> set ((H(t := h)) v) = {}" if "u \<noteq> v" for u v
    using that assms(1,4) unfolding own_ok_def by (cases "u = t"; cases "v = t") (auto simp: Int_commute)
  ultimately show ?thesis unfolding own_ok_def by blast
qed

text \<open>Steps that only write links of the thread's own nodes.\<close>

lemma ainv_local:
  assumes inv: "ainv (T, H, m)" and p: "aok nx p (H t)" and nx: "\<And>x. x \<notin> set (H t) \<Longrightarrow> nx x = a_next m x"
  shows "ainv (T(t := p), H(t := H t), m\<lparr>a_next := nx\<rparr>)"
proof (rule ainvI)
  note o = own_okD [OF ainvD(2) [OF inv]]
  have "lseg nx (a_head m) (a_cont m) nullptr = lseg (a_next m) (a_head m) (a_cont m) nullptr"
    by (rule lseg_cong) (use nx o(2) in metis)
  then show "stack_ok (m\<lparr>a_next := nx\<rparr>)" using ainvD(1) [OF inv] by (simp add: stack_ok_def)
  show "own_ok (H(t := H t)) (a_cont (m\<lparr>a_next := nx\<rparr>))" using ainvD(2) [OF inv] by simp
  show "aok (a_next (m\<lparr>a_next := nx\<rparr>)) ((T(t := p)) u) ((H(t := H t)) u)" for u
  proof (cases "u = t")
    case False
    then have "aok nx (T u) (H u)" by (intro aok_frame [OF ainvD(3) [OF inv]] nx) (use o(3) in metis)
    with False show ?thesis by simp
  qed (use p in simp)
qed

text \<open>Steps that move the thread's nodes to or from the stack.\<close>

lemma ainv_move:
  assumes inv: "ainv (T, H, m)" and m': "stack_ok m'" "a_next m' = a_next m"
    and p: "aok (a_next m) p h" and h: "distinct h" "set h \<inter> set (a_cont m') = {}"
    and mv: "set h \<union> set (a_cont m') \<subseteq> set (H t) \<union> set (a_cont m)"
  shows "ainv (T(t := p), H(t := h), m')"
proof (rule ainvI [OF m'(1)])
  note o = own_okD [OF ainvD(2) [OF inv]]
  have "x \<notin> set h \<and> x \<notin> set (a_cont m')" if "u \<noteq> t" "x \<in> set (H u)" for u x
    using o(2) [OF that(2)] o(3) [OF that] mv by auto
  then show "own_ok (H(t := h)) (a_cont m')"
    by (intro own_ok_upd [OF ainvD(2) [OF inv] h]) blast+
  show "aok (a_next m') ((T(t := p)) u) ((H(t := h)) u)" for u
    using p ainvD(3) [OF inv, of u] m'(2) by simp
qed

lemma ainv_atstep:
  assumes inv: "ainv (T, H, m)" and s: "(p, h, m') \<in> set (atstep (T t) (H t) m)"
  shows "ainv (T(t := p), H(t := h), m')"
proof -
  note k = ainvD(3) [OF inv, of t] and st = ainvD(1) [OF inv, unfolded stack_ok_def]
  note o = own_okD [OF ainvD(2) [OF inv]]
  have plain: "ainv (T(t := p'), H(t := H t), m)" if "aok (a_next m) p' (H t)" for p'
    using ainv_local [OF inv that] by simp
  have idle: "ainv (T(t := p'), H(t := []), m)" if "aok (a_next m) p' []" for p'
    by (rule ainv_move [OF inv ainvD(1) [OF inv] refl that]) auto
  show ?thesis
  proof (cases "T t")
    case (Push_Write q old)
    then have h: "H t = [q]" using k by simp
    have "ainv (T(t := Push_Cas q old), H(t := H t), m\<lparr>a_next := (a_next m)(q := old)\<rparr>)"
      by (rule ainv_local [OF inv]) (use h in auto)
    with s Push_Write show ?thesis by simp
  next
    case (Push_Cas q old)
    then have hq: "H t = [q]" "a_next m q = old" using k by simp_all
    have "q \<notin> set (a_cont m)" using o(2) [of q t] hq(1) by simp
    then have "ainv (T(t := Push_Ret (old = nullptr)), H(t := []),
        m\<lparr>a_head := Some q, a_cont := q # a_cont m, a_in := a_in m @ [q]\<rparr>)" if "a_head m = old"
      using st hq that by (intro ainv_move [OF inv]) (simp_all add: stack_ok_def)
    moreover have "ainv (T(t := Push_Write q (a_head m)), H(t := H t), m)" by (rule plain) (use hq in simp)
    ultimately show ?thesis using s Push_Cas by (auto split: if_splits)
  next
    case (Pre_Write q old)
    then have q: "H t \<noteq> []" "iq_tail q = Some (last (H t))" using k by auto
    obtain r where r: "lseg (a_next m) (iq_head q) (H t) r" using k Pre_Write by auto
    have "lseg ((a_next m)(last (H t) := old)) (iq_head q) (H t) old"
      by (rule lseg_redirect [OF r q(1) o(1)])
    have "ainv (T(t := Pre_Cas q old), H(t := H t), m\<lparr>a_next := (a_next m)(last (H t) := old)\<rparr>)"
      by (rule ainv_local [OF inv]) (use \<open>lseg _ _ _ old\<close> q in auto)
    with q s Pre_Write show ?thesis by (simp add: iq_back_def)
  next
    case (Pre_Cas q old)
    then have q: "H t \<noteq> []" "lseg (a_next m) (iq_head q) (H t) old" "iq_tail q = last_ptr (H t)" using k by auto
    have "ainv (T(t := AIdle), H(t := []),
        m\<lparr>a_head := iq_front q, a_cont := H t @ a_cont m, a_in := a_in m @ rev (H t)\<rparr>)" if "a_head m = old"
      using st q that by (intro ainv_move [OF inv]) (auto simp: stack_ok_def lseg_append iq_front_def)
    moreover have "ainv (T(t := Pre_Write q (a_head m)), H(t := H t), m)"
      by (rule plain) (use q in auto)
    ultimately show ?thesis using s Pre_Cas by (auto split: if_splits)
  next
    case (Reset_Cas old)
    then have h: "H t = []" using k by simp
    have "ainv (T(t := Reset_Ret old), H(t := a_cont m),
        m\<lparr>a_head := nullptr, a_cont := [], a_out := a_out m @ rev (a_cont m)\<rparr>)" if "a_head m = old"
      using st that lseg_distinct by (intro ainv_move [OF inv]) (auto simp: stack_ok_def)
    moreover have "ainv (T(t := Reset_Cas (a_head m)), H(t := H t), m)" by (rule plain) (use h in simp)
    ultimately show ?thesis using s Reset_Cas by (auto split: if_splits)
  next
    case (Reset_Ret old)
    then have l: "lseg (a_next m) old (H t) nullptr" using k by simp
    from iq_create_reversed_refines [OF l] obtain nx q where
      q: "iq_create_reversed (a_next m) old = Some (nx, q)" "same_off (set (H t)) (a_next m) nx" by blast
    have "ainv (T(t := AIdle), H(t := []), m\<lparr>a_next := nx\<rparr>)"
    proof (rule ainvI)
      have "lseg nx (a_head m) (a_cont m) nullptr = lseg (a_next m) (a_head m) (a_cont m) nullptr"
        by (rule same_off_lseg [OF q(2)]) (use o(2) in blast)
      then show "stack_ok (m\<lparr>a_next := nx\<rparr>)" using st by (simp add: stack_ok_def)
      show "own_ok (H(t := [])) (a_cont (m\<lparr>a_next := nx\<rparr>))"
        using o(2) by (intro own_ok_upd [OF ainvD(2) [OF inv]]) auto
      show "aok (a_next (m\<lparr>a_next := nx\<rparr>)) ((T(t := AIdle)) u) ((H(t := [])) u)" for u
      proof (cases "u = t")
        case False
        have "aok nx (T u) (H u)"
          by (rule aok_frame [OF ainvD(3) [OF inv]]) (use q(2) o(3) False in \<open>auto simp: same_off_def\<close>)
        with False show ?thesis by simp
      qed simp
    qed
    with idle [of AIdle] s Reset_Ret q(1) show ?thesis by (auto simp: pop_swap_reversed_def)
  qed (use s k plain idle in auto)
qed

lemma ainv_start:
  assumes inv: "ainv (T, H, m)" and t: "T t = AIdle" and un: "unowned (T, H, m) (set h)" and h: "distinct h" and p: "aok (a_next m) p h"
  shows "ainv (T(t := p), H(t := h), m)"
proof (rule ainvI [OF ainvD(1) [OF inv]])
  show "own_ok (H(t := h)) (a_cont m)"
    using un own_okD(2) [OF ainvD(2) [OF inv]] h
    by (intro own_ok_upd [OF ainvD(2) [OF inv]]) (auto simp: unowned_def)
  show "aok (a_next m) ((T(t := p)) u) ((H(t := h)) u)" for u using p ainvD(3) [OF inv, of u] by simp
qed

lemma ainv_astep:
  assumes "astep s s'" "ainv s"
  shows "ainv s'"
  using assms
proof cases
  case (run p h m' T t H m)
  with assms(2) have "ainv (T, H, m)" by simp
  from ainv_atstep [OF this run(3)] run(2) show ?thesis by simp
next
  case (push T t H m p)
  then show ?thesis using ainv_start [of T H m t "[p]" "Push_Load p"] assms(2) by simp
next
  case (prepend T t H m ns q)
  then have "aok (a_next m) (Pre_Load q) ns" by (auto simp: iq_repr_def)
  with prepend show ?thesis using ainv_start [of T H m t ns "Pre_Load q"] assms(2) by simp
next
  case (reset T t H m)
  then have "H t = []" using ainvD(3) [of T H m t] assms(2) by simp
  then have "H(t := []) = H" by (simp add: fun_upd_idem)
  with reset show ?thesis using ainv_start [of T H m t "[]" Reset_Load] assms(2) by (simp add: unowned_def)
next
  case (rewrite T H m p v)
  then have inv: "ainv (T, H, m)" and p: "p \<notin> set (a_cont m)" "\<And>t. p \<notin> set (H t)"
    using assms(2) by (auto simp: unowned_def)
  have "ainv (T, H, m\<lparr>a_next := (a_next m)(p := v)\<rparr>)"
  proof (rule ainvI)
    show "stack_ok (m\<lparr>a_next := (a_next m)(p := v)\<rparr>)"
      using ainvD(1) [OF inv] p(1) by (simp add: stack_ok_def)
    show "own_ok H (a_cont (m\<lparr>a_next := (a_next m)(p := v)\<rparr>))" using ainvD(2) [OF inv] by simp
    show "aok (a_next (m\<lparr>a_next := (a_next m)(p := v)\<rparr>)) (T u) (H u)" for u
      by (rule aok_frame [OF ainvD(3) [OF inv]]) (use p(2) [of u] in auto)
  qed
  with rewrite show ?thesis by simp
qed

lemma ainv_reachable: "areachable s \<Longrightarrow> ainv s"
proof (induction rule: areachable.induct)
  case (init nx)
  show ?case by (rule ainvI) (simp_all add: astack_new_def stack_ok_def own_ok_def)
qed (rule ainv_astep)

section \<open>Schedules\<close>

text \<open>An executable choice of steps for two threads.\<close>

datatype 'n acmd = ARun bool nat | APush bool 'n | APrepend bool "'n iqueue" "'n list" | AReset bool

definition free2 :: "(bool \<Rightarrow> 'n list) \<Rightarrow> 'n astack \<Rightarrow> 'n list \<Rightarrow> bool" where
  "free2 H m ns \<longleftrightarrow> list_all (\<lambda>x. \<not> List.member (a_cont m @ H True @ H False) x) ns"

fun amove :: "'n acmd \<Rightarrow> (bool, 'n) asys \<Rightarrow> (bool, 'n) asys option" where
  "amove (ARun t i) (T, H, m) = (let ps = atstep (T t) (H t) m in
     if i < length ps then (case ps ! i of (p, h, m') \<Rightarrow> Some (T(t := p), H(t := h), m')) else None)"
| "amove (APush t p) (T, H, m) =
     (if T t = AIdle \<and> free2 H m [p] then Some (T(t := Push_Load p), H(t := [p]), m) else None)"
| "amove (APrepend t q ns) (T, H, m) =
     (if T t = AIdle \<and> free2 H m ns \<and> distinct ns \<and> ns \<noteq> [] \<and> iq_repr (a_next m) q ns
      then Some (T(t := Pre_Load q), H(t := ns), m) else None)"
| "amove (AReset t) (T, H, m) = (if T t = AIdle then Some (T(t := Reset_Load), H, m) else None)"

fun arun :: "'n acmd list \<Rightarrow> (bool, 'n) asys \<Rightarrow> (bool, 'n) asys option" where
  "arun [] s = Some s"
| "arun (x # xs) s = Option.bind (amove x s) (arun xs)"

lemma free2_unowned: "free2 H m ns \<Longrightarrow> unowned (T, H, m) (set ns)"
  unfolding unowned_def free2_def list_all_iff by (auto simp: all_bool_eq)

lemma amove_astep: "amove x s = Some s' \<Longrightarrow> astep s s'"
proof (cases s)
  case (fields T H m)
  assume a: "amove x s = Some s'"
  show ?thesis
  proof (cases x)
    case (ARun t i)
    obtain p h m' where r: "atstep (T t) (H t) m ! i = (p, h, m')" by (metis prod_cases3)
    with a fields ARun have i: "i < length (atstep (T t) (H t) m)" "s' = (T(t := p), H(t := h), m')"
      by (simp_all add: Let_def split: if_splits)
    then have "(p, h, m') \<in> set (atstep (T t) (H t) m)" using r nth_mem by metis
    from astep.run [of p h m' T t H m, OF this] show ?thesis using fields i by simp
  next
    case (APush t p)
    with a fields free2_unowned [of H m "[p]" T] show ?thesis
      by (auto split: if_splits intro: astep.push)
  next
    case (APrepend t q ns)
    with a fields free2_unowned [of H m ns T] show ?thesis
      by (auto split: if_splits intro: astep.prepend)
  qed (use a fields in \<open>auto split: if_splits intro: astep.reset\<close>)
qed

lemma arun_reachable: "arun xs s = Some s' \<Longrightarrow> areachable s \<Longrightarrow> areachable s'"
proof (induction xs arbitrary: s)
  case (Cons x xs)
  then obtain s1 where s1: "amove x s = Some s1" "arun xs s1 = Some s'"
    by (auto simp: Option.bind_eq_Some_conv)
  from Cons.IH [OF s1(2) areachable.step [OF Cons.prems(2) amove_astep [OF s1(1)]]] show ?case .
qed simp

definition arun_of :: "'n acmd list \<Rightarrow> ((bool, 'n) asys \<Rightarrow> bool) \<Rightarrow> bool" where
  "arun_of xs P = (case arun xs (\<lambda>_. AIdle, \<lambda>_. [], astack_new (\<lambda>_. nullptr)) of None \<Rightarrow> False | Some s \<Rightarrow> P s)"

lemma arun_ofD:
  assumes "arun_of xs P"
  shows "\<exists>T H m. areachable (T, H, m) \<and> P (T, H, m)"
proof -
  obtain s where s: "arun xs (\<lambda>_. AIdle, \<lambda>_. [], astack_new (\<lambda>_. nullptr)) = Some s" "P s"
    using assms by (auto simp: arun_of_def split: option.splits)
  have "areachable s" by (rule arun_reachable [OF s(1) areachable.init])
  with s(2) show ?thesis by (cases s) auto
qed

text \<open>\<open>False\<close> pushes 1 while \<open>True\<close> pushes 2 in the middle of it, then \<open>True\<close> takes the stack.\<close>

definition demo_pushes :: "nat acmd list" where
  "demo_pushes = [APush False 1, ARun False 0, ARun False 0, APush True 2, ARun True 0, ARun True 0, ARun True 1,
     ARun True 0, ARun False 0, ARun False 0, ARun False 1]"

definition demo_take :: "nat acmd list" where
  "demo_take = [AReset True, ARun True 0, ARun True 1]"

section \<open>Properties\<close>

lemma pop_swap_refines:
  assumes "areachable (T, H, m)" "T t = Reset_Ret old"
  shows "\<exists>q. pop_swap m old = Some q \<and> iq_repr (a_next m) q (H t)"
    "\<exists>nx q. pop_swap_reversed m old = Some (q, m\<lparr>a_next := nx\<rparr>) \<and> iq_repr nx q (rev (H t)) \<and> same_off (set (H t)) (a_next m) nx"
proof -
  have l: "lseg (a_next m) old (H t) nullptr"
    using ainvD(3) [OF ainv_reachable [OF assms(1)], of t] assms(2) by simp
  show "\<exists>q. pop_swap m old = Some q \<and> iq_repr (a_next m) q (H t)"
    using iq_create_refines [OF l] by (auto simp: pop_swap_def)
  show "\<exists>nx q. pop_swap_reversed m old = Some (q, m\<lparr>a_next := nx\<rparr>) \<and> iq_repr nx q (rev (H t)) \<and> same_off (set (H t)) (a_next m) nx"
    using iq_create_reversed_refines [OF l] by (auto simp: pop_swap_reversed_def)
qed

text \<open>
  C10: in every interleaving of pushes, prepends and takes, with spurious failures of the exchange and
  with nodes that are recycled while another thread still holds an old head (the ABA situation), the links
  from \<open>__head_\<close> spell exactly the nodes pushed and not yet taken, without repetition; the nodes
  delivered so far followed by those on the stack, oldest first, are the nodes in the order of their
  pushes, so that none is lost, duplicated or reordered; and \<open>_M_empty\<close> says whether any is left.
\<close>

theorem atomic_queue_fifo:
  assumes "areachable (T, H, m)"
  shows "lseg (a_next m) (a_head m) (a_cont m) nullptr \<and> distinct (a_cont m)
     \<and> a_in m = a_out m @ rev (a_cont m) \<and> (astack_empty m \<longleftrightarrow> a_cont m = [])"
proof -
  have st: "lseg (a_next m) (a_head m) (a_cont m) nullptr" "a_in m = a_out m @ rev (a_cont m)"
    using ainvD(1) [OF ainv_reachable [OF assms]] by (simp_all add: stack_ok_def)
  have "a_head m = nullptr \<longleftrightarrow> a_cont m = []" using st(1) by (cases "a_cont m") auto
  with st lseg_distinct [OF st(1)] show ?thesis by (simp add: astack_empty_def)
qed

theorem atomic_queue_fifo_witness:
  "\<exists>T H m. areachable (T :: bool \<Rightarrow> nat apc, H, m) \<and> a_in m = [2, 1 :: nat] \<and> lseg (a_next m) (a_head m) [1, 2] nullptr \<and> \<not> astack_empty m"
proof -
  have "arun_of demo_pushes (\<lambda>(T, H, m). a_in m = [2, 1] \<and> a_out m = [])" by code_simp
  from arun_ofD [OF this] obtain T H m where s: "areachable (T :: bool \<Rightarrow> nat apc, H, m)" "a_in m = [2, 1]" "a_out m = []" by auto
  note p = atomic_queue_fifo [OF s(1)]
  then have "rev (a_cont m) = [2, 1]" using s(2,3) by (metis append_Nil)
  then have "a_cont m = [1, 2]" by (simp add: rev_swap)
  with p s show ?thesis by auto
qed

text \<open>
  a thread that has just taken the stack holds a chain from which \<open>_M_pop_swap\<close> builds the
  intrusive queue of the taken nodes, newest first, and \<open>_M_pop_swap_reversed\<close> the queue in the order
  of the pushes; both terminate without touching a link of a node that another thread or the stack owns.
\<close>

theorem atomic_queue_take:
  assumes "areachable (T, H, m)" "T t = Reset_Ret old"
  shows "(\<exists>q. pop_swap m old = Some q \<and> iq_repr (a_next m) q (H t))
    \<and> (\<exists>nx q. pop_swap_reversed m old = Some (q, m\<lparr>a_next := nx\<rparr>) \<and> iq_repr nx q (rev (H t))
         \<and> (\<forall>u. u \<noteq> t \<longrightarrow> (\<forall>x \<in> set (H u). nx x = a_next m x)) \<and> (\<forall>x \<in> set (a_cont m). nx x = a_next m x))"
proof -
  note o = own_okD [OF ainvD(2) [OF ainv_reachable [OF assms(1)]]]
  obtain nx q where r: "pop_swap_reversed m old = Some (q, m\<lparr>a_next := nx\<rparr>)" "iq_repr nx q (rev (H t))"
    "same_off (set (H t)) (a_next m) nx" using pop_swap_refines(2) [OF assms] by blast
  have "nx x = a_next m x" if "x \<notin> set (H t)" for x using r(3) that by (simp add: same_off_def)
  then have "\<forall>u. u \<noteq> t \<longrightarrow> (\<forall>x \<in> set (H u). nx x = a_next m x)" "\<forall>x \<in> set (a_cont m). nx x = a_next m x"
    using o(2,3) by metis+
  with r pop_swap_refines(1) [OF assms] show ?thesis by blast
qed

theorem atomic_queue_take_witness:
  "\<exists>T H m nx q. areachable (T, H, m) \<and> T True = Reset_Ret (Some 1)
     \<and> pop_swap_reversed m (Some 1) = Some (q, m\<lparr>a_next := nx\<rparr>) \<and> iq_repr nx q [2, 1 :: nat]"
proof -
  have "arun_of (demo_pushes @ demo_take) (\<lambda>(T, H, m). T True = Reset_Ret (Some 1) \<and> H True = [1, 2])" by code_simp
  from arun_ofD [OF this] obtain T H m where
    s: "areachable (T, H, m)" "T True = Reset_Ret (Some 1)" "H True = [1, 2 :: nat]" by auto
  from atomic_queue_take [OF s(1,2)] obtain nx q where
    "pop_swap_reversed m (Some 1) = Some (q, m\<lparr>a_next := nx\<rparr>)" "iq_repr nx q (rev (H True))" by blast
  moreover have "rev (H True) = [2, 1]" using s(3) by simp
  ultimately show ?thesis using s(1,2) by metis
qed



end
