(* ===== verification/Ring_Index.thy ===== *)
theory Ring_Index
  imports Prelude
begin

text \<open>
  Free-running 32-bit ring indices, shared by the submission queue and by the remote block source: the
  position of index \<open>i\<close> in a ring of \<open>2 ^ k\<close> cells is \<open>i AND (2 ^ k - 1)\<close>, and consecutive indices
  have distinct positions across the wrap-around.
\<close>

lemma take_bit_inj:
  fixes a b :: u32
  assumes "take_bit k a = take_bit k b" "unat (a - b) < 2 ^ k" "k \<le> 32"
  shows "a = b"
proof -
  have d': "(2::int) ^ k dvd 2 ^ LENGTH(32)" using le_imp_power_dvd [OF assms(3), of "2 :: int"] by simp
  have "uint a mod 2 ^ k = uint b mod 2 ^ k"
    using assms(1) by (metis take_bit_eq_mod unsigned_take_bit_eq)
  then have "(uint a - uint b) mod 2 ^ k = 0" by (simp add: mod_eq_dvd_iff)
  moreover have "uint (a - b) mod 2 ^ k = (uint a - uint b) mod 2 ^ k"
    by (simp only: uint_word_ariths(2) mod_mod_cancel [OF d'])
  moreover have "uint (a - b) < 2 ^ k" using assms(2) uint_nat by (metis of_nat_less_iff of_nat_numeral of_nat_power)
  ultimately have "uint (a - b) = 0" by simp
  then show ?thesis by (simp add: uint_0_iff)
qed

lemma and_mask_inj:
  fixes a :: u32
  assumes "(a + of_nat i) AND (2 ^ k - 1) = (a + of_nat j) AND (2 ^ k - 1)" "i < 2 ^ k" "j < 2 ^ k" "k < 32"
  shows "i = j"
proof -
  have *: "i = j" if e: "take_bit k (a + of_nat i) = take_bit k (a + of_nat j)" and ij: "j \<le> i" "i < 2 ^ k" for i j
  proof -
    have p: "(2::nat) ^ k < 2 ^ 32" using assms(4) by (intro power_strict_increasing) auto
    have "(a + of_nat i) - (a + of_nat j) = (of_nat (i - j) :: u32)" using ij(1) by (simp add: of_nat_diff)
    moreover have "unat (of_nat (i - j) :: u32) = i - j" using ij(2) p by (simp add: unat_of_nat)
    ultimately have "unat ((a + of_nat i) - (a + of_nat j)) = i - j" by simp
    with take_bit_inj [OF e] ij(2) assms(4) have "a + of_nat i = a + (of_nat j :: u32)" by simp
    then have "(of_nat i :: u32) = of_nat j" by simp
    moreover have "unat (of_nat i :: u32) = i" "unat (of_nat j :: u32) = j" using ij p by (simp_all add: unat_of_nat)
    ultimately show "i = j" by metis
  qed
  have "take_bit k (a + of_nat i) = take_bit k (a + of_nat j)"
    using assms(1) by (simp add: take_bit_eq_mask mask_eq_exp_minus_1)
  with * [of i j] * [of j i] assms(2,3) show ?thesis by (metis nat_le_linear)
qed

lemma unat_incr: "r < mx \<Longrightarrow> unat (r + 1 :: u32) = Suc (unat r)"
proof -
  assume "r < mx"
  then have "Suc (unat r) < 2 ^ 32" using unat_u32_bound [of mx] by (simp add: word_less_nat_alt)
  then show ?thesis by (simp add: unat_word_ariths)
qed

lemma and_pow2: "x AND (2 ^ k - 1) = take_bit k (x :: u32)"
  by (simp add: take_bit_eq_mask mask_eq_exp_minus_1)

end
