(* ===== verification/Io_Ring.thy ===== *)
theory Io_Ring
  imports Intrusive_Queue Ring_Index
begin

text \<open>
  The io_uring part of \<open>__scheduler.hpp\<close>: operations (\<open>__ioring_task\<close>), the operation that cancels
  another one (\<open>__ioring_stop_inplace\<close>), and the two rings shared with the kernel. An operation is
  named by its address, which is also the \<open>user_data\<close> of its entries. The functions behind
  \<open>__virt_\<close> are the parameters \<open>sub\<close> and \<open>com\<close>; they may change the whole state, to which
  a client adds its own fields. The queue entries are the part of the documented kernel interface
  that the code uses, with the constants of \<open>linux/io_uring.h\<close> and \<open>errno.h\<close>.
\<close>

section \<open>Entries\<close>

record sqe =
  sqe_opcode :: u8
  sqe_flags :: u8
  sqe_ioprio :: u16
  sqe_fd :: s32
  sqe_off :: u64
  sqe_addr :: u64
  sqe_len :: u32
  sqe_op_flags :: u32
  sqe_user_data :: u64
  sqe_buf_group :: u16

record cqe =
  cqe_user_data :: u64
  cqe_res :: s32
  cqe_flags :: u32

definition sqe_zero :: sqe where
  "sqe_zero = \<lparr>sqe_opcode = 0, sqe_flags = 0, sqe_ioprio = 0, sqe_fd = 0, sqe_off = 0, sqe_addr = 0, sqe_len = 0,
     sqe_op_flags = 0, sqe_user_data = 0, sqe_buf_group = 0\<rparr>"

definition op_async_cancel :: u8 where "op_async_cancel = 14"
definition cqe_f_more :: u32 where "cqe_f_more = 2"
definition ecanceled :: s32 where "ecanceled = 125"

section \<open>Operations\<close>

text \<open>An operation of a client, or the cancellation of the operation at an address.\<close>

datatype task_kind = Operation | Stop_Of u64

record io =
  n_ops :: "u64 \<Rightarrow> s32"
  kind :: "u64 \<Rightarrow> task_kind"
  io_next :: "u64 nexts"
  io_pending :: "u64 iqueue"

type_synonym 'z submit_fn = "u64 \<Rightarrow> sqe \<Rightarrow> 'z io_scheme \<Rightarrow> sqe \<times> 'z io_scheme"
type_synonym 'z complete_fn = "u64 \<Rightarrow> cqe \<Rightarrow> 'z io_scheme \<Rightarrow> 'z io_scheme"

definition n_ops_sub :: "u64 \<Rightarrow> 'z io_scheme \<Rightarrow> 'z io_scheme" where
  "n_ops_sub op st = st\<lparr>n_ops := (n_ops st)(op := n_ops st op - 1)\<rparr>"

definition ioring_complete :: "'z complete_fn \<Rightarrow> u64 \<Rightarrow> cqe \<Rightarrow> 'z io_scheme \<Rightarrow> u32 \<times> 'z io_scheme" where
  "ioring_complete virt op c st = (
     let more = cqe_flags c AND cqe_f_more \<noteq> 0; ret = (if more then 0 else 1) in
     if more \<and> n_ops st op = 1 then (ret, virt op c st)
     else if n_ops st op = 1 then (ret, virt op c (n_ops_sub op st))
     else (ret, n_ops_sub op st))"

definition manual_stop :: "'z complete_fn \<Rightarrow> u64 \<Rightarrow> 'z io_scheme \<Rightarrow> 'z io_scheme" where
  "manual_stop virt op st =
     snd (ioring_complete virt op \<lparr>cqe_user_data = op, cqe_res = - ecanceled, cqe_flags = 0\<rparr> st)"

definition stop_submit :: "u64 \<Rightarrow> sqe \<Rightarrow> sqe" where
  "stop_submit target s = sqe_zero\<lparr>sqe_opcode := op_async_cancel, sqe_addr := target\<rparr>"

definition stop_complete :: "'z complete_fn \<Rightarrow> u64 \<Rightarrow> 'z io_scheme \<Rightarrow> 'z io_scheme" where
  "stop_complete com target st =
     (if n_ops st target = 1 then manual_stop com target (n_ops_sub target st) else n_ops_sub target st)"

definition manage_submit :: "'z submit_fn \<Rightarrow> 'z submit_fn" where
  "manage_submit sub op s st = (case kind st op of Operation \<Rightarrow> sub op s st | Stop_Of t \<Rightarrow> (stop_submit t s, st))"

definition manage_complete :: "'z complete_fn \<Rightarrow> 'z complete_fn" where
  "manage_complete com op c st = (case kind st op of Operation \<Rightarrow> com op c st | Stop_Of t \<Rightarrow> stop_complete com t st)"

definition ioring_submit :: "'z submit_fn \<Rightarrow> 'z submit_fn" where
  "ioring_submit sub op s st = manage_submit sub op s (st\<lparr>n_ops := (n_ops st)(op := 1)\<rparr>)"

section \<open>The submission queue\<close>

record sq_ring =
  sq_head :: u32
  sq_tail :: u32
  sq_array :: "u32 \<Rightarrow> u32"
  sq_sqes :: "u32 \<Rightarrow> sqe"
  sq_mask :: u32
  sq_nslot :: u32

definition umin :: "u32 \<Rightarrow> u32 \<Rightarrow> u32" where
  "umin a b = (if a < b then a else b)"

definition umax :: "u32 \<Rightarrow> u32 \<Rightarrow> u32" where
  "umax a b = (if a < b then b else a)"

partial_function (option) sq_loop ::
  "'z submit_fn \<Rightarrow> 'z complete_fn \<Rightarrow> u32 \<Rightarrow> bool \<Rightarrow> u32 \<Rightarrow> u32 \<Rightarrow> sq_ring \<Rightarrow> 'z io_scheme
     \<Rightarrow> (u32 \<times> u32 \<times> sq_ring \<times> 'z io_scheme) option" where
  "sq_loop sub com mx stop r tail ring st =
     (if iq_empty (io_pending st) \<or> \<not> r < mx then Some (r, tail, ring, st)
      else Option.bind (iq_pop_front (io_next st) (io_pending st)) (\<lambda>(p, q). Option.bind (deref p) (\<lambda>op.
        let m = tail AND sq_mask ring;
            (s, st1) = ioring_submit sub op (sq_sqes ring m) (st\<lparr>io_pending := q\<rparr>);
            stop1 = (stop \<and> sqe_opcode s \<noteq> op_async_cancel)
        in if stop1
           then sq_loop sub com mx stop1 r tail (ring\<lparr>sq_sqes := (sq_sqes ring)(m := s)\<rparr>)
                  (manual_stop (manage_complete com) op st1)
           else sq_loop sub com mx stop1 (r + 1) (tail + 1)
                  (ring\<lparr>sq_sqes := (sq_sqes ring)(m := s\<lparr>sqe_user_data := op\<rparr>), sq_array := (sq_array ring)(m := m)\<rparr>)
                  st1)))"

definition sq_submit ::
  "'z submit_fn \<Rightarrow> 'z complete_fn \<Rightarrow> u32 \<Rightarrow> bool \<Rightarrow> sq_ring \<Rightarrow> 'z io_scheme
     \<Rightarrow> (u32 \<times> sq_ring \<times> 'z io_scheme) option" where
  "sq_submit sub com mx stop ring st = (
     let tail = sq_tail ring; n = tail - sq_head ring; mx1 = umin mx (sq_nslot ring - n)
     in Option.bind (sq_loop sub com mx1 stop 0 tail ring st)
          (\<lambda>(r, tail1, ring1, st1). Some (r, ring1\<lparr>sq_tail := tail1\<rparr>, st1)))"

section \<open>The completion queue\<close>

record cq_ring =
  cq_head :: u32
  cq_cqes :: "u32 \<Rightarrow> cqe"
  cq_mask :: u32

text \<open>\<open>ld i\<close> is what the \<open>i\<close>-th load of the kernel's tail returns.\<close>

partial_function (option) cq_loop ::
  "(nat \<Rightarrow> u32) \<Rightarrow> 'z complete_fn \<Rightarrow> cq_ring \<Rightarrow> nat \<Rightarrow> u32 \<Rightarrow> u32 \<Rightarrow> 'z io_scheme
     \<Rightarrow> (u32 \<times> u32 \<times> 'z io_scheme) option" where
  "cq_loop ld com ring i head n st =
     (if head = ld i then Some (n, head, st)
      else let c = cq_cqes ring (head AND cq_mask ring);
               (k, st1) = ioring_complete (manage_complete com) (cqe_user_data c) c st
           in cq_loop ld com ring (Suc i) (head + 1) (n + k) st1)"

definition cq_complete ::
  "(nat \<Rightarrow> u32) \<Rightarrow> 'z complete_fn \<Rightarrow> cq_ring \<Rightarrow> 'z io_scheme \<Rightarrow> (u32 \<times> cq_ring \<times> 'z io_scheme) option" where
  "cq_complete ld com ring st =
     Option.bind (cq_loop ld com ring 0 (cq_head ring) 0 st)
       (\<lambda>(n, head, st1). Some (n, ring\<lparr>cq_head := head\<rparr>, st1))"

section \<open>Submission\<close>

text \<open>
  What the functions behind \<open>__virt_\<close> must respect: they do not touch the private queue, where a lemma
  says so. The submit functions of the clients in \<open>main.cxx\<close> do not; their completion functions touch it only by
  submitting an operation again, which none does for the entry of a manual stop.
\<close>

definition queue_frame :: "('z io_scheme \<Rightarrow> 'z io_scheme) \<Rightarrow> bool" where
  "queue_frame f \<longleftrightarrow> (\<forall>st. io_pending (f st) = io_pending st \<and> io_next (f st) = io_next st \<and> kind (f st) = kind st)"

definition slot_of :: "sq_ring \<Rightarrow> u32 \<Rightarrow> nat \<Rightarrow> u32" where
  "slot_of ring t i = (t + of_nat i) AND sq_mask ring"

lemma slot_of_inj: "sq_mask ring = 2 ^ k - 1 \<Longrightarrow> slot_of ring t i = slot_of ring t j \<Longrightarrow> i < 2 ^ k \<Longrightarrow> j < 2 ^ k \<Longrightarrow> k < 32 \<Longrightarrow> i = j"
  by (rule and_mask_inj [of t i k j]) (simp_all add: slot_of_def)

lemma slot_of_cong: "sq_mask ring' = sq_mask ring \<Longrightarrow> slot_of ring' = slot_of ring"
  by (simp add: slot_of_def fun_eq_iff)

lemma slot_of_Suc: "slot_of ring (t + 1) i = slot_of ring t (Suc i)"
  by (simp add: slot_of_def add.assoc)

lemma slot_of_0: "slot_of ring t 0 = t AND sq_mask ring"
  by (simp add: slot_of_def)

text \<open>Entries written for the operations \<open>ops\<close> from the free-running index \<open>t\<close> on, and nothing else.\<close>

definition entries :: "sq_ring \<Rightarrow> u32 \<Rightarrow> u64 list \<Rightarrow> bool" where
  "entries ring t ops \<longleftrightarrow> (\<forall>i < length ops. sq_array ring (slot_of ring t i) = slot_of ring t i
     \<and> sqe_user_data (sq_sqes ring (slot_of ring t i)) = ops ! i)"

definition same_else :: "u32 set \<Rightarrow> sq_ring \<Rightarrow> sq_ring \<Rightarrow> bool" where
  "same_else A ring ring' \<longleftrightarrow> sq_head ring' = sq_head ring \<and> sq_tail ring' = sq_tail ring \<and> sq_mask ring' = sq_mask ring
     \<and> sq_nslot ring' = sq_nslot ring \<and> (\<forall>m. m \<notin> A \<longrightarrow> sq_array ring' m = sq_array ring m \<and> sq_sqes ring' m = sq_sqes ring m)"

lemma same_else_refl: "same_else A ring ring"
  by (simp add: same_else_def)

lemma same_elseD:
  "same_else A ring ring' \<Longrightarrow> sq_head ring' = sq_head ring" "same_else A ring ring' \<Longrightarrow> sq_tail ring' = sq_tail ring"
  "same_else A ring ring' \<Longrightarrow> sq_mask ring' = sq_mask ring" "same_else A ring ring' \<Longrightarrow> sq_nslot ring' = sq_nslot ring"
  "same_else A ring ring' \<Longrightarrow> m \<notin> A \<Longrightarrow> sq_array ring' m = sq_array ring m"
  "same_else A ring ring' \<Longrightarrow> m \<notin> A \<Longrightarrow> sq_sqes ring' m = sq_sqes ring m"
  by (auto simp: same_else_def)

lemma same_else_trans: "same_else A r1 r2 \<Longrightarrow> same_else B r2 r3 \<Longrightarrow> same_else (A \<union> B) r1 r3"
  by (simp add: same_else_def)

lemma entries_Cons:
  assumes rest: "entries rb (t + 1) ops" and same: "same_else (slot_of rb (t + 1) ` {..<length ops}) ra rb"
    and first: "sq_array ra (slot_of ra t 0) = slot_of ra t 0" "sqe_user_data (sq_sqes ra (slot_of ra t 0)) = op"
    and mask: "sq_mask ra = 2 ^ k - 1" "k < 32" "length ops < 2 ^ k"
  shows "entries rb t (op # ops)"
  unfolding entries_def
proof (intro allI impI)
  fix i assume i: "i < length (op # ops)"
  have m: "slot_of rb = slot_of ra" "sq_mask rb = sq_mask ra"
    using same_elseD(3) [OF same] slot_of_cong [of rb ra] by simp_all
  show "sq_array rb (slot_of rb t i) = slot_of rb t i
     \<and> sqe_user_data (sq_sqes rb (slot_of rb t i)) = (op # ops) ! i"
  proof (cases i)
    case 0
    have "slot_of ra t 0 \<notin> slot_of rb (t + 1) ` {..<length ops}"
    proof
      assume "slot_of ra t 0 \<in> slot_of rb (t + 1) ` {..<length ops}"
      then obtain j where "j < length ops" "slot_of ra t 0 = slot_of ra t (Suc j)" by (auto simp: m slot_of_Suc)
      with slot_of_inj [OF mask(1), of t 0 "Suc j"] mask show False by simp
    qed
    with same_elseD(5,6) [OF same] first 0 m show ?thesis by simp
  next
    case (Suc j)
    with i rest have "sq_array rb (slot_of rb (t + 1) j) = slot_of rb (t + 1) j
       \<and> sqe_user_data (sq_sqes rb (slot_of rb (t + 1) j)) = ops ! j" by (simp add: entries_def)
    with Suc show ?thesis by (simp add: slot_of_Suc)
  qed
qed

definition submit_frame :: "'z submit_fn \<Rightarrow> bool" where
  "submit_frame sub \<longleftrightarrow> (\<forall>op s. queue_frame (\<lambda>st. snd (sub op s st)))"

definition complete_frame :: "'z complete_fn \<Rightarrow> bool" where
  "complete_frame com \<longleftrightarrow> (\<forall>op c. queue_frame (com op c))"

lemma submit_frameD:
  "submit_frame sub \<Longrightarrow> sub op s st = (s', st') \<Longrightarrow> io_pending st' = io_pending st \<and> io_next st' = io_next st \<and> kind st' = kind st"
  unfolding submit_frame_def queue_frame_def by (metis snd_conv)

lemma complete_frameD:
  "complete_frame com \<Longrightarrow> io_pending (com op c st) = io_pending st"
  "complete_frame com \<Longrightarrow> io_next (com op c st) = io_next st"
  "complete_frame com \<Longrightarrow> kind (com op c st) = kind st"
  by (auto simp: complete_frame_def queue_frame_def)

lemma ioring_submit_frame:
  assumes "submit_frame sub" "ioring_submit sub op s st = (s', st')"
  shows "io_pending st' = io_pending st \<and> io_next st' = io_next st \<and> kind st' = kind st"
  using assms submit_frameD [OF assms(1), of op s "st\<lparr>n_ops := (n_ops st)(op := 1)\<rparr>" s' st']
  unfolding ioring_submit_def manage_submit_def by (auto split: task_kind.splits)

text \<open>Without a stop, the loop moves operations from the queue to consecutive slots until either runs out.\<close>

lemma sq_loop_submits:
  assumes sub: "submit_frame sub" and mask: "sq_mask ring = 2 ^ k - 1" "k < 32"
    and q: "iq_repr (io_next st) (io_pending st) xs" and b: "unat r \<le> unat mx" "unat mx \<le> 2 ^ k"
  defines "n \<equiv> min (length xs) (unat mx - unat r)"
  shows "\<exists>ring' st'. sq_loop sub com mx False r tail ring st = Some (r + of_nat n, tail + of_nat n, ring', st')
    \<and> iq_repr (io_next st') (io_pending st') (drop n xs) \<and> entries ring' tail (take n xs)
    \<and> same_else (slot_of ring tail ` {..<n}) ring ring'"
  using q b mask(1) unfolding n_def
proof (induction xs arbitrary: r tail ring st)
  case Nil
  then show ?case
    by (subst sq_loop.simps) (auto simp: iq_repr_empty entries_def same_else_refl)
next
  case (Cons op xs)
  show ?case
  proof (cases "r < mx")
    case False
    then have "unat mx - unat r = 0" by (simp add: word_less_nat_alt)
    moreover have "sq_loop sub com mx False r tail ring st = Some (r, tail, ring, st)"
      using False by (subst sq_loop.simps) simp
    ultimately show ?thesis using Cons.prems(1) by (auto simp: entries_def same_else_refl)
  next
    case True
    then have r: "unat (r + 1) = Suc (unat r)" "unat (r + 1) \<le> unat mx"
      using unat_incr [OF True] True by (auto simp: word_less_nat_alt)
    define m where "m = tail AND sq_mask ring"
    from iq_pop_front_Cons [OF Cons.prems(1)] obtain q where
      q: "iq_pop_front (io_next st) (io_pending st) = Some (Some op, q)" "iq_repr (io_next st) q xs" by blast
    obtain s st1 where s: "ioring_submit sub op (sq_sqes ring m) (st\<lparr>io_pending := q\<rparr>) = (s, st1)" by fastforce
    have fr: "io_pending st1 = q" "io_next st1 = io_next st"
      using ioring_submit_frame [OF sub s] by simp_all
    let ?ring = "ring\<lparr>sq_sqes := (sq_sqes ring)(m := s\<lparr>sqe_user_data := op\<rparr>), sq_array := (sq_array ring)(m := m)\<rparr>"
    let ?n = "min (length xs) (unat mx - unat (r + 1))"
    have step: "sq_loop sub com mx False r tail ring st = sq_loop sub com mx False (r + 1) (tail + 1) ?ring st1"
      using iq_repr_empty [OF Cons.prems(1)] True q(1) s
      by (subst sq_loop.simps) (simp add: m_def [symmetric])
    have "iq_repr (io_next st1) (io_pending st1) xs" using q(2) fr by simp
    from Cons.IH [OF this r(2) Cons.prems(3), of ?ring "tail + 1"] Cons.prems(4) obtain ring' st' where
      ih: "sq_loop sub com mx False (r + 1) (tail + 1) ?ring st1 = Some (r + 1 + of_nat ?n, tail + 1 + of_nat ?n, ring', st')"
      "iq_repr (io_next st') (io_pending st') (drop ?n xs)" "entries ring' (tail + 1) (take ?n xs)"
      "same_else (slot_of ?ring (tail + 1) ` {..<?n}) ?ring ring'" by auto
    have n: "min (length (op # xs)) (unat mx - unat r) = Suc ?n" using r by (auto simp: min_def)
    have m': "slot_of ring' = slot_of ring" "slot_of ?ring = slot_of ring"
      using same_elseD(3) [OF ih(4)] slot_of_cong [of ring' ring] slot_of_cong [of ?ring ring] by simp_all
    have len: "length (take ?n xs) = ?n" by simp
    have "entries ring' tail (op # take ?n xs)"
    proof (rule entries_Cons [OF ih(3), where ra = ?ring and k = k])
      show "same_else (slot_of ring' (tail + 1) ` {..<length (take ?n xs)}) ?ring ring'"
        using ih(4) by (simp only: m' len)
      have "?n < unat mx" using r by linarith
      then show "length (take ?n xs) < 2 ^ k" using Cons.prems(3) by simp
    qed (use Cons.prems(4) mask(2) in \<open>simp_all add: m'(2) slot_of_0 m_def\<close>)
    moreover have "same_else (slot_of ring tail ` {..<Suc ?n}) ring ring'"
    proof -
      have "slot_of ring tail ` {..<Suc ?n} = {m} \<union> slot_of ring (tail + 1) ` {..<?n}"
        by (simp add: lessThan_Suc_eq_insert_0 image_image slot_of_Suc slot_of_0 m_def)
      moreover have "same_else {m} ring ?ring" by (simp add: same_else_def)
      from same_else_trans [OF this ih(4)] have
        "same_else ({m} \<union> slot_of ring (tail + 1) ` {..<?n}) ring ring'" by (simp only: m'(2))
      ultimately show ?thesis by (simp only:)
    qed
    ultimately show ?thesis using step ih(1,2) n by (simp add: add.assoc)
  qed
qed

text \<open>
  \<open>log\<close> is any record of the completions: the submit functions and the bookkeeping leave it, a
  completion function appends the operation and the result it was called with.
\<close>

definition logs :: "('z io_scheme \<Rightarrow> (u64 \<times> s32) list) \<Rightarrow> 'z submit_fn \<Rightarrow> 'z complete_fn \<Rightarrow> bool" where
  "logs log sub com \<longleftrightarrow> (\<forall>op s st. log (snd (sub op s st)) = log st)
     \<and> (\<forall>op c st. log (com op c st) = log st @ [(op, cqe_res c)])
     \<and> (\<forall>st f. log (st\<lparr>n_ops := f\<rparr>) = log st) \<and> (\<forall>st q. log (st\<lparr>io_pending := q\<rparr>) = log st)"

lemma logsD:
  "logs log sub com \<Longrightarrow> log (snd (sub op s st)) = log st" "logs log sub com \<Longrightarrow> log (com op c st) = log st @ [(op, cqe_res c)]"
  "logs log sub com \<Longrightarrow> log (st\<lparr>n_ops := f\<rparr>) = log st" "logs log sub com \<Longrightarrow> log (st\<lparr>io_pending := q\<rparr>) = log st"
  by (simp_all add: logs_def)

text \<open>With a stop, every queued operation is completed with \<open>-ECANCELED\<close> and none reaches the kernel.\<close>

definition submits_n :: "'z submit_fn \<Rightarrow> bool" where
  "submits_n sub \<longleftrightarrow> (\<forall>op s st. n_ops (snd (sub op s st)) = n_ops st \<and> sqe_opcode (fst (sub op s st)) \<noteq> op_async_cancel)"

lemma submits_nD:
  "submits_n sub \<Longrightarrow> sub op s st = (s', st') \<Longrightarrow> n_ops st' = n_ops st \<and> sqe_opcode s' \<noteq> op_async_cancel"
  unfolding submits_n_def by (metis fst_conv snd_conv)

lemma manual_stop_fresh:
  assumes "n_ops st op = 1" "kind st op = Operation"
  shows "manual_stop (manage_complete com) op st
    = com op \<lparr>cqe_user_data = op, cqe_res = - ecanceled, cqe_flags = 0\<rparr> (n_ops_sub op st)"
  using assms by (simp add: manual_stop_def ioring_complete_def manage_complete_def n_ops_sub_def)

lemma sq_loop_stops:
  assumes sub: "submit_frame sub" "submits_n sub" and com: "complete_frame com" and log: "logs log sub com"
    and q: "iq_repr (io_next st) (io_pending st) xs" and ops: "\<forall>op \<in> set xs. kind st op = Operation" and r: "r < mx"
  shows "\<exists>ring' st'. sq_loop sub com mx True r tail ring st = Some (r, tail, ring', st') \<and> iq_empty (io_pending st')
    \<and> log st' = log st @ map (\<lambda>op. (op, - ecanceled)) xs \<and> sq_head ring' = sq_head ring \<and> sq_array ring' = sq_array ring"
  using q ops
proof (induction xs arbitrary: ring st)
  case Nil
  then show ?case by (subst sq_loop.simps) (simp add: iq_repr_empty)
next
  case (Cons op xs)
  define m where "m = tail AND sq_mask ring"
  from iq_pop_front_Cons [OF Cons.prems(1)] obtain q where
    q: "iq_pop_front (io_next st) (io_pending st) = Some (Some op, q)" "iq_repr (io_next st) q xs" by blast
  let ?st = "st\<lparr>io_pending := q, n_ops := (n_ops st)(op := 1)\<rparr>"
  obtain s st1 where s: "sub op (sq_sqes ring m) ?st = (s, st1)" by fastforce
  have st1: "io_pending st1 = q" "io_next st1 = io_next st" "kind st1 = kind st" "n_ops st1 op = 1"
    "sqe_opcode s \<noteq> op_async_cancel"
    using submit_frameD [OF sub(1) s] submits_nD [OF sub(2) s] by simp_all
  have k: "kind st op = Operation" using Cons.prems(2) by simp
  have isub: "ioring_submit sub op (sq_sqes ring m) (st\<lparr>io_pending := q\<rparr>) = (s, st1)"
    using s k by (simp add: ioring_submit_def manage_submit_def)
  let ?ring = "ring\<lparr>sq_sqes := (sq_sqes ring)(m := s)\<rparr>"
  define st2 where "st2 = manual_stop (manage_complete com) op st1"
  have st2: "st2 = com op \<lparr>cqe_user_data = op, cqe_res = - ecanceled, cqe_flags = 0\<rparr> (n_ops_sub op st1)"
    unfolding st2_def by (rule manual_stop_fresh) (simp_all add: st1 k)
  have step: "sq_loop sub com mx True r tail ring st = sq_loop sub com mx True r tail ?ring st2"
    using iq_repr_empty [OF Cons.prems(1)] r q(1) isub st1(5)
    by (subst sq_loop.simps) (simp add: m_def [symmetric] st2_def)
  have l: "log st2 = log st @ [(op, - ecanceled)]"
    using logsD(1) [OF log, of op "sq_sqes ring m" ?st] s by (simp add: st2 n_ops_sub_def logsD(2-) [OF log])
  have "iq_repr (io_next st2) (io_pending st2) xs" "\<forall>op \<in> set xs. kind st2 op = Operation"
    using q(2) st1 Cons.prems(2) by (simp_all add: st2 complete_frameD [OF com] n_ops_sub_def)
  from Cons.IH [OF this, of ?ring] step l show ?case by simp
qed

section \<open>Completion\<close>

text \<open>The entries from index \<open>head\<close> on, completed in order; the count is of the final ones.\<close>

definition final :: "cqe \<Rightarrow> bool" where
  "final c \<longleftrightarrow> cqe_flags c AND cqe_f_more = 0"

definition cq_at :: "cq_ring \<Rightarrow> nat \<Rightarrow> cqe" where
  "cq_at ring i = cq_cqes ring ((cq_head ring + of_nat i) AND cq_mask ring)"

fun complete_all :: "'z complete_fn \<Rightarrow> cqe list \<Rightarrow> 'z io_scheme \<Rightarrow> 'z io_scheme" where
  "complete_all virt [] st = st"
| "complete_all virt (c # cs) st = complete_all virt cs (snd (ioring_complete virt (cqe_user_data c) c st))"

lemma complete_all_append: "complete_all virt (cs @ ds) st = complete_all virt ds (complete_all virt cs st)"
  by (induction cs arbitrary: st) simp_all

lemma ioring_complete_count: "fst (ioring_complete virt op c st) = (if final c then 1 else 0)"
  by (simp add: ioring_complete_def Let_def final_def)

lemma count_snoc: "of_nat (length (filter P (xs @ [x]))) = (of_nat (length (filter P xs)) :: u32) + (if P x then 1 else 0)"
  by simp

text \<open>
  The kernel publishes entries while the loop runs: the \<open>i\<close>-th load returns the head plus \<open>f i\<close>.
  The loop ends after the first \<open>j\<close> entries where load \<open>j\<close> shows no more than those.
\<close>

lemma cq_loop_runs:
  assumes ld: "\<And>i. i \<le> j \<Longrightarrow> ld i = cq_head ring + of_nat (f i)" and f: "\<And>i. i < j \<Longrightarrow> i < f i" "f j = j"
    and b: "\<And>i. i \<le> j \<Longrightarrow> f i < 2 ^ 32" and i: "i \<le> j"
  shows "cq_loop ld com ring i (cq_head ring + of_nat i) (of_nat (length (filter final (map (cq_at ring) [0..<i]))))
      (complete_all (manage_complete com) (map (cq_at ring) [0..<i]) st)
    = Some (of_nat (length (filter final (map (cq_at ring) [0..<j]))), cq_head ring + of_nat j,
        complete_all (manage_complete com) (map (cq_at ring) [0..<j]) st)"
  using i
proof (induction i rule: inc_induct)
  case base
  then show ?case using ld [of j] f(2) by (subst cq_loop.simps) simp
next
  case (step i)
  have "i < f i" "f i < 2 ^ 32" using f(1) [of i] b [of i] step.hyps by simp_all
  then have "unat (of_nat i :: u32) \<noteq> unat (of_nat (f i) :: u32)" by (simp add: unat_of_nat)
  then have "(of_nat i :: u32) \<noteq> of_nat (f i)" by metis
  then have ne: "cq_head ring + of_nat i \<noteq> ld i" using ld [of i] step.hyps by simp
  let ?st = "complete_all (manage_complete com) (map (cq_at ring) [0..<i]) st"
  let ?c = "cq_at ring i"
  have c: "cq_cqes ring ((cq_head ring + of_nat i) AND cq_mask ring) = ?c" by (simp add: cq_at_def)
  have split: "ioring_complete (manage_complete com) (cqe_user_data ?c) ?c ?st =
      (if final ?c then 1 else 0, complete_all (manage_complete com) (map (cq_at ring) [0..<Suc i]) st)"
    by (rule prod_eqI) (simp_all add: ioring_complete_count complete_all_append)
  have "cq_head ring + of_nat i + 1 = cq_head ring + of_nat (Suc i)" by (simp add: ac_simps)
  with step.IH show ?case
    by (subst cq_loop.simps; cases "final ?c") (simp_all add: ne c split add.commute add.left_commute add.assoc)
qed

lemma cq_complete_runs:
  assumes "\<And>i. i \<le> j \<Longrightarrow> ld i = cq_head ring + of_nat (f i)" "\<And>i. i < j \<Longrightarrow> i < f i" "f j = j" "\<And>i. i \<le> j \<Longrightarrow> f i < 2 ^ 32"
  shows "cq_complete ld com ring st = Some (of_nat (length (filter final (map (cq_at ring) [0..<j]))),
      ring\<lparr>cq_head := cq_head ring + of_nat j\<rparr>, complete_all (manage_complete com) (map (cq_at ring) [0..<j]) st)"
  using cq_loop_runs [where i = 0 and com = com and st = st, OF assms le0] by (simp add: cq_complete_def)

lemma sq_submit_ok:
  assumes "submit_frame sub" "sq_mask ring = 2 ^ k - 1" "sq_nslot ring = 2 ^ k" "k < 32"
    "unat (sq_tail ring - sq_head ring) \<le> 2 ^ k" "iq_repr (io_next st) (io_pending st) xs"
  shows "\<exists>ring' st' n. sq_submit sub com mx False ring st = Some (of_nat n, ring', st')
    \<and> n = min (length xs) (min (unat mx) (2 ^ k - unat (sq_tail ring - sq_head ring)))
    \<and> iq_repr (io_next st') (io_pending st') (drop n xs)
    \<and> sq_tail ring' = sq_tail ring + of_nat n \<and> entries ring' (sq_tail ring) (take n xs)
    \<and> (\<forall>i < unat (sq_tail ring - sq_head ring). let m = slot_of ring (sq_head ring) i in
         sq_array ring' m = sq_array ring m \<and> sq_sqes ring' m = sq_sqes ring m)
    \<and> unat (sq_tail ring' - sq_head ring') = unat (sq_tail ring - sq_head ring) + n"
proof -
  define u where "u = unat (sq_tail ring - sq_head ring)"
  have p: "(2::nat) ^ k < 2 ^ 32" using assms(4) by (intro power_strict_increasing) auto
  have ns: "unat (sq_nslot ring) = 2 ^ k" using assms(3,4) by simp
  have free: "unat (sq_nslot ring - (sq_tail ring - sq_head ring)) = 2 ^ k - u"
    using assms(5) ns by (simp add: unat_sub word_le_nat_alt u_def)
  let ?mx = "umin mx (sq_nslot ring - (sq_tail ring - sq_head ring))"
  have mx: "unat ?mx = min (unat mx) (2 ^ k - u)"
    using free by (auto simp: umin_def word_less_nat_alt min_def)
  define n where "n = min (length xs) (min (unat mx) (2 ^ k - u))"
  have "unat (0 :: u32) \<le> unat ?mx" "unat ?mx \<le> 2 ^ k" using mx by simp_all
  from sq_loop_submits [OF assms(1,2,4,6) this, of com "sq_tail ring"] mx obtain ring' st' where
    l: "sq_loop sub com ?mx False 0 (sq_tail ring) ring st = Some (of_nat n, sq_tail ring + of_nat n, ring', st')"
    "iq_repr (io_next st') (io_pending st') (drop n xs)" "entries ring' (sq_tail ring) (take n xs)"
    "same_else (slot_of ring (sq_tail ring) ` {..<n}) ring ring'" by (auto simp: n_def)
  let ?r = "ring'\<lparr>sq_tail := sq_tail ring + of_nat n\<rparr>"
  have un: "u + n \<le> 2 ^ k" using assms(5) by (simp add: n_def u_def)
  have tl: "sq_tail ring = sq_head ring + of_nat u" by (simp add: u_def)
  have old: "slot_of ring (sq_head ring) i \<notin> slot_of ring (sq_tail ring) ` {..<n}" if "i < u" for i
  proof
    assume "slot_of ring (sq_head ring) i \<in> slot_of ring (sq_tail ring) ` {..<n}"
    then obtain j where j: "j < n" "slot_of ring (sq_head ring) i = slot_of ring (sq_head ring) (u + j)"
      by (auto simp: tl slot_of_def add.assoc)
    from slot_of_inj [OF assms(2) j(2) _ _ assms(4)] j(1) un that show False by simp
  qed
  have "sq_tail ?r - sq_head ?r = of_nat (u + n)" using same_elseD(1) [OF l(4)] tl by simp
  then have "unat (sq_tail ?r - sq_head ?r) = u + n" using un p by (simp only: unat_of_nat) simp
  moreover have "entries ?r (sq_tail ring) (take n xs)"
    using l(3) slot_of_cong [of ?r ring'] by (simp add: entries_def)
  moreover have "sq_submit sub com mx False ring st = Some (of_nat n, ?r, st')"
    using l(1) by (simp add: sq_submit_def Let_def)
  ultimately show ?thesis
    using l(2) same_elseD(5,6) [OF l(4) old] unfolding u_def [symmetric] n_def [symmetric]
    by (intro exI [of _ ?r] exI [of _ st'] exI [of _ n]) (simp add: Let_def)
qed

section \<open>The operation counter\<close>

text \<open>
  \<open>stop_complete\<close> takes the counter of its target from 1 to 0 and then completes it by hand, which
  takes the counter further down instead of finding 1: the target's completion never runs.
\<close>

lemma stop_complete_silent:
  "stop_complete com target st = st\<lparr>n_ops := (n_ops st)(target := if n_ops st target = 1 then - 1 else n_ops st target - 1)\<rparr>"
  by (simp add: stop_complete_def manual_stop_def ioring_complete_def n_ops_sub_def cqe_f_more_def)

lemma complete_all_multishot:
  assumes log: "logs log sub com" and com: "complete_frame com" "\<And>op c st. n_ops (com op c st) = n_ops st"
    and st: "kind st op = Operation" "n_ops st op = 1"
    and cs: "\<forall>c \<in> set cs. cqe_user_data c = op \<and> \<not> final c"
  defines "st' \<equiv> complete_all (manage_complete com) cs st"
  shows "log st' = log st @ map (\<lambda>c. (op, cqe_res c)) cs \<and> n_ops st' op = 1 \<and> kind st' op = Operation"
  using st cs unfolding st'_def
proof (induction cs arbitrary: st)
  case (Cons c cs)
  have *: "ioring_complete (manage_complete com) op c st = (0, com op c st)"
    using Cons.prems by (simp add: ioring_complete_def manage_complete_def final_def)
  have "kind (com op c st) op = Operation" "n_ops (com op c st) op = 1"
    using Cons.prems by (simp_all add: complete_frameD(3) [OF com(1)] com(2))
  from Cons.IH [OF this] Cons.prems * show ?case by (simp add: logsD(2) [OF log])
qed simp

section \<open>A client that records its completions\<close>

record io_log = io +
  trace :: "(u64 \<times> s32) list"

definition demo_sub :: "u64 \<Rightarrow> sqe \<Rightarrow> io_log \<Rightarrow> sqe \<times> io_log" where
  "demo_sub op s st = (sqe_zero\<lparr>sqe_opcode := 27\<rparr>, st)"

definition demo_com :: "u64 \<Rightarrow> cqe \<Rightarrow> io_log \<Rightarrow> io_log" where
  "demo_com op c st = st\<lparr>trace := trace st @ [(op, cqe_res c)]\<rparr>"

definition demo_io :: io_log where
  "demo_io = \<lparr>n_ops = (\<lambda>_. 0), kind = (\<lambda>a. if a = 30 then Stop_Of 10 else Operation), io_next = [10 \<mapsto> 20],
     io_pending = \<lparr>iq_head = Some 10, iq_tail = Some 20\<rparr>, trace = []\<rparr>"

definition demo_sq :: sq_ring where
  "demo_sq = \<lparr>sq_head = - 3, sq_tail = - 1, sq_array = (\<lambda>_. 0), sq_sqes = (\<lambda>_. sqe_zero), sq_mask = 3, sq_nslot = 4\<rparr>"

lemma demo_frame: "submit_frame demo_sub" "complete_frame demo_com" "submits_n demo_sub" "logs trace demo_sub demo_com"
  by (simp_all add: submit_frame_def complete_frame_def queue_frame_def submits_n_def logs_def demo_sub_def demo_com_def
      op_async_cancel_def)

lemma demo_queue: "iq_repr (io_next demo_io) (io_pending demo_io) [10, 20]"
  by (simp add: iq_repr_def demo_io_def last_ptr_def)

section \<open>Properties\<close>

text \<open>
  C12: without a stop, \<open>__submission_queue::_M_submit\<close> moves operations from the front of the
  private queue to the ring, in order and each once, until the queue is empty, \<open>__max\<close> is reached or
  the ring is full. It returns how many; with the free-running indices wrapping at \<open>2 ^ 32\<close>, it writes
  only free slots (the entries the kernel has not consumed keep their place and content), names each
  operation in its entry, and never lets the distance of the indices exceed the ring size.
\<close>

theorem sq_submit_moves:
  assumes "submit_frame sub" "sq_mask ring = 2 ^ k - 1" "sq_nslot ring = 2 ^ k" "k < 32"
    "unat (sq_tail ring - sq_head ring) \<le> 2 ^ k" "iq_repr (io_next st) (io_pending st) xs"
  shows "\<exists>ring' st' n. sq_submit sub com mx False ring st = Some (of_nat n, ring', st')
    \<and> n = min (length xs) (min (unat mx) (2 ^ k - unat (sq_tail ring - sq_head ring)))
    \<and> iq_repr (io_next st') (io_pending st') (drop n xs)
    \<and> sq_tail ring' = sq_tail ring + of_nat n \<and> entries ring' (sq_tail ring) (take n xs)
    \<and> (\<forall>i < unat (sq_tail ring - sq_head ring). let m = slot_of ring (sq_head ring) i in
         sq_array ring' m = sq_array ring m \<and> sq_sqes ring' m = sq_sqes ring m)
    \<and> unat (sq_tail ring' - sq_head ring') = unat (sq_tail ring - sq_head ring) + n"
  by (rule sq_submit_ok [OF assms])

theorem sq_submit_moves_witness:
  "\<exists>ring' st'. sq_submit demo_sub demo_com 100 False demo_sq demo_io = Some (2, ring', st')
     \<and> iq_repr (io_next st') (io_pending st') [] \<and> sq_tail ring' = 1"
proof -
  have "sq_mask demo_sq = 2 ^ 2 - 1" "sq_nslot demo_sq = 2 ^ 2" "(2::nat) < 32" "unat (sq_tail demo_sq - sq_head demo_sq) \<le> 2 ^ 2"
    by (simp_all add: demo_sq_def)
  from sq_submit_moves [OF demo_frame(1) this demo_queue, of demo_com 100] show ?thesis
    by (auto simp: demo_sq_def)
qed

text \<open>
  with a stop requested, \<open>__submission_queue::_M_submit\<close> completes every queued operation
  exactly once, in order, with \<open>-ECANCELED\<close>, empties the queue and publishes nothing to the kernel.
\<close>

theorem sq_submit_stops:
  assumes "submit_frame sub" "submits_n sub" "complete_frame com" "logs log sub com"
    "iq_repr (io_next st) (io_pending st) xs" "\<forall>op \<in> set xs. kind st op = Operation"
    "0 < umin mx (sq_nslot ring - (sq_tail ring - sq_head ring))"
  shows "\<exists>ring' st'. sq_submit sub com mx True ring st = Some (0, ring', st') \<and> iq_empty (io_pending st')
    \<and> log st' = log st @ map (\<lambda>op. (op, - ecanceled)) xs
    \<and> sq_tail ring' = sq_tail ring \<and> sq_array ring' = sq_array ring"
  using sq_loop_stops [OF assms(1-6) assms(7), of "sq_tail ring" ring] by (auto simp: sq_submit_def Let_def)

theorem sq_submit_stops_witness:
  "\<exists>ring' st'. sq_submit demo_sub demo_com 100 True demo_sq demo_io = Some (0, ring', st')
     \<and> trace st' = [(10, - 125), (20, - 125)]"
proof -
  have "\<forall>op \<in> set [10, 20]. kind demo_io op = Operation" "trace demo_io = []"
    "0 < umin 100 (sq_nslot demo_sq - (sq_tail demo_sq - sq_head demo_sq))"
    by (simp_all add: demo_io_def demo_sq_def umin_def)
  with sq_submit_stops [OF demo_frame(1,3,2,4) demo_queue, of 100 demo_sq] show ?thesis
    by (auto simp: ecanceled_def)
qed

text \<open>
  \<open>__completion_queue::_M_complete\<close> returns although the kernel publishes entries while it runs, as soon
  as a load of the tail shows no entry beyond those it has handled; it has then completed exactly those
  entries, in the order of the ring and each once, across the wrap-around of the index, released
  them, and returns the number of entries that were final for their operation.
\<close>

theorem cq_complete_in_order:
  assumes "\<And>i. i \<le> j \<Longrightarrow> ld i = cq_head ring + of_nat (f i)" "\<And>i. i < j \<Longrightarrow> i < f i" "f j = j" "\<And>i. i \<le> j \<Longrightarrow> f i < 2 ^ 32"
  shows "\<exists>ring' st'. cq_complete ld com ring st = Some (of_nat (length (filter final (map (cq_at ring) [0..<j]))), ring', st')
    \<and> cq_head ring' = cq_head ring + of_nat j \<and> cq_cqes ring' = cq_cqes ring
    \<and> st' = complete_all (manage_complete com) (map (cq_at ring) [0..<j]) st"
  using cq_complete_runs [OF assms, where com = com and st = st] by auto

definition demo_cq :: cq_ring where
  "demo_cq = \<lparr>cq_head = - 1, cq_cqes = (\<lambda>m. \<lparr>cqe_user_data = 10, cqe_res = of_nat (unat m), cqe_flags = if m = 0 then 0 else 2\<rparr>),
     cq_mask = 3\<rparr>"

theorem cq_complete_in_order_witness:
  "\<exists>ring' st'. cq_complete (\<lambda>i. if i = 0 then 0 else 1) demo_com demo_cq (demo_io\<lparr>n_ops := \<lambda>_. 1\<rparr>) = Some (1, ring', st')
     \<and> cq_head ring' = 1 \<and> trace st' = [(10, 3), (10, 0)]"
proof -
  let ?f = "\<lambda>i :: nat. if i = 0 then 1 else 2 :: nat" and ?ld = "\<lambda>i :: nat. if i = 0 then 0 else 1 :: u32"
  have "?ld i = cq_head demo_cq + of_nat (?f i)" "?f 2 = 2" "?f i < 2 ^ 32" "i < 2 \<Longrightarrow> i < ?f i" for i
    by (auto simp: demo_cq_def)
  note r = cq_complete_in_order [of 2 ?ld demo_cq ?f demo_com "demo_io\<lparr>n_ops := \<lambda>_. 1\<rparr>", OF this(1,4,2,3)]
  have "trace (complete_all (manage_complete demo_com) (map (cq_at demo_cq) [0..<2]) (demo_io\<lparr>n_ops := \<lambda>_. 1\<rparr>)) = [(10, 3), (10, 0)]"
    "length (filter final (map (cq_at demo_cq) [0..<2])) = 1" "cq_head demo_cq + 2 = 1" by code_simp+
  with r show ?thesis by auto
qed

text \<open>
  the counter \<open>__n_ops_\<close> delivers a multishot operation that nobody cancels correctly: every entry
  that announces more and the final one run the completion function exactly once each, in order, and
  the final one takes the counter to 0, after which a further entry would run nothing.
\<close>

theorem ioring_multishot_delivery:
  assumes "logs log sub com" "complete_frame com" "\<And>op c st. n_ops (com op c st) = n_ops st"
    "kind st op = Operation" "n_ops st op = 1" "\<forall>c \<in> set cs. cqe_user_data c = op \<and> \<not> final c"
    "cqe_user_data d = op" "final d"
  shows "log (complete_all (manage_complete com) (cs @ [d]) st) = log st @ map (\<lambda>c. (op, cqe_res c)) (cs @ [d])
    \<and> n_ops (complete_all (manage_complete com) (cs @ [d]) st) op = 0
    \<and> log (complete_all (manage_complete com) (cs @ [d, d]) st) = log st @ map (\<lambda>c. (op, cqe_res c)) (cs @ [d])"
proof -
  let ?st = "complete_all (manage_complete com) cs st"
  have cs: "log ?st = log st @ map (\<lambda>c. (op, cqe_res c)) cs" "n_ops ?st op = 1" "kind ?st op = Operation"
    using complete_all_multishot [OF assms(1-6)] by simp_all
  have d: "snd (ioring_complete (manage_complete com) op d ?st) = com op d (n_ops_sub op ?st)"
    using cs assms(8) by (simp add: ioring_complete_def manage_complete_def n_ops_sub_def final_def)
  have z: "n_ops (com op d (n_ops_sub op ?st)) op = 0" using cs by (simp add: assms(3) n_ops_sub_def)
  then have "log (snd (ioring_complete (manage_complete com) op d (com op d (n_ops_sub op ?st)))) = log (com op d (n_ops_sub op ?st))"
    using assms(8) by (simp add: ioring_complete_def final_def n_ops_sub_def logsD(3) [OF assms(1)])
  with cs d z show ?thesis
    by (simp add: complete_all_append assms(7) logsD(2,3) [OF assms(1)] n_ops_sub_def)
qed

theorem ioring_multishot_delivery_witness:
  "trace (complete_all (manage_complete demo_com)
      ([\<lparr>cqe_user_data = 10, cqe_res = 5, cqe_flags = 2\<rparr>] @ [\<lparr>cqe_user_data = 10, cqe_res = 6, cqe_flags = 0\<rparr>])
      (demo_io\<lparr>n_ops := \<lambda>_. 1\<rparr>)) = [(10, 5), (10, 6)]"
proof -
  have "\<And>op c st. n_ops (demo_com op c st) = n_ops st" by (simp add: demo_com_def)
  from ioring_multishot_delivery [OF demo_frame(4,2) this, of "demo_io\<lparr>n_ops := \<lambda>_. 1\<rparr>" 10 "[\<lparr>cqe_user_data = 10, cqe_res = 5, cqe_flags = 2\<rparr>]"
    "\<lparr>cqe_user_data = 10, cqe_res = 6, cqe_flags = 0\<rparr>"]
  show ?thesis by (simp add: demo_io_def final_def cqe_f_more_def)
qed



end
