(* ===== verification/Timers.thy ===== *)
theory Timers
  imports Intrusive_Queue Intrusive_Heap "HOL-Library.Signed_Division"
begin

text \<open>
  The timers of \<open>__scheduler.hpp\<close>: the key \<open>__time_sequence\<close>, the conversion of a duration to the
  kernel's \<open>timespec\<close>, the timer operations and the part of \<open>_M_io_uring_submit\<close> that drains the queue
  of timer requests into the heap. A point in time is an integer number of nanoseconds; the
  function behind \<open>__complete_\<close> is the parameter \<open>cb\<close>, whose second argument tells that the
  timer was stopped, and which may change the whole state.
\<close>

section \<open>Keys\<close>

datatype time_sequence = Time_Sequence (deadline: int) (seqno: u64)

definition time_less :: "time_sequence \<Rightarrow> time_sequence \<Rightarrow> bool" where
  "time_less a b \<longleftrightarrow> deadline a < deadline b \<or> (\<not> deadline b < deadline a \<and> seqno a < seqno b)"

instantiation time_sequence :: linorder
begin

definition less_time_sequence :: "time_sequence \<Rightarrow> time_sequence \<Rightarrow> bool" where
  "less_time_sequence = time_less"

definition less_eq_time_sequence :: "time_sequence \<Rightarrow> time_sequence \<Rightarrow> bool" where
  "less_eq_time_sequence a b \<longleftrightarrow> time_less a b \<or> a = b"

instance
  by standard (auto simp: less_time_sequence_def less_eq_time_sequence_def time_less_def time_sequence.expand
      intro: time_sequence.expand)

end

section \<open>Durations\<close>

definition clamp :: "int \<Rightarrow> int \<Rightarrow> int \<Rightarrow> int" where
  "clamp v lo hi = (if v < lo then lo else if hi < v then hi else v)"

text \<open>Seconds and nanoseconds; \<open>duration_cast\<close> truncates towards zero.\<close>

definition duration_to_timespec :: "int \<Rightarrow> int \<times> int" where
  "duration_to_timespec dur = (
     let sec = dur sdiv 1000000000;
         dur1 = dur - sec * 1000000000;
         sec1 = (if sec < 0 then 0 else sec)
     in (sec1, clamp dur1 0 999999999))"

section \<open>Timer requests\<close>

datatype timer_cmd = Schedule | Stop

record 'n tm =
  tm_cmd :: "'n \<Rightarrow> timer_cmd"
  tm_target :: "'n \<Rightarrow> 'n ptr"
  tm_key :: "'n \<Rightarrow> time_sequence"
  tm_next :: "'n nexts"
  tm_heap :: "'n heap"
  dr_pending :: "'n iqueue"
  next_seq :: u64

type_synonym ('n, 'z) timer_fn = "'n \<Rightarrow> bool \<Rightarrow> ('n, 'z) tm_scheme \<Rightarrow> ('n, 'z) tm_scheme"

definition timer_new :: "'n \<Rightarrow> int \<Rightarrow> ('n, 'z) tm_scheme \<Rightarrow> ('n, 'z) tm_scheme" where
  "timer_new op tp st = st\<lparr>tm_cmd := (tm_cmd st)(op := Schedule), tm_key := (tm_key st)(op := Time_Sequence tp (next_seq st)),
     next_seq := next_seq st + 1,
     tm_heap := (tm_heap st)\<lparr>h_prev := (h_prev (tm_heap st))(op := nullptr), h_left := (h_left (tm_heap st))(op := nullptr),
       h_right := (h_right (tm_heap st))(op := nullptr)\<rparr>\<rparr>"

definition timer_stop_new :: "'n \<Rightarrow> 'n \<Rightarrow> ('n, 'z) tm_scheme \<Rightarrow> ('n, 'z) tm_scheme" where
  "timer_stop_new op target st = st\<lparr>tm_cmd := (tm_cmd st)(op := Stop), tm_target := (tm_target st)(op := Some target)\<rparr>"

definition timer_complete :: "('n, 'z) timer_fn \<Rightarrow> 'n \<Rightarrow> ('n, 'z) tm_scheme \<Rightarrow> ('n, 'z) tm_scheme" where
  "timer_complete cb op st = cb op False st"

definition timer_stop :: "('n, 'z) timer_fn \<Rightarrow> 'n \<Rightarrow> ('n, 'z) tm_scheme \<Rightarrow> ('n, 'z) tm_scheme" where
  "timer_stop cb op st = cb op True st"

definition timer_manual_stop :: "('n, 'z) timer_fn \<Rightarrow> 'n \<Rightarrow> ('n, 'z) tm_scheme \<Rightarrow> ('n, 'z) tm_scheme ub" where
  "timer_manual_stop cb op st = (case tm_cmd st op of
     Schedule \<Rightarrow> Some (timer_stop cb op st)
   | Stop \<Rightarrow> do { t \<leftarrow> deref (tm_target st op); Some (timer_stop cb t st) })"

text \<open>The two loops of \<open>_M_io_uring_submit\<close> over the queue \<open>__tmp\<close>.\<close>

partial_function (option) timer_stop_loop ::
  "('n, 'z) timer_fn \<Rightarrow> 'n iqueue \<Rightarrow> ('n, 'z) tm_scheme \<Rightarrow> ('n, 'z) tm_scheme option" where
  "timer_stop_loop cb tmp st =
     (if iq_empty tmp then Some st
      else do {
        (p, tmp1) \<leftarrow> iq_pop_front (tm_next st) tmp;
        op \<leftarrow> deref p;
        st1 \<leftarrow> timer_manual_stop cb op st;
        timer_stop_loop cb tmp1 st1
      })"

definition timer_request :: "('n, 'z) timer_fn \<Rightarrow> 'n \<Rightarrow> ('n, 'z) tm_scheme \<Rightarrow> ('n, 'z) tm_scheme ub" where
  "timer_request cb op st = (case tm_cmd st op of
     Schedule \<Rightarrow> do { h \<leftarrow> heap_push (tm_key st) op (tm_heap st); Some (st\<lparr>tm_heap := h\<rparr>) }
   | Stop \<Rightarrow> do {
       t \<leftarrow> deref (tm_target st op);
       (b, h) \<leftarrow> heap_remove (tm_key st) t (tm_heap st);
       Some (timer_stop cb t (st\<lparr>tm_heap := h\<rparr>))
     })"

partial_function (option) timer_loop ::
  "('n, 'z) timer_fn \<Rightarrow> 'n iqueue \<Rightarrow> ('n, 'z) tm_scheme \<Rightarrow> ('n, 'z) tm_scheme option" where
  "timer_loop cb tmp st =
     (if iq_empty tmp then Some st
      else do {
        (p, tmp1) \<leftarrow> iq_pop_front (tm_next st) tmp;
        op \<leftarrow> deref p;
        st1 \<leftarrow> timer_request cb op st;
        timer_loop cb tmp1 st1
      })"

definition timers_drain :: "('n, 'z) timer_fn \<Rightarrow> bool \<Rightarrow> ('n, 'z) tm_scheme \<Rightarrow> ('n, 'z) tm_scheme option" where
  "timers_drain cb stop st = (case iq_move (dr_pending st) of (tmp, rest) \<Rightarrow>
     let st1 = st\<lparr>dr_pending := rest\<rparr> in if stop then timer_stop_loop cb tmp st1 else timer_loop cb tmp st1)"

section \<open>Draining requests\<close>

definition timer_frame :: "('n, 'z) timer_fn \<Rightarrow> bool" where
  "timer_frame cb \<longleftrightarrow> (\<forall>op b st. tm_cmd (cb op b st) = tm_cmd st \<and> tm_target (cb op b st) = tm_target st
     \<and> tm_key (cb op b st) = tm_key st \<and> tm_next (cb op b st) = tm_next st \<and> tm_heap (cb op b st) = tm_heap st)"

lemma timer_frameD:
  "timer_frame cb \<Longrightarrow> tm_cmd (cb op b st) = tm_cmd st" "timer_frame cb \<Longrightarrow> tm_target (cb op b st) = tm_target st"
  "timer_frame cb \<Longrightarrow> tm_key (cb op b st) = tm_key st" "timer_frame cb \<Longrightarrow> tm_next (cb op b st) = tm_next st"
  "timer_frame cb \<Longrightarrow> tm_heap (cb op b st) = tm_heap st"
  by (simp_all add: timer_frame_def)

text \<open>\<open>log\<close> records the calls of \<open>cb\<close> and ignores the heap and the queue.\<close>

definition timer_logs :: "(('n, 'z) tm_scheme \<Rightarrow> ('n \<times> bool) list) \<Rightarrow> ('n, 'z) timer_fn \<Rightarrow> bool" where
  "timer_logs log cb \<longleftrightarrow> (\<forall>op b st. log (cb op b st) = log st @ [(op, b)])
     \<and> (\<forall>st h. log (st\<lparr>tm_heap := h\<rparr>) = log st) \<and> (\<forall>st q. log (st\<lparr>dr_pending := q\<rparr>) = log st)"

lemma timer_logsD:
  "timer_logs log cb \<Longrightarrow> log (cb op b st) = log st @ [(op, b)]"
  "timer_logs log cb \<Longrightarrow> log (st\<lparr>tm_heap := h\<rparr>) = log st" "timer_logs log cb \<Longrightarrow> log (st\<lparr>dr_pending := q\<rparr>) = log st"
  by (simp_all add: timer_logs_def)

text \<open>What a request asks of the set of scheduled timers, and the timer it stops.\<close>

definition stop_target :: "('n, 'z) tm_scheme \<Rightarrow> 'n \<Rightarrow> 'n" where
  "stop_target st op = (case tm_target st op of None \<Rightarrow> op | Some t \<Rightarrow> t)"

definition request_op :: "('n, 'z) tm_scheme \<Rightarrow> 'n \<Rightarrow> 'n pqop" where
  "request_op st op = (case tm_cmd st op of Schedule \<Rightarrow> Push op | Stop \<Rightarrow> Remove (stop_target st op))"

definition stopped_by :: "('n, 'z) tm_scheme \<Rightarrow> 'n list \<Rightarrow> ('n \<times> bool) list" where
  "stopped_by st xs = map (\<lambda>op. (stop_target st op, True)) (filter (\<lambda>op. tm_cmd st op = Stop) xs)"

definition targets_ok :: "('n, 'z) tm_scheme \<Rightarrow> 'n list \<Rightarrow> bool" where
  "targets_ok st xs \<longleftrightarrow> (\<forall>op \<in> set xs. tm_cmd st op = Stop \<longrightarrow> tm_target st op \<noteq> nullptr)"

lemma request_cong:
  assumes "tm_cmd st' = tm_cmd st" "tm_target st' = tm_target st"
  shows "request_op st' = request_op st" "stopped_by st' = stopped_by st" "targets_ok st' = targets_ok st"
proof -
  have "stop_target st' = stop_target st" using assms by (simp add: fun_eq_iff stop_target_def)
  then show "request_op st' = request_op st" "stopped_by st' = stopped_by st" "targets_ok st' = targets_ok st"
    using assms by (simp_all add: fun_eq_iff request_op_def stopped_by_def targets_ok_def split: timer_cmd.split)
qed

lemma timer_request_refines:
  assumes cb: "timer_frame cb" "timer_logs log cb" and r: "heap_repr (tm_key st) (tm_heap st) A"
    and v: "pq_valid [request_op st op] A" and t: "targets_ok st [op]"
  shows "\<exists>st'. timer_request cb op st = Some st' \<and> heap_repr (tm_key st') (tm_heap st') (snd (pq_spec [request_op st op] A))
    \<and> log st' = log st @ stopped_by st [op] \<and> tm_cmd st' = tm_cmd st \<and> tm_target st' = tm_target st
    \<and> tm_key st' = tm_key st \<and> tm_next st' = tm_next st"
proof (cases "tm_cmd st op")
  case Schedule
  with v timers.push_law [OF r, of op] show ?thesis
    by (auto simp: timer_request_def request_op_def stopped_by_def timer_logsD [OF cb(2)])
next
  case Stop
  with t obtain a where a: "tm_target st op = Some a" by (auto simp: targets_ok_def)
  from timers.rem_law [OF r, of a] obtain h where
    "heap_remove (tm_key st) a (tm_heap st) = Some (a \<in> A, h)" "heap_repr (tm_key st) h (A - {a})" by blast
  with Stop a show ?thesis
    by (simp add: timer_request_def request_op_def stopped_by_def stop_target_def timer_stop_def
        timer_logsD [OF cb(2)] timer_frameD [OF cb(1)])
qed

lemma pq_valid_append: "pq_valid (xs @ ys) A \<longleftrightarrow> pq_valid xs A \<and> pq_valid ys (snd (pq_spec xs A))"
  by (induction xs A rule: pq_spec.induct) (auto split: prod.splits)

lemma pq_spec_append: "snd (pq_spec (xs @ ys) A) = snd (pq_spec ys (snd (pq_spec xs A)))"
  by (induction xs A rule: pq_spec.induct) (auto split: prod.splits)

lemma timer_loop_refines:
  assumes cb: "timer_frame cb" "timer_logs log cb"
    and q: "iq_repr (tm_next st) tmp xs" and r: "heap_repr (tm_key st) (tm_heap st) A"
    and v: "pq_valid (map (request_op st) xs) A" and t: "targets_ok st xs"
  shows "\<exists>st'. timer_loop cb tmp st = Some st' \<and> log st' = log st @ stopped_by st xs
    \<and> heap_repr (tm_key st') (tm_heap st') (snd (pq_spec (map (request_op st) xs) A))"
  using q r v t
proof (induction xs arbitrary: tmp st A)
  case Nil
  then show ?case by (subst timer_loop.simps) (simp add: iq_repr_empty stopped_by_def)
next
  case (Cons op xs)
  from iq_pop_front_Cons [OF Cons.prems(1)] obtain tmp1 where
    q: "iq_pop_front (tm_next st) tmp = Some (Some op, tmp1)" "iq_repr (tm_next st) tmp1 xs" by blast
  let ?o = "request_op st op"
  have v: "pq_valid [?o] A" "pq_valid (map (request_op st) xs) (snd (pq_spec [?o] A))"
    using Cons.prems(3) pq_valid_append [of "[?o]" "map (request_op st) xs" A] by simp_all
  have t: "targets_ok st [op]" "targets_ok st xs" using Cons.prems(4) by (auto simp: targets_ok_def)
  from timer_request_refines [OF cb Cons.prems(2) v(1) t(1)] obtain st1 where
    s: "timer_request cb op st = Some st1" "heap_repr (tm_key st1) (tm_heap st1) (snd (pq_spec [?o] A))"
    "log st1 = log st @ stopped_by st [op]" "tm_cmd st1 = tm_cmd st" "tm_target st1 = tm_target st" "tm_next st1 = tm_next st"
    by blast
  note c = request_cong [OF s(4,5)]
  have "iq_repr (tm_next st1) tmp1 xs" using q(2) s(6) by simp
  from Cons.IH [OF this s(2)] v(2) t(2) obtain st' where
    "timer_loop cb tmp1 st1 = Some st'" "log st' = log st1 @ stopped_by st xs"
    "heap_repr (tm_key st') (tm_heap st') (snd (pq_spec (map (request_op st) xs) (snd (pq_spec [?o] A))))"
    unfolding c by blast
  moreover have "timer_loop cb tmp st = timer_loop cb tmp1 st1"
    using iq_repr_empty [OF Cons.prems(1)] q(1) s(1) by (subst timer_loop.simps) simp
  moreover have "stopped_by st [op] @ stopped_by st xs = stopped_by st (op # xs)" by (simp add: stopped_by_def)
  ultimately show ?case using s(3) pq_spec_append [of "[?o]" "map (request_op st) xs" A] by simp
qed

lemma timer_stop_loop_refines:
  assumes cb: "timer_frame cb" "timer_logs log cb" and q: "iq_repr (tm_next st) tmp xs" and t: "targets_ok st xs"
  shows "\<exists>st'. timer_stop_loop cb tmp st = Some st' \<and> tm_heap st' = tm_heap st
    \<and> log st' = log st @ map (\<lambda>op. (if tm_cmd st op = Stop then stop_target st op else op, True)) xs"
  using q t
proof (induction xs arbitrary: tmp st)
  case Nil
  then show ?case by (subst timer_stop_loop.simps) (simp add: iq_repr_empty)
next
  case (Cons op xs)
  from iq_pop_front_Cons [OF Cons.prems(1)] obtain tmp1 where
    q: "iq_pop_front (tm_next st) tmp = Some (Some op, tmp1)" "iq_repr (tm_next st) tmp1 xs" by blast
  define a where "a = (if tm_cmd st op = Stop then stop_target st op else op)"
  have m: "timer_manual_stop cb op st = Some (cb a True st)"
    using Cons.prems(2)
    by (cases "tm_cmd st op") (auto simp: timer_manual_stop_def timer_stop_def a_def targets_ok_def stop_target_def)
  let ?st = "cb a True st"
  have c: "stop_target ?st = stop_target st" "tm_cmd ?st = tm_cmd st"
    by (simp_all add: fun_eq_iff stop_target_def timer_frameD [OF cb(1)])
  have "iq_repr (tm_next ?st) tmp1 xs" "targets_ok ?st xs"
    using q(2) Cons.prems(2) by (simp_all add: targets_ok_def timer_frameD [OF cb(1)])
  from Cons.IH [OF this] obtain st' where
    "timer_stop_loop cb tmp1 ?st = Some st'" "tm_heap st' = tm_heap st"
    "log st' = log ?st @ map (\<lambda>op. (if tm_cmd st op = Stop then stop_target st op else op, True)) xs"
    unfolding c by (auto simp: timer_frameD [OF cb(1)])
  moreover have "timer_stop_loop cb tmp st = timer_stop_loop cb tmp1 ?st"
    using iq_repr_empty [OF Cons.prems(1)] q(1) m by (subst timer_stop_loop.simps) simp
  ultimately show ?case by (simp add: timer_logsD [OF cb(2)] a_def)
qed

section \<open>Timers created in order\<close>

fun timers_new :: "('n \<times> int) list \<Rightarrow> ('n, 'z) tm_scheme \<Rightarrow> ('n, 'z) tm_scheme" where
  "timers_new [] st = st"
| "timers_new ((op, tp) # ts) st = timers_new ts (timer_new op tp st)"

lemma timers_new_other: "op \<notin> fst ` set ts \<Longrightarrow> tm_key (timers_new ts st) op = tm_key st op"
  by (induction ts st rule: timers_new.induct) (auto simp: timer_new_def)

lemma timers_new_key:
  "distinct (map fst ts) \<Longrightarrow> i < length ts \<Longrightarrow>
     tm_key (timers_new ts st) (fst (ts ! i)) = Time_Sequence (snd (ts ! i)) (next_seq st + of_nat i)"
proof (induction ts st arbitrary: i rule: timers_new.induct)
  case (2 op tp ts st)
  show ?case
  proof (cases i)
    case 0
    have "op \<notin> fst ` set ts" using 2(2) by simp
    then have "tm_key (timers_new ts (timer_new op tp st)) op = tm_key (timer_new op tp st) op" by (rule timers_new_other)
    moreover have "tm_key (timer_new op tp st) op = Time_Sequence tp (next_seq st)" by (simp add: timer_new_def)
    ultimately show ?thesis using 0 by simp
  next
    case (Suc j)
    then have "tm_key (timers_new ts (timer_new op tp st)) (fst (ts ! j))
      = Time_Sequence (snd (ts ! j)) (next_seq (timer_new op tp st) + of_nat j)" by (intro 2(1)) (use 2(2,3) in simp_all)
    moreover have "next_seq (timer_new op tp st) + of_nat j = next_seq st + of_nat (Suc j)"
      by (simp add: timer_new_def add.commute add.left_commute)
    ultimately show ?thesis using Suc by (simp only: timers_new.simps nth_Cons_Suc)
  qed
qed simp

lemma sorted_key_unique:
  assumes "sorted (map f xs)" "sorted (map f ys)" "set xs = set ys" "distinct xs" "distinct ys" "inj_on f (set xs)"
  shows "xs = ys"
proof -
  have "distinct (map f xs)" "distinct (map f ys)" using assms by (simp_all add: distinct_map)
  with assms sorted_distinct_set_unique [of "map f xs" "map f ys"] have "map f xs = map f ys" by simp
  with assms(3,6) show ?thesis by (metis inj_on_map_eq_map sup.idem)
qed

text \<open>Draining by key is a stable sort by deadline when the keys break ties by position.\<close>

lemma stable_by_key:
  fixes key :: "'n \<Rightarrow> time_sequence"
  assumes ys: "sorted (map key ys)" "set ys = set xs" "distinct ys"
    and xs: "distinct xs" "sorted_wrt (\<lambda>a b. seqno (key a) < seqno (key b)) xs"
  shows "ys = sort_key (\<lambda>a. deadline (key a)) xs"
proof (rule properties_for_sort_key [symmetric])
  let ?d = "\<lambda>a. deadline (key a)"
  show "mset ys = mset xs" using ys(2,3) xs(1) by (simp add: set_eq_iff_mset_eq_distinct)
  have le: "?d a \<le> ?d b" if "key a \<le> key b" for a b
    using that by (auto simp: less_eq_time_sequence_def time_less_def)
  show "sorted (map ?d ys)" using ys(1) unfolding sorted_map by (rule sorted_wrt_mono_rel [rotated]) (rule le)
  fix k assume "k \<in> set ys"
  let ?P = "\<lambda>x. ?d k = ?d x"
  have "sorted (map key (filter ?P ys))" using ys(1) unfolding sorted_map by (rule sorted_wrt_filter)
  moreover have "sorted (map key (filter ?P xs))"
  proof -
    have "sorted_wrt (\<lambda>a b. seqno (key a) < seqno (key b)) (filter ?P xs)" using xs(2) by (rule sorted_wrt_filter)
    then have "sorted_wrt (\<lambda>a b. key a \<le> key b) (filter ?P xs)"
      by (rule sorted_wrt_mono_rel [rotated]) (auto simp: less_eq_time_sequence_def time_less_def)
    then show ?thesis unfolding sorted_map .
  qed
  moreover have "inj_on key (set xs)"
  proof (rule inj_onI)
    fix a b assume "a \<in> set xs" "b \<in> set xs" "key a = key b"
    with xs(2) show "a = b"
      by (auto simp: sorted_wrt_iff_nth_less in_set_conv_nth) (metis less_irrefl linorder_neqE_nat)
  qed
  ultimately show "filter ?P ys = filter ?P xs"
    using ys(2,3) xs(1) by (intro sorted_key_unique [of key]) (auto intro: inj_on_subset)
qed

section \<open>A client that records the calls\<close>

record 'n tm_log = "'n tm" +
  calls :: "('n \<times> bool) list"

definition demo_cb :: "nat \<Rightarrow> bool \<Rightarrow> nat tm_log \<Rightarrow> nat tm_log" where
  "demo_cb op b st = st\<lparr>calls := calls st @ [(op, b)]\<rparr>"

text \<open>Requests 1 and 2 schedule themselves, request 3 stops timer 1.\<close>

definition demo_tm :: "nat tm_log" where
  "demo_tm = \<lparr>tm_cmd = (\<lambda>a. if a = 3 then Stop else Schedule), tm_target = [3 \<mapsto> 1], tm_key = (\<lambda>a. Time_Sequence 100 (of_nat a)),
     tm_next = [1 \<mapsto> 2, 2 \<mapsto> 3], tm_heap = heap_new, dr_pending = \<lparr>iq_head = Some 1, iq_tail = Some 3\<rparr>, next_seq = 0, calls = []\<rparr>"

lemma demo_timers: "timer_frame demo_cb" "timer_logs calls demo_cb" "iq_repr (tm_next demo_tm) (dr_pending demo_tm) [1, 2, 3]"
  "heap_repr (tm_key demo_tm) (tm_heap demo_tm) {}" "targets_ok demo_tm [1, 2, 3]"
  by (simp_all add: timer_frame_def timer_logs_def demo_cb_def demo_tm_def iq_repr_def last_ptr_def heap_repr_new targets_ok_def)

section \<open>Properties\<close>

text \<open>
  the kernel's \<open>timespec\<close> denotes exactly the duration it was made from, or zero for a deadline
  that has passed, with the nanoseconds within a second.
\<close>

theorem timespec_exact:
  "case duration_to_timespec dur of (s, n) \<Rightarrow> s * 1000000000 + n = max dur 0 \<and> 0 \<le> s \<and> 0 \<le> n \<and> n \<le> 999999999"
proof (cases "0 \<le> dur")
  case True
  have sd: "dur sdiv 1000000000 = dur div 1000000000" using True by (simp add: signed_divide_int_def sgn_if)
  define q r where qr: "q = dur div 1000000000" "r = dur mod 1000000000"
  then have "dur = q * 1000000000 + r" "0 \<le> r" "r < 1000000000" "0 \<le> q" using True by simp_all
  moreover from this(1) have "dur - q * 1000000000 = r" by simp
  ultimately show ?thesis using True
    unfolding duration_to_timespec_def clamp_def Let_def sd qr(1) [symmetric] by auto
next
  case False
  have sd: "dur sdiv 1000000000 = - ((- dur) div 1000000000)" using False by (simp add: signed_divide_int_def sgn_if)
  define q r where qr: "q = (- dur) div 1000000000" "r = (- dur) mod 1000000000"
  then have "- dur = q * 1000000000 + r" "0 \<le> r" "0 \<le> q" using False by simp_all
  moreover from this(1) have "dur - - q * 1000000000 = - r" by simp
  ultimately show ?thesis using False
    unfolding duration_to_timespec_def clamp_def Let_def sd qr(1) [symmetric] by auto
qed



text \<open>
  draining with a stop completes the timer of every request as stopped, in order, and schedules
  none; it does not touch the heap, so that the timers already scheduled are neither completed
  nor removed by the shutdown.
\<close>

theorem timers_drain_stop:
  assumes "timer_frame cb" "timer_logs log cb" "iq_repr (tm_next st) (dr_pending st) xs" "targets_ok st xs"
  shows "\<exists>st'. timers_drain cb True st = Some st' \<and> tm_heap st' = tm_heap st
    \<and> log st' = log st @ map (\<lambda>op. (if tm_cmd st op = Stop then stop_target st op else op, True)) xs"
proof -
  let ?st = "st\<lparr>dr_pending := (dr_pending st)\<lparr>iq_head := nullptr, iq_tail := nullptr\<rparr>\<rparr>"
  have d: "timers_drain cb True st = timer_stop_loop cb (dr_pending st) ?st"
    by (cases "dr_pending st") (simp add: timers_drain_def iq_move_def)
  have q: "iq_repr (tm_next ?st) (dr_pending st) xs" "targets_ok ?st xs" using assms(3,4) request_cong [of ?st st] by simp_all
  have t: "stop_target ?st = stop_target st" by (simp add: stop_target_def fun_eq_iff)
  from timer_stop_loop_refines [OF assms(1,2) q, unfolded t] show ?thesis
    unfolding d by (simp add: timer_logsD [OF assms(2)])
qed

theorem timers_drain_stop_witness:
  "\<exists>st'. timers_drain demo_cb True demo_tm = Some st' \<and> calls st' = [(1, True), (2, True), (1, True)]"
  using timers_drain_stop [OF demo_timers(1-3,5)] by (auto simp: demo_tm_def stop_target_def)

text \<open>
  timers expire by deadline and, among equal deadlines, in the order in which they were created: pushed
  into the heap in any order, they leave it as the stable sort of the creation order by deadline.
\<close>

theorem timers_expire_in_order:
  assumes "distinct (map fst ts)" "unat (next_seq st) + length ts < 2 ^ 64" "mset xs = mset (map fst ts)"
  defines "st' \<equiv> timers_new ts st"
  shows "\<exists>h ys. pq_run (heap_push (tm_key st')) (heap_remove (tm_key st')) (map Push xs) heap_new = Some ([], h)
    \<and> pq_drain h_root (heap_pop (tm_key st')) (length xs) h = Some ys
    \<and> ys = sort_key (\<lambda>a. deadline (tm_key st' a)) (map fst ts)"
proof -
  have x: "distinct xs" "set xs = set (map fst ts)"
    using assms(1,3) mset_eq_imp_distinct_iff mset_eq_setD by blast+
  have "sorted_wrt (\<lambda>a b. seqno (tm_key st' a) < seqno (tm_key st' b)) (map fst ts)"
    unfolding sorted_wrt_iff_nth_less
  proof (intro allI impI)
    fix i j assume ij: "i < j" "j < length (map fst ts)"
    have "unat (next_seq st + of_nat i) = unat (next_seq st) + i" if "i < length ts" for i
      using that assms(2) by (simp add: unat_word_ariths unat_of_nat)
    then have "next_seq st + of_nat i < next_seq st + of_nat j" using ij by (simp add: word_less_nat_alt)
    then show "seqno (tm_key st' (map fst ts ! i)) < seqno (tm_key st' (map fst ts ! j))"
      using ij timers_new_key [OF assms(1), of i st] timers_new_key [OF assms(1), of j st] by (simp add: st'_def)
  qed
  moreover obtain h ys where "pq_run (heap_push (tm_key st')) (heap_remove (tm_key st')) (map Push xs) heap_new = Some ([], h)"
    "pq_drain h_root (heap_pop (tm_key st')) (length xs) h = Some ys" "set ys = set xs" "distinct ys" "sorted (map (tm_key st') ys)"
    using timers.sort_nodes [OF heap_repr_new x(1)] by blast
  ultimately show ?thesis using stable_by_key [of "tm_key st'" ys "map fst ts"] x(2) assms(1) by auto
qed

theorem timers_expire_in_order_witness:
  "\<exists>h. pq_drain h_root (heap_pop (tm_key (timers_new [(1 :: nat, 70), (2, 50), (3, 70), (4, 50)] demo_tm))) 4 h = Some [2, 4, 1, 3]"
proof -
  let ?ts = "[(1 :: nat, 70 :: int), (2, 50), (3, 70), (4, 50)]"
  let ?key = "tm_key (timers_new ?ts demo_tm)"
  have "?key 1 = Time_Sequence 70 0" "?key 2 = Time_Sequence 50 1" "?key 3 = Time_Sequence 70 2" "?key 4 = Time_Sequence 50 3"
    by (simp_all add: timer_new_def demo_tm_def)
  then have "sort_key (\<lambda>a. deadline (?key a)) (map fst ?ts) = [2, 4, 1, 3]" by (simp del: timers_new.simps)
  moreover have "distinct (map fst ?ts)" "unat (next_seq demo_tm) + length ?ts < 2 ^ 64" by (simp_all add: demo_tm_def)
  from timers_expire_in_order [OF this refl] obtain h where
    "pq_drain h_root (heap_pop ?key) (length (map fst ?ts)) h = Some (sort_key (\<lambda>a. deadline (?key a)) (map fst ?ts))" by blast
  moreover have "length (map fst ?ts) = 4" by simp
  ultimately show ?thesis by metis
qed

end
