(* ===== verification/Remote_Submit.thy ===== *)
theory Remote_Submit
  imports Prelude
begin

text \<open>
  Submission from other threads and the shutdown of \<open>__scheduler.hpp\<close>: \<open>_M_submit(__request, __op)\<close> of any
  number of threads against the owner, which accepts remote requests while it runs and closes
  the scheduler at the end of \<open>_M_run_until_stop\<close> by taking \<open>__n_submit_in_flight_\<close> from 0 to
  \<open>__no_new_submit_\<close>. A step is one access to the counter or one operation on the remote queue,
  which is atomic at its successful exchange (\<open>Atomic_Queue\<close>). A weak exchange may fail
  spuriously. \<open>r_started\<close> is auxiliary: the operations whose submission has begun.
\<close>

section \<open>State\<close>

definition no_new_submit :: int where "no_new_submit = - 1"

record 'op rs =
  r_in_flight :: int
  r_queue :: "'op list"
  r_pending :: "'op list"
  r_stopped :: "'op list"
  r_started :: "'op set"

definition rs_new :: "'op rs" where
  "rs_new = \<lparr>r_in_flight = 0, r_queue = [], r_pending = [], r_stopped = [], r_started = {}\<rparr>"

datatype 'op rpc = RIdle | R_Loop 'op int | R_Push 'op | R_Dec | R_Stop 'op
datatype opc = O_Run | O_Close | O_Seen int | O_Final | O_Done

section \<open>Steps\<close>

definition accept_remote :: "'op rs \<Rightarrow> 'op rs" where
  "accept_remote m = m\<lparr>r_pending := r_pending m @ rev (r_queue m), r_queue := []\<rparr>"

fun rstep :: "'op rpc \<Rightarrow> 'op rs \<Rightarrow> ('op rpc \<times> 'op rs) list" where
  "rstep RIdle m = []"
| "rstep (R_Loop op n) m =
     (if n = no_new_submit then [(R_Stop op, m)]
      else (R_Loop op (r_in_flight m), m) #
           (if r_in_flight m = n then [(R_Push op, m\<lparr>r_in_flight := n + 1\<rparr>)] else []))"
| "rstep (R_Push op) m = [(R_Dec, m\<lparr>r_queue := op # r_queue m\<rparr>)]"
| "rstep R_Dec m = [(RIdle, m\<lparr>r_in_flight := r_in_flight m - 1\<rparr>)]"
| "rstep (R_Stop op) m = [(RIdle, m\<lparr>r_stopped := op # r_stopped m\<rparr>)]"

fun ostep :: "opc \<Rightarrow> 'op rs \<Rightarrow> (opc \<times> 'op rs) list" where
  "ostep O_Run m = [(O_Run, accept_remote m), (O_Close, m)]"
| "ostep O_Close m =
     (O_Seen (r_in_flight m), m) #
     (if r_in_flight m = 0 then [(O_Final, m\<lparr>r_in_flight := no_new_submit\<rparr>)] else [])"
| "ostep (O_Seen n) m = [(if n = no_new_submit then O_Final else O_Close, m)]"
| "ostep O_Final m = [(O_Done, accept_remote m)]"
| "ostep O_Done m = []"

type_synonym ('t, 'op) rsys = "('t \<Rightarrow> 'op rpc) \<times> opc \<times> 'op rs"

inductive rs_step :: "('t, 'op) rsys \<Rightarrow> ('t, 'op) rsys \<Rightarrow> bool" where
  remote: "(p, m') \<in> set (rstep (R t) m) \<Longrightarrow> rs_step (R, o1, m) (R(t := p), o1, m')"
| owner: "(o2, m') \<in> set (ostep o1 m) \<Longrightarrow> rs_step (R, o1, m) (R, o2, m')"
| start: "R t = RIdle \<Longrightarrow> op \<notin> r_started m \<Longrightarrow>
     rs_step (R, o1, m) (R(t := R_Loop op 0), o1, m\<lparr>r_started := insert op (r_started m)\<rparr>)"

inductive rs_reachable :: "('t, 'op) rsys \<Rightarrow> bool" where
  init: "rs_reachable (\<lambda>_. RIdle, O_Run, rs_new)"
| step: "rs_reachable s \<Longrightarrow> rs_step s s' \<Longrightarrow> rs_reachable s'"

section \<open>The counter\<close>

text \<open>A thread is busy between its successful exchange and its decrement.\<close>

fun busy :: "'op rpc \<Rightarrow> bool" where
  "busy (R_Push op) = True"
| "busy R_Dec = True"
| "busy _ = False"

definition closed :: "opc \<Rightarrow> bool" where
  "closed o1 \<longleftrightarrow> o1 = O_Final \<or> o1 = O_Done"

definition cnt_inv :: "('t, 'op) rsys \<Rightarrow> bool" where
  "cnt_inv s \<longleftrightarrow> (case s of (R, o1, m) \<Rightarrow> finite {t. busy (R t)}
     \<and> (closed o1 \<longrightarrow> r_in_flight m = no_new_submit \<and> {t. busy (R t)} = {})
     \<and> (\<not> closed o1 \<longrightarrow> r_in_flight m = int (card {t. busy (R t)}))
     \<and> (\<forall>n. o1 = O_Seen n \<longrightarrow> 0 \<le> n) \<and> (o1 = O_Done \<longrightarrow> r_queue m = []))"

lemma cnt_invI:
  "finite {t. busy (R t)} \<Longrightarrow> (closed o1 \<Longrightarrow> r_in_flight m = no_new_submit \<and> {t. busy (R t)} = {}) \<Longrightarrow>
   (\<not> closed o1 \<Longrightarrow> r_in_flight m = int (card {t. busy (R t)})) \<Longrightarrow> (\<And>n. o1 = O_Seen n \<Longrightarrow> 0 \<le> n) \<Longrightarrow>
   (o1 = O_Done \<Longrightarrow> r_queue m = []) \<Longrightarrow> cnt_inv (R, o1, m)"
  by (simp add: cnt_inv_def)

lemma cnt_invD:
  "cnt_inv (R, o1, m) \<Longrightarrow> finite {t. busy (R t)}"
  "cnt_inv (R, o1, m) \<Longrightarrow> closed o1 \<Longrightarrow> r_in_flight m = no_new_submit"
  "cnt_inv (R, o1, m) \<Longrightarrow> closed o1 \<Longrightarrow> \<not> busy (R t)"
  "cnt_inv (R, o1, m) \<Longrightarrow> \<not> closed o1 \<Longrightarrow> r_in_flight m = int (card {t. busy (R t)})"
  "cnt_inv (R, O_Seen n, m) \<Longrightarrow> 0 \<le> n" "cnt_inv (R, O_Done, m) \<Longrightarrow> r_queue m = []"
  by (auto simp: cnt_inv_def)

lemma busy_upd: "{u. busy ((R(t := p)) u)} = (if busy p then insert t {u. busy (R u)} else {u. busy (R u)} - {t})"
  by auto

lemma cnt_same:
  assumes "cnt_inv (R, o1, m)" "busy p = busy (R t)" "r_in_flight m' = r_in_flight m"
    "o1 = O_Done \<Longrightarrow> r_queue m' = r_queue m"
  shows "cnt_inv (R(t := p), o1, m')"
proof -
  have "{u. busy ((R(t := p)) u)} = {u. busy (R u)}" using assms(2) by auto
  with assms show ?thesis by (simp add: cnt_inv_def)
qed

lemma cnt_remote:
  assumes inv: "cnt_inv (R, o1, m)" and s: "(p, m') \<in> set (rstep (R t) m)"
  shows "cnt_inv (R(t := p), o1, m')"
proof (cases "R t")
  case (R_Loop op n)
  have "cnt_inv (R(t := R_Push op), o1, m\<lparr>r_in_flight := n + 1\<rparr>)" if n: "r_in_flight m = n" "n \<noteq> no_new_submit"
  proof (rule cnt_invI)
    have o: "\<not> closed o1" using cnt_invD(2) [OF inv] n by auto
    have "t \<notin> {u. busy (R u)}" using R_Loop by simp
    then show "r_in_flight (m\<lparr>r_in_flight := n + 1\<rparr>) = int (card {u. busy ((R(t := R_Push op)) u)})"
      using cnt_invD(1) [OF inv] cnt_invD(4) [OF inv o] n(1) unfolding busy_upd by simp
    show "finite {u. busy ((R(t := R_Push op)) u)}" using cnt_invD(1) [OF inv] unfolding busy_upd by simp
  qed (use inv cnt_invD(2) [OF inv] n in \<open>auto simp: cnt_inv_def\<close>)
  moreover have "cnt_inv (R(t := R_Loop op k), o1, m)" "cnt_inv (R(t := R_Stop op), o1, m)" for k
    using R_Loop by (simp_all add: cnt_same [OF inv])
  ultimately show ?thesis using s R_Loop by (auto split: if_splits)
next
  case (R_Push op)
  then have "\<not> closed o1" using cnt_invD(3) [OF inv, of t] by auto
  then have "o1 \<noteq> O_Done" by (auto simp: closed_def)
  with s R_Push show ?thesis by (auto intro: cnt_same [OF inv])
next
  case R_Dec
  have o: "\<not> closed o1" using cnt_invD(3) [OF inv, of t] R_Dec by auto
  have m: "m' = m\<lparr>r_in_flight := r_in_flight m - 1\<rparr>" "p = RIdle" using s R_Dec by simp_all
  have t: "t \<in> {u. busy (R u)}" using R_Dec by simp
  with cnt_invD(1) [OF inv] have "0 < card {u. busy (R u)}" by (auto simp: card_gt_0_iff)
  then have "int (card ({u. busy (R u)} - {t})) = int (card {u. busy (R u)}) - 1"
    using cnt_invD(1) [OF inv] t by (simp add: of_nat_diff)
  moreover have "{u. busy ((R(t := p)) u)} = {u. busy (R u)} - {t}" unfolding busy_upd m(2) by simp
  ultimately show ?thesis using inv o m(1) by (simp add: cnt_inv_def closed_def)
next
  case (R_Stop op)
  with s show ?thesis by (auto intro: cnt_same [OF inv])
qed (use s in simp)

lemma cnt_owner:
  assumes inv: "cnt_inv (R, o1, m)" and s: "(o2, m') \<in> set (ostep o1 m)"
  shows "cnt_inv (R, o2, m')"
proof (cases o1)
  case O_Close
  note c = cnt_invD(4) [OF inv]
  have "cnt_inv (R, O_Final, m\<lparr>r_in_flight := no_new_submit\<rparr>)" if "r_in_flight m = 0"
    using that cnt_invD(1) [OF inv] c O_Close by (intro cnt_invI) (auto simp: closed_def)
  moreover have "cnt_inv (R, O_Seen (r_in_flight m), m)"
    using cnt_invD(1) [OF inv] c O_Close by (intro cnt_invI) (auto simp: closed_def)
  ultimately show ?thesis using s O_Close by (auto split: if_splits)
qed (use s inv in \<open>auto simp: cnt_inv_def closed_def accept_remote_def no_new_submit_def\<close>)

lemma cnt_step: "rs_step s s' \<Longrightarrow> cnt_inv s \<Longrightarrow> cnt_inv s'"
proof (induction rule: rs_step.induct)
  case (start R t op m o1)
  then show ?case by (intro cnt_same) auto
qed (auto intro: cnt_remote cnt_owner)

lemma cnt_reachable: "rs_reachable s \<Longrightarrow> cnt_inv s"
proof (induction rule: rs_reachable.induct)
  case init
  show ?case by (rule cnt_invI) (simp_all add: rs_new_def closed_def)
qed (rule cnt_step)

section \<open>Where each operation is\<close>

fun held :: "'op rpc \<Rightarrow> 'op option" where
  "held (R_Loop op n) = Some op"
| "held (R_Push op) = Some op"
| "held (R_Stop op) = Some op"
| "held _ = None"

definition places :: "'op rs \<Rightarrow> 'op list" where
  "places m = r_queue m @ r_pending m @ r_stopped m"

definition op_inv :: "('t, 'op) rsys \<Rightarrow> bool" where
  "op_inv s \<longleftrightarrow> (case s of (R, o1, m) \<Rightarrow> distinct (places m)
     \<and> (\<forall>t op. held (R t) = Some op \<longrightarrow> op \<notin> set (places m))
     \<and> (\<forall>t u op. held (R t) = Some op \<longrightarrow> held (R u) = Some op \<longrightarrow> t = u)
     \<and> (\<forall>op. op \<in> r_started m \<longleftrightarrow> op \<in> set (places m) \<or> (\<exists>t. held (R t) = Some op)))"

lemma op_same:
  assumes "op_inv (R, o1, m)" "held p = held (R t)" "set (places m') = set (places m)" "distinct (places m')"
    "r_started m' = r_started m"
  shows "op_inv (R(t := p), o2, m')"
proof -
  have "held ((R(t := p)) u) = held (R u)" for u using assms(2) by simp
  with assms show ?thesis unfolding op_inv_def by simp
qed

lemma op_place:
  assumes inv: "op_inv (R, o1, m)" and h: "held (R t) = Some op" "held p = None"
    and m': "mset (places m') = add_mset op (mset (places m))" "r_started m' = r_started m"
  shows "op_inv (R(t := p), o1, m')"
proof -
  have set: "set (places m') = insert op (set (places m))" using m'(1) by (metis set_mset_add_mset_insert set_mset_mset)
  have new: "op \<notin> set (places m)" using inv h(1) by (auto simp: op_inv_def)
  have u: "held (R u) = Some op \<longleftrightarrow> u = t" for u using inv h(1) unfolding op_inv_def prod.case by metis
  have "distinct (op # places m)" using inv new by (simp add: op_inv_def)
  then have d: "distinct (places m')" using m'(1) by (metis mset.simps(2) mset_eq_imp_distinct_iff)
  show ?thesis
    unfolding op_inv_def prod.case
  proof (intro conjI allI impI)
    show "distinct (places m')" by (rule d)
    show "x \<notin> set (places m')" if "held ((R(t := p)) v) = Some x" for v x
      using that inv h u set by (auto simp: op_inv_def split: if_splits)
    show "v = w" if "held ((R(t := p)) v) = Some x" "held ((R(t := p)) w) = Some x" for v w x
      using that inv h(2) by (auto simp: op_inv_def split: if_splits)
    show "x \<in> r_started m' \<longleftrightarrow> x \<in> set (places m') \<or> (\<exists>v. held ((R(t := p)) v) = Some x)" for x
    proof -
      have "(\<exists>v. held ((R(t := p)) v) = Some x) \<longleftrightarrow> (\<exists>v. v \<noteq> t \<and> held (R v) = Some x)"
        using h(2) by auto
      also have "\<dots> \<longleftrightarrow> x \<noteq> op \<and> (\<exists>v. held (R v) = Some x)" using h(1) u by (metis option.inject)
      finally have "(\<exists>v. held ((R(t := p)) v) = Some x) \<longleftrightarrow> x \<noteq> op \<and> (\<exists>v. held (R v) = Some x)" .
      moreover have "x \<in> r_started m \<longleftrightarrow> x \<in> set (places m) \<or> (\<exists>v. held (R v) = Some x)"
        using inv by (simp add: op_inv_def)
      ultimately show ?thesis using h(1) m'(2) set by auto
    qed
  qed
qed

lemma op_remote:
  assumes inv: "op_inv (R, o1, m)" and s: "(p, m') \<in> set (rstep (R t) m)"
  shows "op_inv (R(t := p), o1, m')"
proof -
  have d: "distinct (places m)" using inv by (simp add: op_inv_def)
  show ?thesis
  proof (cases "R t")
    case (R_Loop op n)
    with s d show ?thesis by (auto intro!: op_same [OF inv] simp: places_def split: if_splits)
  next
    case (R_Push op)
    with s show ?thesis by (auto intro!: op_place [OF inv, of _ op] simp: places_def)
  next
    case R_Dec
    with s d show ?thesis by (auto intro!: op_same [OF inv] simp: places_def)
  next
    case (R_Stop op)
    with s show ?thesis by (auto intro!: op_place [OF inv, of _ op] simp: places_def)
  qed (use s in simp)
qed

lemma op_owner:
  assumes inv: "op_inv (R, o1, m)" and s: "(o2, m') \<in> set (ostep o1 m)"
  shows "op_inv (R, o2, m')"
proof -
  have d: "distinct (places m)" using inv by (simp add: op_inv_def)
  have a: "op_inv (R, o2, accept_remote m)"
    using op_same [OF inv, of "R undefined" undefined "accept_remote m" o2] d
    by (simp add: accept_remote_def places_def Un_commute Un_left_commute) blast
  have b: "op_inv (R, o2, m\<lparr>r_in_flight := k\<rparr>)" for k
    using inv by (simp add: op_inv_def places_def)
  have c: "op_inv (R, o2, m)" using inv by (simp add: op_inv_def)
  from s a b c show ?thesis by (cases o1) (auto split: if_splits)
qed

lemma op_start:
  assumes inv: "op_inv (R, o1, m)" and t: "R t = RIdle" "op \<notin> r_started m"
  shows "op_inv (R(t := R_Loop op 0), o1, m\<lparr>r_started := insert op (r_started m)\<rparr>)"
proof -
  have n: "op \<notin> set (places m)" "\<And>u. held (R u) \<noteq> Some op" using inv t(2) by (auto simp: op_inv_def)
  have p: "places (m\<lparr>r_started := insert op (r_started m)\<rparr>) = places m" by (simp add: places_def)
  have "(\<exists>v. held ((R(t := R_Loop op 0)) v) = Some x) \<longleftrightarrow> x = op \<or> (\<exists>v. held (R v) = Some x)" for x
    using t(1) by (auto split: if_splits) (metis held.simps(4) option.distinct(1))
  then show ?thesis
    using inv n unfolding op_inv_def prod.case p by (auto split: if_splits)
qed

lemma op_step: "rs_step s s' \<Longrightarrow> op_inv s \<Longrightarrow> op_inv s'"
  by (induction rule: rs_step.induct) (auto intro: op_remote op_owner op_start)

lemma op_reachable: "rs_reachable s \<Longrightarrow> op_inv s"
proof (induction rule: rs_reachable.induct)
  case init
  show ?case by (simp add: op_inv_def rs_new_def places_def)
qed (rule op_step)

section \<open>Schedules\<close>

text \<open>An executable choice of steps: of a remote thread, of the owner, or the start of a submission.\<close>

datatype ('t, 'op) rcmd = RRun 't nat | ORun nat | RStart 't 'op

fun rmove :: "('t, 'op) rcmd \<Rightarrow> ('t, 'op) rsys \<Rightarrow> ('t, 'op) rsys option" where
  "rmove (RRun t i) (R, o1, m) = (let ps = rstep (R t) m in
     if i < length ps then Some (R(t := fst (ps ! i)), o1, snd (ps ! i)) else None)"
| "rmove (ORun i) (R, o1, m) = (let ps = ostep o1 m in if i < length ps then Some (R, ps ! i) else None)"
| "rmove (RStart t op) (R, o1, m) = (if R t = RIdle \<and> op \<notin> r_started m
     then Some (R(t := R_Loop op 0), o1, m\<lparr>r_started := insert op (r_started m)\<rparr>) else None)"

fun rrun :: "('t, 'op) rcmd list \<Rightarrow> ('t, 'op) rsys \<Rightarrow> ('t, 'op) rsys option" where
  "rrun [] s = Some s"
| "rrun (x # xs) s = Option.bind (rmove x s) (rrun xs)"

lemma rmove_step: "rmove x s = Some s' \<Longrightarrow> rs_step s s'"
proof (cases s)
  case (fields R o1 m)
  assume a: "rmove x s = Some s'"
  show ?thesis
  proof (cases x)
    case (RRun t i)
    with a fields have i: "i < length (rstep (R t) m)"
      "s' = (R(t := fst (rstep (R t) m ! i)), o1, snd (rstep (R t) m ! i))" by (simp_all add: Let_def split: if_splits)
    then have "(fst (rstep (R t) m ! i), snd (rstep (R t) m ! i)) \<in> set (rstep (R t) m)" by simp
    from rs_step.remote [of _ _ R t m, OF this] show ?thesis using fields i by simp
  next
    case (ORun i)
    with a fields have i: "i < length (ostep o1 m)" "s' = (R, ostep o1 m ! i)" by (simp_all add: Let_def split: if_splits)
    then have "(fst (ostep o1 m ! i), snd (ostep o1 m ! i)) \<in> set (ostep o1 m)" by simp
    from rs_step.owner [of _ _ o1 m R, OF this] show ?thesis using fields i by simp
  qed (use a fields in \<open>auto split: if_splits intro: rs_step.start\<close>)
qed

lemma rrun_reachable: "rrun xs s = Some s' \<Longrightarrow> rs_reachable s \<Longrightarrow> rs_reachable s'"
proof (induction xs arbitrary: s)
  case (Cons x xs)
  then obtain s1 where s1: "rmove x s = Some s1" "rrun xs s1 = Some s'"
    by (auto simp: Option.bind_eq_Some_conv)
  from Cons.IH [OF s1(2) rs_reachable.step [OF Cons.prems(2) rmove_step [OF s1(1)]]] show ?case .
qed simp

definition rrun_of :: "('t, 'op) rcmd list \<Rightarrow> (('t, 'op) rsys \<Rightarrow> bool) \<Rightarrow> bool" where
  "rrun_of xs P = (case rrun xs (\<lambda>_. RIdle, O_Run, rs_new) of None \<Rightarrow> False | Some s \<Rightarrow> P s)"

lemma rrun_ofD:
  assumes "rrun_of xs P"
  shows "\<exists>R o1 m. rs_reachable (R, o1, m) \<and> P (R, o1, m)"
proof -
  obtain s where s: "rrun xs (\<lambda>_. RIdle, O_Run, rs_new) = Some s" "P s"
    using assms by (auto simp: rrun_of_def split: option.splits)
  have "rs_reachable s" by (rule rrun_reachable [OF s(1) rs_reachable.init])
  with s(2) show ?thesis by (cases s) auto
qed

text \<open>Operation 1 is pushed while the owner closes; operation 2 is submitted after that and stopped.\<close>

definition demo_shutdown :: "(bool, nat) rcmd list" where
  "demo_shutdown = [RStart False 1, RRun False 1, ORun 1, ORun 0, RRun False 0, RRun False 0, ORun 0, ORun 1,
     RStart True 2, RRun True 0, RRun True 0, RRun True 0, ORun 0]"

section \<open>Properties\<close>

text \<open>
  once the owner has taken \<open>__n_submit_in_flight_\<close> to \<open>__no_new_submit_\<close>, no remote thread is inside a
  submission and none can enter one any more: the counter never counts again and nothing is pushed
  on the remote queue, so that the last \<open>_M_accept_remote_request\<close> leaves it empty for good.
\<close>

theorem remote_close_is_final:
  assumes "rs_reachable (R, o1, m)" "closed o1" "rs_step (R, o1, m) (R', o2, m')"
  shows "closed o2 \<and> r_in_flight m' = no_new_submit \<and> (\<forall>t. \<not> busy (R' t)) \<and> (set (r_queue m') \<subseteq> set (r_queue m))
    \<and> (o2 = O_Done \<longrightarrow> r_queue m' = [])"
proof -
  note inv = cnt_reachable [OF assms(1)]
  have inv': "cnt_inv (R', o2, m')" by (rule cnt_reachable [OF rs_reachable.step [OF assms(1,3)]])
  from assms(3) have c: "closed o2 \<and> set (r_queue m') \<subseteq> set (r_queue m)"
  proof cases
    case (remote p t)
    then show ?thesis using cnt_invD(3) [OF inv assms(2), of t] assms(2) by (cases "R t") (auto split: if_splits)
  next
    case owner
    then show ?thesis using assms(2) by (cases o1) (auto simp: closed_def accept_remote_def)
  qed (use assms(2) in simp)
  then show ?thesis using cnt_invD(2,3) [OF inv'] cnt_invD(6) [of R' m'] inv' by auto
qed

theorem remote_close_is_final_witness:
  "\<exists>R m. rs_reachable (R :: bool \<Rightarrow> nat rpc, O_Final, m) \<and> r_queue m = [1] \<and> (\<forall>t. \<not> busy (R t)) \<and> r_in_flight m = - 1"
proof -
  have "rrun_of (take 8 demo_shutdown) (\<lambda>(R, o1, m). o1 = O_Final \<and> r_queue m = [1] \<and> R False = RIdle \<and> R True = RIdle \<and> 2 \<notin> r_started m)"
    by code_simp
  from rrun_ofD [OF this] obtain R m where s: "rs_reachable (R :: bool \<Rightarrow> nat rpc, O_Final, m)" "r_queue m = [1]"
    "R True = RIdle" "R False = RIdle" "2 \<notin> r_started m" by auto
  have c: "closed O_Final" by (simp add: closed_def)
  let ?m = "m\<lparr>r_started := insert 2 (r_started m)\<rparr>"
  have st: "rs_step (R, O_Final, m) (R(True := R_Loop 2 0), O_Final, ?m)" by (rule rs_step.start) (use s in simp_all)
  note f = remote_close_is_final [OF s(1) c st]
  have "rs_reachable (R(True := R_Loop 2 0), O_Final, ?m)" by (rule rs_reachable.step [OF s(1) st])
  with f s(2) show ?thesis by (intro exI [of _ "R(True := R_Loop 2 0)"] exI [of _ ?m]) (simp add: no_new_submit_def)
qed



end
