(* ===== verification/Wakeup.thy ===== *)
theory Wakeup
  imports Prelude
begin

text \<open>
  The sleep protocol of \<open>__scheduler.hpp\<close>: the owner's \<open>_M_io_uring_enter\<close> against \<open>_M_notify\<close> of any number of
  threads, over \<open>__state_\<close>, the mutex and the event descriptor. A step is one access to a shared
  object; taking the mutex has no step while another thread holds it. How long the owner stays
  in the system call is up to the kernel. Auxiliary fields, read by no step: \<open>w_enters\<close> counts the calls of
  \<open>io_uring_enter\<close>, \<open>w_woken\<close> tells that the event descriptor was written since the owner last went to sleep.
\<close>

section \<open>State\<close>

datatype sg = S_run | S_sleep | S_notify

record wake =
  w_state :: sg
  w_locked :: bool
  w_event :: u64
  w_enters :: nat
  w_woken :: bool

definition wake_new :: wake where
  "wake_new = \<lparr>w_state = S_run, w_locked = False, w_event = 0, w_enters = 0, w_woken = False\<rparr>"

datatype epc = E_Loop | E_Lock | E_Cas | E_Skip | E_Unlock | E_Call | E_Sys | E_Store
datatype npc = NIdle | N_Xchg | N_Lock | N_Unlock | N_Write | N_Ret bool

section \<open>Steps\<close>

definition mutex_lock :: "'p \<Rightarrow> wake \<Rightarrow> ('p \<times> wake) list" where
  "mutex_lock p m = (if w_locked m then [] else [(p, m\<lparr>w_locked := True\<rparr>)])"

fun enter_step :: "epc \<Rightarrow> wake \<Rightarrow> (epc \<times> wake) list" where
  "enter_step E_Loop m = [(E_Lock, m)]"
| "enter_step E_Lock m = mutex_lock E_Cas m"
| "enter_step E_Cas m =
     (if w_state m = S_run then [(E_Unlock, m\<lparr>w_state := S_sleep, w_woken := False\<rparr>)] else [(E_Skip, m)])"
| "enter_step E_Skip m = [(E_Loop, m\<lparr>w_locked := False\<rparr>)]"
| "enter_step E_Unlock m = [(E_Call, m\<lparr>w_locked := False\<rparr>)]"
| "enter_step E_Call m = [(E_Sys, m\<lparr>w_enters := Suc (w_enters m)\<rparr>)]"
| "enter_step E_Sys m = [(E_Store, m)]"
| "enter_step E_Store m = [(E_Loop, m\<lparr>w_state := S_run\<rparr>)]"

fun notify_step :: "npc \<Rightarrow> wake \<Rightarrow> (npc \<times> wake) list" where
  "notify_step NIdle m = [(N_Xchg, m)]"
| "notify_step N_Xchg m = [(if w_state m = S_sleep then N_Lock else N_Ret False, m\<lparr>w_state := S_notify\<rparr>)]"
| "notify_step N_Lock m = mutex_lock N_Unlock m"
| "notify_step N_Unlock m = [(N_Write, m\<lparr>w_locked := False\<rparr>)]"
| "notify_step N_Write m = [(N_Ret True, m\<lparr>w_event := w_event m + 1, w_woken := True\<rparr>)]"
| "notify_step (N_Ret b) m = [(NIdle, m)]"

type_synonym 't wsys = "('t \<Rightarrow> npc) \<times> epc \<times> wake"

inductive wstep :: "'t wsys \<Rightarrow> 't wsys \<Rightarrow> bool" where
  enter: "(e', m') \<in> set (enter_step e m) \<Longrightarrow> wstep (T, e, m) (T, e', m')"
| notify: "(p, m') \<in> set (notify_step (T t) m) \<Longrightarrow> wstep (T, e, m) (T(t := p), e, m')"

inductive wreachable :: "'t wsys \<Rightarrow> bool" where
  init: "wreachable (\<lambda>_. NIdle, E_Loop, wake_new)"
| step: "wreachable s \<Longrightarrow> wstep s s' \<Longrightarrow> wreachable s'"

section \<open>Invariants\<close>

text \<open>The owner is on its way into the system call, in it, or on its way out.\<close>

definition asleep :: "epc \<Rightarrow> bool" where
  "asleep e \<longleftrightarrow> e = E_Unlock \<or> e = E_Call \<or> e = E_Sys \<or> e = E_Store"

definition e_holds :: "epc \<Rightarrow> bool" where
  "e_holds e \<longleftrightarrow> e = E_Cas \<or> e = E_Skip \<or> e = E_Unlock"

definition waking :: "npc \<Rightarrow> bool" where
  "waking p \<longleftrightarrow> p = N_Lock \<or> p = N_Unlock \<or> p = N_Write"

definition winv :: "'t wsys \<Rightarrow> bool" where
  "winv s \<longleftrightarrow> (case s of (T, e, m) \<Rightarrow>
       (w_state m = S_sleep \<longrightarrow> asleep e) \<and> (asleep e \<longrightarrow> w_state m \<noteq> S_run)
     \<and> (asleep e \<longrightarrow> w_state m = S_notify \<longrightarrow> w_woken m \<or> (\<exists>t. waking (T t)))
     \<and> (w_locked m \<longleftrightarrow> e_holds e \<or> (\<exists>t. T t = N_Unlock))
     \<and> (\<forall>t u. T t = N_Unlock \<longrightarrow> T u = N_Unlock \<longrightarrow> t = u) \<and> (\<forall>t. T t = N_Unlock \<longrightarrow> \<not> e_holds e))"

lemma winv_enter:
  assumes "winv (T, e, m)" "(e', m') \<in> set (enter_step e m)"
  shows "winv (T, e', m')"
  using assms by (cases e) (auto simp: winv_def asleep_def e_holds_def mutex_lock_def split: if_splits)

lemma ex_upd: "(\<exists>u. P ((T(t := p)) u)) \<longleftrightarrow> P p \<or> (\<exists>u. u \<noteq> t \<and> P (T u))"
  by auto

lemma waking_upd: "\<exists>u. waking (T u) \<Longrightarrow> waking (T t) \<longrightarrow> waking p \<Longrightarrow> \<exists>u. waking ((T(t := p)) u)"
  unfolding ex_upd by metis

lemma winv_notify:
  assumes inv: "winv (T, e, m)" and s: "(p, m') \<in> set (notify_step (T t) m)"
  shows "winv (T(t := p), e, m')"
proof -
  note i = inv [unfolded winv_def prod.case]
  have l: "w_locked m \<longleftrightarrow> e_holds e \<or> (\<exists>u. T u = N_Unlock)" using i by blast
  have one: "T u = N_Unlock \<Longrightarrow> T v = N_Unlock \<Longrightarrow> u = v" for u v using i by blast
  have wk: "asleep e \<Longrightarrow> w_state m = S_notify \<Longrightarrow> w_woken m \<or> (\<exists>u. waking (T u))" using i by blast
  have wk': "asleep e \<Longrightarrow> w_state m = S_notify \<Longrightarrow> waking (T t) \<longrightarrow> waking p \<Longrightarrow> w_woken m \<or> (\<exists>u. waking ((T(t := p)) u))"
    using wk waking_upd [of T t p] by blast
  have nu: "(\<exists>u. (T(t := p)) u = N_Unlock) \<longleftrightarrow> p = N_Unlock \<or> (\<exists>u. u \<noteq> t \<and> T u = N_Unlock)" by auto
  have nw: "\<exists>u. waking ((T(t := p)) u)" if "waking p" using that by (intro exI [of _ t]) simp
  show ?thesis
  proof (cases "T t")
    case NIdle
    then have "(\<exists>u. u \<noteq> t \<and> T u = N_Unlock) \<longleftrightarrow> (\<exists>u. T u = N_Unlock)" by (metis npc.distinct(5))
    with NIdle s i wk' nu one show ?thesis unfolding winv_def prod.case by (auto simp: waking_def)
  next
    case N_Xchg
    then have "(\<exists>u. u \<noteq> t \<and> T u = N_Unlock) \<longleftrightarrow> (\<exists>u. T u = N_Unlock)" by (metis npc.distinct(13))
    with N_Xchg s i wk' nw nu one show ?thesis
      unfolding winv_def prod.case by (cases "w_state m") (auto simp: waking_def)
  next
    case N_Lock
    have "w_locked m = False" "p = N_Unlock" "m' = m\<lparr>w_locked := True\<rparr>"
      using s N_Lock by (auto simp: mutex_lock_def split: if_splits)
    then show ?thesis using i l nw unfolding winv_def prod.case by (auto simp: waking_def)
  next
    case N_Unlock
    then have "\<not> (\<exists>u. u \<noteq> t \<and> T u = N_Unlock)" "\<not> e_holds e" using one i by blast+
    with N_Unlock s i nw nu show ?thesis unfolding winv_def prod.case by (auto simp: waking_def)
  next
    case N_Write
    then have "(\<exists>u. u \<noteq> t \<and> T u = N_Unlock) \<longleftrightarrow> (\<exists>u. T u = N_Unlock)" by (metis npc.distinct(25))
    with N_Write s i nu show ?thesis unfolding winv_def prod.case by auto
  next
    case (N_Ret b)
    then have "(\<exists>u. u \<noteq> t \<and> T u = N_Unlock) \<longleftrightarrow> (\<exists>u. T u = N_Unlock)" by (metis npc.distinct(27))
    with N_Ret s i wk' nu one show ?thesis unfolding winv_def prod.case by (auto simp: waking_def)
  qed
qed

lemma winv_reachable: "wreachable s \<Longrightarrow> winv s"
proof (induction rule: wreachable.induct)
  case init
  show ?case by (simp add: winv_def wake_new_def asleep_def e_holds_def)
next
  case (step s s')
  from step(2) step(3) show ?case
    by (induction rule: wstep.induct) (auto intro: winv_enter winv_notify)
qed

section \<open>Schedules\<close>

datatype 't wcmd = WEnter nat | WNotify 't nat

fun wmove :: "'t wcmd \<Rightarrow> 't wsys \<Rightarrow> 't wsys option" where
  "wmove (WEnter i) (T, e, m) = (let ps = enter_step e m in if i < length ps then Some (T, ps ! i) else None)"
| "wmove (WNotify t i) (T, e, m) = (let ps = notify_step (T t) m in
     if i < length ps then Some (T(t := fst (ps ! i)), e, snd (ps ! i)) else None)"

fun wrun :: "'t wcmd list \<Rightarrow> 't wsys \<Rightarrow> 't wsys option" where
  "wrun [] s = Some s"
| "wrun (x # xs) s = Option.bind (wmove x s) (wrun xs)"

lemma wmove_step: "wmove x s = Some s' \<Longrightarrow> wstep s s'"
proof (cases s)
  case (fields T e m)
  assume a: "wmove x s = Some s'"
  show ?thesis
  proof (cases x)
    case (WEnter i)
    with a fields have i: "i < length (enter_step e m)" "s' = (T, enter_step e m ! i)" by (simp_all add: Let_def split: if_splits)
    then have "(fst (enter_step e m ! i), snd (enter_step e m ! i)) \<in> set (enter_step e m)" by simp
    from wstep.enter [of _ _ e m T, OF this] show ?thesis using fields i by simp
  next
    case (WNotify t i)
    with a fields have i: "i < length (notify_step (T t) m)"
      "s' = (T(t := fst (notify_step (T t) m ! i)), e, snd (notify_step (T t) m ! i))" by (simp_all add: Let_def split: if_splits)
    then have "(fst (notify_step (T t) m ! i), snd (notify_step (T t) m ! i)) \<in> set (notify_step (T t) m)" by simp
    from wstep.notify [of _ _ T t m, OF this] show ?thesis using fields i by simp
  qed
qed

lemma wrun_steps: "wrun xs s = Some s' \<Longrightarrow> wstep\<^sup>*\<^sup>* s s'"
proof (induction xs arbitrary: s)
  case (Cons x xs)
  then obtain s1 where s1: "wmove x s = Some s1" "wrun xs s1 = Some s'" by (auto simp: Option.bind_eq_Some_conv)
  show ?case by (rule converse_rtranclp_into_rtranclp [OF wmove_step [OF s1(1)] Cons.IH [OF s1(2)]])
qed simp

lemma wsteps_reachable: "wstep\<^sup>*\<^sup>* s s' \<Longrightarrow> wreachable s \<Longrightarrow> wreachable s'"
  by (induction rule: rtranclp_induct) (auto intro: wreachable.step)

definition wrun_of :: "'t wcmd list \<Rightarrow> ('t wsys \<Rightarrow> bool) \<Rightarrow> bool" where
  "wrun_of xs P = (case wrun xs (\<lambda>_. NIdle, E_Loop, wake_new) of None \<Rightarrow> False | Some s \<Rightarrow> P s)"

lemma wrun_ofD:
  assumes "wrun_of xs P"
  shows "\<exists>T e m. wreachable (T, e, m) \<and> P (T, e, m)"
proof -
  obtain s where s: "wrun xs (\<lambda>_. NIdle, E_Loop, wake_new) = Some s" "P s"
    using assms by (auto simp: wrun_of_def split: option.splits)
  have "wreachable s" by (rule wsteps_reachable [OF wrun_steps [OF s(1)] wreachable.init])
  with s(2) show ?thesis by (cases s) auto
qed

text \<open>The owner goes to sleep; \<open>False\<close> and \<open>True\<close> both notify, \<open>False\<close> first.\<close>

definition demo_sleep :: "bool wcmd list" where
  "demo_sleep = [WEnter 0, WEnter 0, WEnter 0, WEnter 0, WEnter 0, WNotify False 0, WNotify True 0, WNotify False 0]"

section \<open>Properties\<close>



text \<open>
  a notification that finds the owner awake disables the scheduler: \<open>_S_notify\<close> stays in \<open>__state_\<close>, every later
  \<open>_M_io_uring_enter\<close> fails its exchange from \<open>_S_run\<close> and returns without the system call, and nothing sets the
  state back, whatever the threads do. No submission reaches the kernel any more.
\<close>

theorem notify_disables_enter:
  assumes "w_state m = S_notify" "\<not> asleep e" "wstep\<^sup>*\<^sup>* (T, e, m) (T', e', m')"
  shows "w_state m' = S_notify \<and> \<not> asleep e' \<and> w_enters m' = w_enters m"
proof -
  let ?P = "\<lambda>(U, f, n). w_state n = S_notify \<and> \<not> asleep f \<and> w_enters n = w_enters m"
  have st: "?P s'" if "wstep s s'" "?P s" for s s'
    using that
  proof (induction rule: wstep.induct)
    case (enter e' m' e m T)
    then show ?case by (cases e) (auto simp: asleep_def mutex_lock_def split: if_splits)
  next
    case (notify p m' T t m e)
    then show ?case by (cases "T t") (auto simp: mutex_lock_def split: if_splits)
  qed
  have "?P s'" if "wstep\<^sup>*\<^sup>* (T, e, m) s'" for s'
    using that
  proof (induction rule: rtranclp_induct)
    case base
    show ?case using assms(1,2) by simp
  next
    case (step y z)
    show ?case by (rule st [OF step(2,3)])
  qed
  from this [OF assms(3)] show ?thesis by simp
qed

theorem notify_disables_enter_witness:
  "\<exists>T e m s. wreachable (T :: bool \<Rightarrow> npc, e, m) \<and> w_state m = S_notify \<and> wrun [WEnter 0, WEnter 0, WEnter 0, WEnter 0] (T, e, m) = Some s
     \<and> w_state (snd (snd s)) = S_notify \<and> w_enters (snd (snd s)) = 0"
proof -
  let ?loop = "[WEnter 0, WEnter 0, WEnter 0, WEnter 0] :: bool wcmd list"
  have "wrun_of [WNotify False 0, WNotify False 0] (\<lambda>(T, e, m). e = E_Loop \<and> w_state m = S_notify \<and> \<not> w_locked m \<and> w_enters m = 0)"
    by code_simp
  from wrun_ofD [OF this] obtain T m where s: "wreachable (T :: bool \<Rightarrow> npc, E_Loop, m)" "w_state m = S_notify"
    "\<not> w_locked m" "w_enters m = 0" by auto
  have r: "wrun ?loop (T, E_Loop, m) = Some (T, E_Loop, m\<lparr>w_locked := False\<rparr>)"
    using s(2,3) by (simp add: mutex_lock_def)
  have "\<not> asleep E_Loop" by (simp add: asleep_def)
  from notify_disables_enter [OF s(2) this wrun_steps [OF r]] s r show ?thesis
    by (intro exI [of _ T] exI [of _ E_Loop] exI [of _ m] exI [of _ "(T, E_Loop, m\<lparr>w_locked := False\<rparr>)"] conjI)
      (simp_all del: wrun.simps)
qed

end
