(* ===== verification/Remote_Source.thy ===== *)
theory Remote_Source
  imports Intrusive_Queue Round_Up Ring_Index
begin

text \<open>
  \<open>__memrc::__remote_source\<close> of \<open>__memory_resource.hpp\<close>: a ring of 64 cells, each a stack of up to
  16 free blocks with a counter; \<open>__state_\<close> packs the 32-bit index of the cell being filled (low half)
  and of the next full cell (high half). The operations are modelled without interference by other
  threads, each cell's stack by its head pointer and the blocks' \<open>__next_\<close> (what interference does to such
  a stack is the subject of \<open>Atomic_Queue\<close>, what it does to the source that of \<open>Remote_Threads\<close>). \<^term>\<open>None\<close> is undefined behaviour, a terminated program, or
  a loop that waits for another thread. A block is its address; the
  address of each mapping is the parameter \<open>mm\<close>, \<^term>\<open>None\<close> where \<open>mmap\<close> fails.
\<close>

section \<open>State\<close>

definition k_T :: nat where "k_T = 16"
definition k_N :: nat where "k_N = 16"
definition k_M :: nat where "k_M = 64"
definition k_K :: nat where "k_K = k_N * k_M div k_T"
definition k_V :: u64 where "k_V = round_up (4096 + 4160 * of_nat k_M) 4096"

record remote =
  rm_next :: "u64 nexts"
  rm_queue :: "u32 \<Rightarrow> u64 ptr"
  rm_count :: "u32 \<Rightarrow> u64"
  rm_state :: u64
  rm_n :: u32
  rm_mmap :: "u32 \<Rightarrow> u64"

definition head_stride :: u64 where "head_stride = 1"
definition tail_stride :: u64 where "tail_stride = 2 ^ 32"

definition convert :: "u64 \<Rightarrow> u32 \<times> u32" where
  "convert m = (ucast m, ucast (drop_bit 32 m))"

definition cell_index :: "u32 \<Rightarrow> u32" where
  "cell_index i = i AND (of_nat k_K - 1)"

definition remote_new :: "u64 nexts \<Rightarrow> remote" where
  "remote_new nx = \<lparr>rm_next = nx, rm_queue = (\<lambda>_. nullptr), rm_count = (\<lambda>_. 0), rm_state = 0, rm_n = 0, rm_mmap = (\<lambda>_. 0)\<rparr>"

section \<open>Operations\<close>

definition remote_try_pop :: "'z remote_scheme \<Rightarrow> (u64 iqueue \<times> 'z remote_scheme) ub" where
  "remote_try_pop m = (case convert (rm_state m) of (h, t) \<Rightarrow>
     if h = t then Some (iq_new, m)
     else do {
       let s = cell_index t;
       (nx, q) \<leftarrow> iq_create_reversed (rm_next m) (rm_queue m s);
       Some (q, m\<lparr>rm_state := rm_state m + tail_stride, rm_next := nx, rm_queue := (rm_queue m)(s := nullptr),
         rm_count := (rm_count m)(s := 0)\<rparr>)
     })"

definition remote_push :: "u64 \<Rightarrow> 'z remote_scheme \<Rightarrow> 'z remote_scheme ub" where
  "remote_push b m = (case convert (rm_state m) of (h, t) \<Rightarrow>
     let s = cell_index h; n = rm_count m s in
     if n = of_nat k_T then None
     else Some (m\<lparr>rm_count := (rm_count m)(s := n + 1), rm_next := (rm_next m)(b := rm_queue m s),
            rm_queue := (rm_queue m)(s := Some b),
            rm_state := (if n + 1 = of_nat k_T then rm_state m + head_stride else rm_state m)\<rparr>))"

text \<open>\<open>__ptr\<close> is an array of \<open>__M_\<close> pointers; reading beyond its end is undefined.\<close>

definition arr_at :: "'a list \<Rightarrow> nat \<Rightarrow> 'a ub" where
  "arr_at xs i = (if i < length xs then Some (xs ! i) else None)"

partial_function (option) remote_prepend ::
  "u64 list \<Rightarrow> nat \<Rightarrow> u64 iqueue \<Rightarrow> 'z remote_scheme \<Rightarrow> 'z remote_scheme option" where
  "remote_prepend ptr k blk m =
     (if iq_empty blk then Some m
      else case convert (rm_state m) of (h, t) \<Rightarrow>
        (let s = cell_index h; n = rm_count m s; r = k_T - unat n in
         if n = of_nat k_T then None
         else do {
           lst \<leftarrow> arr_at ptr (k + r - 1);
           (nx, tmp, blk1) \<leftarrow> iq_splice (rm_next m) iq_new (iq_end iq_new) blk (iq_begin blk)
             \<lparr>it_pred = Some lst, it_item = (if k + r < k_M then arr_at ptr (k + r) else nullptr)\<rparr>;
           b \<leftarrow> deref (iq_back tmp);
           remote_prepend ptr (k + r) blk1
             (m\<lparr>rm_next := nx(b := rm_queue m s), rm_queue := (rm_queue m)(s := iq_front tmp),
                rm_count := (rm_count m)(s := of_nat k_T), rm_state := rm_state m + head_stride\<rparr>)
         }))"

fun alloc_loop :: "nat \<Rightarrow> u64 \<Rightarrow> u64 list \<Rightarrow> u64 nexts \<Rightarrow> u64 iqueue \<Rightarrow> (u64 list \<times> u64 nexts \<times> u64 iqueue) ub" where
  "alloc_loop 0 addr ptr nx tmp = Some (ptr, nx, tmp)"
| "alloc_loop (Suc j) addr ptr nx tmp = do {
     (nx1, tmp1) \<leftarrow> iq_push_back (nx(addr := nullptr)) (Some addr) tmp;
     alloc_loop j (addr + 4160) (ptr @ [addr]) nx1 tmp1
   }"

definition remote_allocate :: "u64 ptr \<Rightarrow> 'z remote_scheme \<Rightarrow> 'z remote_scheme ub" where
  "remote_allocate mp m = do {
     p \<leftarrow> deref mp;
     assert_c (unat (rm_n m) < k_N);
     let m1 = m\<lparr>rm_mmap := (rm_mmap m)(rm_n m := p), rm_n := rm_n m + 1\<rparr>;
     (ptr, nx, tmp) \<leftarrow> alloc_loop k_M (p + 4096) [] (rm_next m1) iq_new;
     remote_prepend ptr 0 tmp (m1\<lparr>rm_next := nx\<rparr>)
   }"

definition spin_threshold :: nat where "spin_threshold = 16"

partial_function (option) remote_pop ::
  "(nat \<Rightarrow> u64 ptr) \<Rightarrow> nat \<Rightarrow> nat \<Rightarrow> 'z remote_scheme \<Rightarrow> (u64 iqueue \<times> 'z remote_scheme) option" where
  "remote_pop mm i spin m = do {
     (q, m1) \<leftarrow> remote_try_pop m;
     if \<not> iq_empty q then Some (q, m1)
     else if spin < spin_threshold then remote_pop mm i (Suc spin) m1
     else do { m2 \<leftarrow> remote_allocate (mm i) m1; remote_pop mm (Suc i) 0 m2 }
   }"

definition remote_unmapped :: "'z remote_scheme \<Rightarrow> (u64 \<times> u64) list" where
  "remote_unmapped m = map (\<lambda>i. (rm_mmap m (of_nat i), k_V)) [0..<unat (rm_n m)]"

section \<open>Indices\<close>

lemmas k_defs = k_T_def k_N_def k_M_def k_K_def

lemma cell_index_and: "cell_index i = i AND (2 ^ 6 - 1)"
  by (simp add: cell_index_def k_defs)

lemma cell_index_inj: "cell_index (t + of_nat i) = cell_index (t + of_nat j) \<Longrightarrow> i < 64 \<Longrightarrow> j < 64 \<Longrightarrow> i = j"
  unfolding cell_index_and by (rule and_mask_inj [of t i 6 j]) simp_all

lemma cell_index_wrap: "cell_index (t + 64) = cell_index t"
proof -
  have d: "(2::nat) ^ 6 dvd 2 ^ 32" by (rule le_imp_power_dvd) simp
  have "unat (t + 64) mod 2 ^ 6 = (unat t + 64) mod 2 ^ 32 mod 2 ^ 6" by (simp add: unat_word_ariths)
  also have "\<dots> = unat t mod 2 ^ 6" unfolding mod_mod_cancel [OF d] by simp
  finally have "unat (take_bit 6 (t + 64)) = unat (take_bit 6 t)"
    unfolding unsigned_take_bit_eq take_bit_nat_def .
  then have "take_bit 6 (t + 64) = take_bit 6 t" by (simp only: word_unat_eq_iff)
  then show ?thesis unfolding cell_index_and and_pow2 .
qed

text \<open>The two halves of the packed state, and what adding a stride does to them.\<close>

lemma unat_lo: "unat (ucast (u :: u64) :: u32) = unat u mod 2 ^ 32"
  by (simp add: unsigned_ucast_eq take_bit_eq_mod)

lemma unat_hi: "unat (ucast (drop_bit 32 (u :: u64)) :: u32) = unat u div 2 ^ 32"
proof -
  have "unat (drop_bit 32 u) = unat u div 2 ^ 32" using unat_u64_bound [of u] unfolding unsigned_drop_bit_eq drop_bit_nat_def take_bit_nat_def by simp
  moreover have "unat u div 2 ^ 32 < 2 ^ 32" using unat_u64_bound [of u] by simp
  ultimately show ?thesis by (simp add: unsigned_ucast_eq take_bit_eq_mod)
qed

lemma convert_eq: "convert u = (h, t) \<longleftrightarrow> unat u mod 2 ^ 32 = unat h \<and> unat u div 2 ^ 32 = unat t"
  unfolding convert_def prod.inject unat_lo [symmetric] unat_hi [symmetric] word_unat_eq_iff ..

lemma convert_unat: "convert u = (h, t) \<Longrightarrow> unat u = unat h + 2 ^ 32 * unat t"
  unfolding convert_eq by (metis add.commute div_mult_mod_eq mult.commute)

lemma convert_head_stride:
  assumes "convert u = (h, t)" "h \<noteq> - 1"
  shows "convert (u + head_stride) = (h + 1, t)"
proof -
  have "unat h \<noteq> 2 ^ 32 - 1" using assms(2) unfolding word_unat_eq_iff unat_max .
  then have "Suc (unat h) < 2 ^ 32" using unat_u32_bound [of h] by simp
  moreover from this have h: "unat (h + 1) = Suc (unat h)" by (simp add: unat_word_ariths)
  moreover have u: "unat u = unat h + 2 ^ 32 * unat t" by (rule convert_unat [OF assms(1)])
  moreover have "Suc (unat u) < 2 ^ 64" using u unat_u32_bound [of t] \<open>Suc (unat h) < 2 ^ 32\<close> by simp
  then have "unat (u + 1) = Suc (unat u)" by (simp add: unat_word_ariths)
  ultimately show ?thesis unfolding convert_eq head_stride_def h by simp
qed

lemma convert_tail_stride:
  assumes "convert u = (h, t)"
  shows "convert (u + tail_stride) = (h, t + 1)"
proof -
  have u: "unat u = unat h + 2 ^ 32 * unat t" by (rule convert_unat [OF assms])
  have "unat (u + tail_stride) = (unat u + 2 ^ 32) mod 2 ^ 64" by (simp add: tail_stride_def unat_word_ariths)
  also have "\<dots> = unat h + 2 ^ 32 * ((unat t + 1) mod 2 ^ 32)"
    using u unat_u32_bound [of h] unat_u32_bound [of t] by (cases "unat t + 1 = 2 ^ 32") simp_all
  finally have e: "unat (u + tail_stride) = unat h + 2 ^ 32 * ((unat t + 1) mod 2 ^ 32)" .
  have "unat (t + 1) = (unat t + 1) mod 2 ^ 32" by (simp add: unat_word_ariths)
  with e show ?thesis unfolding convert_eq using unat_u32_bound [of h] by simp
qed

text \<open>At the end of the index range, the low half carries into the high half.\<close>

lemma convert_head_carry: "convert u = (- 1, t) \<Longrightarrow> convert (u + head_stride) = (0, t + 1)"
proof -
  assume a: "convert u = (- 1, t)"
  have u: "unat u = (2 ^ 32 - 1) + 2 ^ 32 * unat t" using convert_unat [OF a] unfolding unat_max .
  have "unat (u + head_stride) = (unat u + 1) mod 2 ^ 64" by (simp add: head_stride_def unat_word_ariths)
  also have "\<dots> = 2 ^ 32 * ((unat t + 1) mod 2 ^ 32)"
    using u unat_u32_bound [of t] by (cases "unat t + 1 = 2 ^ 32") simp_all
  finally have e: "unat (u + head_stride) = 2 ^ 32 * ((unat t + 1) mod 2 ^ 32)" .
  have "unat (t + 1) = (unat t + 1) mod 2 ^ 32" by (simp add: unat_word_ariths)
  with e show ?thesis unfolding convert_eq by simp
qed

section \<open>Abstraction\<close>

text \<open>Full batches, oldest first, and the batch being filled; each in the order of its pushes.\<close>

definition cell :: "u64 list list \<Rightarrow> u64 list \<Rightarrow> nat \<Rightarrow> u64 list" where
  "cell bs cur i = (if i < length bs then bs ! i else if i = length bs then cur else [])"

definition cells :: "'z remote_scheme \<Rightarrow> u32 \<Rightarrow> (nat \<Rightarrow> u64 list) \<Rightarrow> bool" where
  "cells m t f \<longleftrightarrow> (\<forall>i < 64. lseg (rm_next m) (rm_queue m (cell_index (t + of_nat i))) (rev (f i)) nullptr
     \<and> rm_count m (cell_index (t + of_nat i)) = of_nat (length (f i)))"

definition batches_ok :: "u64 list list \<Rightarrow> u64 list \<Rightarrow> bool" where
  "batches_ok bs cur \<longleftrightarrow> length bs \<le> 64 \<and> (\<forall>b \<in> set bs. length b = 16) \<and> length cur < 16
     \<and> (length bs = 64 \<longrightarrow> cur = []) \<and> distinct (concat bs @ cur)"

definition remote_repr :: "'z remote_scheme \<Rightarrow> u64 list list \<Rightarrow> u64 list \<Rightarrow> bool" where
  "remote_repr m bs cur \<longleftrightarrow> batches_ok bs cur
     \<and> (\<exists>h t. convert (rm_state m) = (h, t) \<and> h = t + of_nat (length bs) \<and> cells m t (cell bs cur))"

lemma remote_reprE:
  assumes "remote_repr m bs cur"
  obtains h t where "convert (rm_state m) = (h, t)" "h = t + of_nat (length bs)" "cells m t (cell bs cur)" "batches_ok bs cur"
  using assms by (auto simp: remote_repr_def)

lemma remote_reprI:
  "batches_ok bs cur \<Longrightarrow> convert (rm_state m) = (h, t) \<Longrightarrow> h = t + of_nat (length bs) \<Longrightarrow> cells m t (cell bs cur) \<Longrightarrow> remote_repr m bs cur"
  by (auto simp: remote_repr_def)

lemma cellsD:
  "cells m t f \<Longrightarrow> i < 64 \<Longrightarrow> lseg (rm_next m) (rm_queue m (cell_index (t + of_nat i))) (rev (f i)) nullptr"
  "cells m t f \<Longrightarrow> i < 64 \<Longrightarrow> rm_count m (cell_index (t + of_nat i)) = of_nat (length (f i))"
  by (simp_all add: cells_def)

lemma concat_nth: "k < length bs \<Longrightarrow> set (bs ! k) \<subseteq> set (concat bs)"
  using nth_mem by fastforce

lemma of_nat_u64_eq: "a < 2 ^ 64 \<Longrightarrow> b < 2 ^ 64 \<Longrightarrow> (of_nat a :: u64) = of_nat b \<longleftrightarrow> a = b"
  by (auto simp: word_unat_eq_iff unat_of_nat)

lemma cell_set: "set (cell bs cur i) \<subseteq> set (concat bs @ cur)"
  using concat_nth [of i bs] by (auto simp: cell_def)

lemma distinct_concat_nth:
  "distinct (concat bs) \<Longrightarrow> i < length bs \<Longrightarrow> j < length bs \<Longrightarrow> i \<noteq> j \<Longrightarrow> set (bs ! i) \<inter> set (bs ! j) = {}"
proof (induction bs arbitrary: i j)
  case (Cons b bs)
  have d: "set b \<inter> set (concat bs) = {}" "distinct (concat bs)"
    using Cons.prems(1) by (simp_all only: concat.simps distinct_append)
  show ?case
  proof (cases i)
    case 0
    with Cons.prems obtain k where "j = Suc k" "k < length bs" by (cases j) auto
    with 0 d(1) concat_nth [of k bs] show ?thesis by auto
  next
    case (Suc k)
    show ?thesis
    proof (cases j)
      case 0
      with Suc Cons.prems d(1) concat_nth [of k bs] show ?thesis by auto
    next
      case (Suc l)
      with \<open>i = Suc k\<close> Cons.IH [OF d(2), of k l] Cons.prems show ?thesis by simp
    qed
  qed
qed simp

lemma cell_disjoint: "distinct (concat bs @ cur) \<Longrightarrow> i \<noteq> j \<Longrightarrow> set (cell bs cur i) \<inter> set (cell bs cur j) = {}"
proof -
  assume d: "distinct (concat bs @ cur)" and ij: "i \<noteq> j"
  note concat_nth
  with d ij distinct_concat_nth [of bs i j] show ?thesis by (auto simp: cell_def) blast+
qed

text \<open>Replacing the content of one cell.\<close>

lemma cells_upd:
  assumes c: "cells m t f" and j: "j < 64" and l: "lseg (rm_next m') (rm_queue m' (cell_index (t + of_nat j))) (rev (g j)) nullptr"
    and n: "rm_count m' (cell_index (t + of_nat j)) = of_nat (length (g j))"
    and same: "\<And>s. s \<noteq> cell_index (t + of_nat j) \<Longrightarrow> rm_queue m' s = rm_queue m s \<and> rm_count m' s = rm_count m s"
    and f: "\<And>i. i < 64 \<Longrightarrow> i \<noteq> j \<Longrightarrow> g i = f i" and nx: "\<And>i x. i < 64 \<Longrightarrow> i \<noteq> j \<Longrightarrow> x \<in> set (f i) \<Longrightarrow> rm_next m' x = rm_next m x"
  shows "cells m' t g"
  unfolding cells_def
proof (intro allI impI)
  fix i :: nat assume i: "i < 64"
  show "lseg (rm_next m') (rm_queue m' (cell_index (t + of_nat i))) (rev (g i)) nullptr
     \<and> rm_count m' (cell_index (t + of_nat i)) = of_nat (length (g i))"
  proof (cases "i = j")
    case False
    then have s: "cell_index (t + of_nat i) \<noteq> cell_index (t + of_nat j)" using cell_index_inj i j by blast
    have "lseg (rm_next m') p (rev (f i)) nullptr = lseg (rm_next m) p (rev (f i)) nullptr" for p
      by (rule lseg_cong) (use nx i False in simp)
    with cellsD [OF c i] same [OF s] f [OF i False] show ?thesis by simp
  qed (use l n in simp)
qed

lemma cell_snoc: "cell (bs @ [b]) [] = cell bs b"
  by (auto simp: cell_def fun_eq_iff nth_append)

lemma cell_upd_cur: "cell bs cur' i = (if i = length bs then cur' else cell bs cur i)"
  by (simp add: cell_def)

lemma cell_Cons: "cell (b # bs) cur (Suc i) = cell bs cur i"
  by (simp add: cell_def)

section \<open>Refinement\<close>

lemma remote_push_refines:
  assumes r: "remote_repr m bs cur" and b: "b \<notin> set (concat bs @ cur)" and len: "length bs < 64"
    and h: "fst (convert (rm_state m)) \<noteq> - 1"
  shows "\<exists>m'. remote_push b m = Some m'
    \<and> (if length cur + 1 < 16 then remote_repr m' bs (cur @ [b]) else remote_repr m' (bs @ [cur @ [b]]) [])"
proof -
  from r obtain hd t where s: "convert (rm_state m) = (hd, t)" "hd = t + of_nat (length bs)" "cells m t (cell bs cur)"
    "batches_ok bs cur" by (rule remote_reprE)
  define j where "j = length bs"
  let ?s = "cell_index (t + of_nat j)"
  have cur: "cell bs cur j = cur" by (simp add: cell_def j_def)
  have n: "rm_count m ?s = of_nat (length cur)" and l: "lseg (rm_next m) (rm_queue m ?s) (rev cur) nullptr"
    using cellsD [OF s(3), of j] len cur by (simp_all add: j_def)
  have small: "length cur < 16" using s(4) by (simp add: batches_ok_def)
  then have ne: "(of_nat (length cur) :: u64) \<noteq> 16" using of_nat_u64_eq [of "length cur" 16] by simp
  have full: "(of_nat (length cur) :: u64) + 1 = 16 \<longleftrightarrow> length cur + 1 = 16"
    using of_nat_u64_eq [of "length cur + 1" 16] small by simp
  let ?m = "m\<lparr>rm_count := (rm_count m)(?s := rm_count m ?s + 1), rm_next := (rm_next m)(b := rm_queue m ?s),
            rm_queue := (rm_queue m)(?s := Some b),
            rm_state := (if rm_count m ?s + 1 = 16 then rm_state m + head_stride else rm_state m)\<rparr>"
  have p: "remote_push b m = Some ?m"
    using s(1,2) n ne by (simp add: remote_push_def k_T_def Let_def j_def)
  have d: "distinct (concat bs @ cur)" using s(4) by (simp add: batches_ok_def)
  have c: "cells ?m t (cell bs (cur @ [b]))"
  proof (rule cells_upd [OF s(3), of j])
    show "j < 64" using len by (simp add: j_def)
    show "lseg (rm_next ?m) (rm_queue ?m ?s) (rev (cell bs (cur @ [b]) j)) nullptr" using l b by (simp add: cell_def j_def)
    show "rm_next ?m x = rm_next m x" if "x \<in> set (cell bs cur i)" for i x
      using that b cell_set [of bs cur i] by auto
  qed (use n in \<open>simp_all add: cell_def j_def\<close>)
  show ?thesis
  proof (cases "length cur + 1 < 16")
    case True
    have "remote_repr ?m bs (cur @ [b])"
      by (rule remote_reprI [OF _ _ s(2) c]) (use True s(1,4) b full n len in \<open>auto simp: batches_ok_def\<close>)
    with p True show ?thesis by (intro exI [of _ ?m]) simp
  next
    case False
    then have f: "length cur + 1 = 16" using small by simp
    have hd: "hd \<noteq> - 1" using h s(1) by simp
    have "remote_repr ?m (bs @ [cur @ [b]]) []"
    proof (rule remote_reprI)
      show "batches_ok (bs @ [cur @ [b]]) []" using s(4) f b len by (auto simp: batches_ok_def)
      show "convert (rm_state ?m) = (hd + 1, t)" using convert_head_stride [OF s(1) hd] f full n by simp
      show "cells ?m t (cell (bs @ [cur @ [b]]) [])" using c by (simp only: cell_snoc)
    qed (simp add: s(2))
    with p False show ?thesis by (intro exI [of _ ?m]) simp
  qed
qed

lemma of_nat_u32_ne: "0 < n \<Longrightarrow> n < 2 ^ 32 \<Longrightarrow> (of_nat n :: u32) \<noteq> 0"
  by (simp add: word_unat_eq_iff unat_of_nat)

lemma remote_push_full: "remote_repr m bs cur \<Longrightarrow> length bs = 64 \<Longrightarrow> remote_push b m = None"
proof -
  assume r: "remote_repr m bs cur" and len: "length bs = 64"
  from r obtain h t where s: "convert (rm_state m) = (h, t)" "h = t + of_nat (length bs)" "cells m t (cell bs cur)"
    "batches_ok bs cur" by (rule remote_reprE)
  have "cell_index h = cell_index (t + of_nat 0)" using s(2) len cell_index_wrap [of t] by simp
  moreover have "length (cell bs cur 0) = 16" using s(4) len nth_mem [of 0 bs] by (simp add: cell_def batches_ok_def)
  ultimately have "rm_count m (cell_index h) = 16" using cellsD(2) [OF s(3), of 0] by simp
  with s(1) show ?thesis by (simp add: remote_push_def k_T_def)
qed

lemma cells_shift: "cells m t g \<Longrightarrow> cells m (t + 1) (\<lambda>i. if i = 63 then g 0 else g (Suc i))"
  unfolding cells_def
proof (intro allI impI)
  fix i :: nat
  assume c: "\<forall>i<64. lseg (rm_next m) (rm_queue m (cell_index (t + of_nat i))) (rev (g i)) nullptr
     \<and> rm_count m (cell_index (t + of_nat i)) = of_nat (length (g i))" and i: "i < 64"
  show "lseg (rm_next m) (rm_queue m (cell_index (t + 1 + of_nat i))) (rev (if i = 63 then g 0 else g (Suc i))) nullptr
     \<and> rm_count m (cell_index (t + 1 + of_nat i)) = of_nat (length (if i = 63 then g 0 else g (Suc i)))"
  proof (cases "i = 63")
    case True
    have "t + 1 + of_nat i = t + 64" using True by simp
    then have "cell_index (t + 1 + of_nat i) = cell_index (t + of_nat 0)" by (simp only: cell_index_wrap) simp
    with spec [OF c, of 0] True show ?thesis by simp
  next
    case False
    have "t + 1 + of_nat i = t + of_nat (Suc i)" by simp
    with spec [OF c, of "Suc i"] False i show ?thesis by (simp add: add.assoc)
  qed
qed

lemma remote_try_pop_refines:
  assumes r: "remote_repr m (b # bs) cur"
  shows "\<exists>q m'. remote_try_pop m = Some (q, m') \<and> iq_repr (rm_next m') q b \<and> remote_repr m' bs cur
    \<and> fst (convert (rm_state m')) = fst (convert (rm_state m)) \<and> same_off (set b) (rm_next m) (rm_next m')"
proof -
  from r obtain h t where s: "convert (rm_state m) = (h, t)" "h = t + of_nat (length (b # bs))"
    "cells m t (cell (b # bs) cur)" "batches_ok (b # bs) cur" by (rule remote_reprE)
  have len: "Suc (length bs) \<le> 64" using s(4) by (simp add: batches_ok_def)
  have ne: "h \<noteq> t" using s(2) of_nat_u32_ne [of "length (b # bs)"] len by simp
  let ?s = "cell_index t"
  have "lseg (rm_next m) (rm_queue m ?s) (rev b) nullptr" using cellsD(1) [OF s(3), of 0] by (simp add: cell_def)
  from iq_create_reversed_refines [OF this] obtain nx q where
    q: "iq_create_reversed (rm_next m) (rm_queue m ?s) = Some (nx, q)" "iq_repr nx q b" "same_off (set b) (rm_next m) nx" by auto
  let ?m = "m\<lparr>rm_state := rm_state m + tail_stride, rm_next := nx, rm_queue := (rm_queue m)(?s := nullptr),
         rm_count := (rm_count m)(?s := 0)\<rparr>"
  have p: "remote_try_pop m = Some (q, ?m)" using s(1) ne q(1) by (simp add: remote_try_pop_def Let_def)
  let ?g = "\<lambda>i. if i = 0 then [] else cell (b # bs) cur i"
  have d: "distinct (concat (b # bs) @ cur)" using s(4) by (simp add: batches_ok_def)
  have "cells ?m t ?g"
  proof (rule cells_upd [OF s(3), of 0])
    show "rm_next ?m x = rm_next m x" if "i < 64" "i \<noteq> 0" "x \<in> set (cell (b # bs) cur i)" for i x
    proof -
      have "set (cell (b # bs) cur 0) = set b" by (simp add: cell_def)
      with cell_disjoint [OF d that(2)] that(3) have "x \<notin> set b" by auto
      with q(3) show ?thesis by (simp add: same_off_def)
    qed
  qed simp_all
  from cells_shift [OF this] have "cells ?m (t + 1) (\<lambda>i. if i = 63 then [] else cell (b # bs) cur (Suc i))"
    by (simp only: if_True if_False nat.simps simp_thms)
  moreover have "(if i = 63 then [] else cell (b # bs) cur (Suc i)) = cell bs cur i" if "i < 64" for i
    using that len s(4) by (auto simp: cell_Cons cell_def batches_ok_def)
  ultimately have c: "cells ?m (t + 1) (cell bs cur)" unfolding cells_def by simp
  have "remote_repr ?m bs cur"
    by (rule remote_reprI [OF _ _ _ c, of h]) (use s(2,4) convert_tail_stride [OF s(1)] in \<open>auto simp: batches_ok_def\<close>)
  with p q s(1) convert_tail_stride [OF s(1)] show ?thesis by simp
qed

lemma remote_try_pop_none: "remote_repr m [] cur \<Longrightarrow> remote_try_pop m = Some (iq_new, m)"
  by (erule remote_reprE) (simp add: remote_try_pop_def)

section \<open>Filling cells from a new mapping\<close>

lemma remote_prepend_step:
  assumes r: "remote_repr m bs cur" and len: "length bs < 64" and h: "fst (convert (rm_state m)) \<noteq> - 1"
    and q: "iq_repr (rm_next m) blk (xs @ ys)" and xs: "length xs = 16 - length cur"
    and ptr: "ptr = pre @ xs @ ys" "length ptr = 64" and fresh: "set (xs @ ys) \<inter> set (concat bs @ cur) = {}"
  shows "\<exists>m' blk'. remote_prepend ptr (length pre) blk m = remote_prepend ptr (length pre + length xs) blk' m'
    \<and> remote_repr m' (bs @ [cur @ rev xs]) [] \<and> iq_repr (rm_next m') blk' ys
    \<and> fst (convert (rm_state m')) = fst (convert (rm_state m)) + 1"
proof -
  from r obtain hd t where s: "convert (rm_state m) = (hd, t)" "hd = t + of_nat (length bs)" "cells m t (cell bs cur)"
    "batches_ok bs cur" by (rule remote_reprE)
  have small: "length cur < 16" using s(4) by (simp add: batches_ok_def)
  then have xne: "xs \<noteq> []" using xs by auto
  define j where "j = length bs"
  let ?s = "cell_index (t + of_nat j)"
  have n: "rm_count m ?s = of_nat (length cur)" and l: "lseg (rm_next m) (rm_queue m ?s) (rev cur) nullptr"
    using cellsD [OF s(3), of j] len by (simp_all add: j_def cell_def)
  have un: "unat (of_nat (length cur) :: u64) = length cur" using small by (simp add: unat_of_nat)
  have ne: "(of_nat (length cur) :: u64) \<noteq> 16" using of_nat_u64_eq [of "length cur" 16] small by simp
  have dq: "distinct (xs @ ys)" using iq_repr_distinct [OF q] .
  from iq_splice_prefix [OF q xne iq_repr_new] obtain tmp blk1 where
    sp: "iq_splice (rm_next m) iq_new (iq_end iq_new) blk (iq_begin blk)
        \<lparr>it_pred = Some (last xs), it_item = (case ys of [] \<Rightarrow> nullptr | y # _ \<Rightarrow> Some y)\<rparr> = Some (rm_next m, tmp, blk1)"
    "iq_repr (rm_next m) blk1 ys" "lseg (rm_next m) (iq_head tmp) xs (iq_head blk1)" "iq_tail tmp = last_ptr xs" by blast
  let ?k = "length pre" and ?r = "k_T - length cur"
  have kr: "?k + ?r - 1 < length ptr" "ptr ! (?k + ?r - 1) = last xs"
    using ptr xs xne small by (auto simp: k_T_def nth_append last_conv_nth)
  have it: "(if ?k + ?r < k_M then arr_at ptr (?k + ?r) else nullptr) = (case ys of [] \<Rightarrow> nullptr | y # _ \<Rightarrow> Some y)"
    using ptr xs by (cases ys) (auto simp: k_T_def k_M_def arr_at_def nth_append)
  have bk: "iq_back tmp = Some (last xs)" using sp(4) xne by (simp add: iq_back_def last_ptr_def)
  let ?nx = "(rm_next m)(last xs := rm_queue m ?s)"
  let ?m = "m\<lparr>rm_next := ?nx, rm_queue := (rm_queue m)(?s := iq_front tmp),
                rm_count := (rm_count m)(?s := of_nat k_T), rm_state := rm_state m + head_stride\<rparr>"
  have a: "arr_at ptr (?k + ?r - 1) = Some (last xs)" using kr by (simp add: arr_at_def)
  have ne': "rm_count m ?s \<noteq> of_nat k_T" "unat (rm_count m ?s) = length cur" using n ne un by (simp_all add: k_T_def)
  have "\<not> iq_empty blk" using iq_repr_empty [OF q] xne by simp
  then have step: "remote_prepend ptr ?k blk m = remote_prepend ptr (?k + ?r) blk1 ?m"
    by (subst remote_prepend.simps)
      (simp only: if_False s(1,2) prod.case Let_def j_def [symmetric] ne' a bk it sp(1) bind.bind_lunit deref_simps)
  have lx: "last xs \<in> set xs" using xne by simp
  have stack: "lseg ?nx (iq_head tmp) (xs @ rev cur) nullptr"
  proof -
    have "lseg ?nx (iq_head tmp) xs (rm_queue m ?s)" by (rule lseg_redirect [OF sp(3) xne]) (use dq in simp)
    moreover have "lseg ?nx (rm_queue m ?s) (rev cur) nullptr" using l lx fresh by (subst lseg_frame) auto
    ultimately show ?thesis by (auto simp: lseg_append)
  qed
  have c: "cells ?m t (cell bs (cur @ rev xs))"
  proof (rule cells_upd [OF s(3), of j])
    show "j < 64" using len by (simp add: j_def)
    show "lseg (rm_next ?m) (rm_queue ?m ?s) (rev (cell bs (cur @ rev xs) j)) nullptr"
      using stack by (simp add: cell_def j_def iq_front_def)
    show "rm_count ?m ?s = of_nat (length (cell bs (cur @ rev xs) j))" using xs small by (simp add: cell_def j_def k_T_def)
    show "rm_next ?m x = rm_next m x" if "x \<in> set (cell bs cur i)" for i x
      using that fresh lx cell_set [of bs cur i] by auto
  qed (simp_all add: cell_def j_def)
  have hd: "hd \<noteq> - 1" using h s(1) by simp
  have cv: "convert (rm_state ?m) = (hd + 1, t)" using convert_head_stride [OF s(1) hd] by simp
  have "remote_repr ?m (bs @ [cur @ rev xs]) []"
  proof (rule remote_reprI [OF _ cv])
    show "batches_ok (bs @ [cur @ rev xs]) []" using s(4) xs small fresh len dq by (auto simp: batches_ok_def)
    show "cells ?m t (cell (bs @ [cur @ rev xs]) [])" using c by (simp only: cell_snoc)
  qed (simp add: s(2))
  moreover have "iq_repr (rm_next ?m) blk1 ys"
  proof -
    have "last xs \<notin> set ys" using dq lx by auto
    with sp(2) show ?thesis by (simp add: iq_repr_def)
  qed
  moreover have "?r = length xs" using xs by (simp add: k_T_def)
  ultimately show ?thesis using step cv s(1) by (intro exI [of _ ?m] exI [of _ blk1]) simp
qed

text \<open>Whole batches from the front of the rest.\<close>

lemma remote_prepend_batches:
  "remote_repr m bs [] \<Longrightarrow> length full = 16 * c \<Longrightarrow> length bs + c \<le> 64 \<Longrightarrow> unat (fst (convert (rm_state m))) + c < 2 ^ 32 \<Longrightarrow>
   iq_repr (rm_next m) blk (full @ rest) \<Longrightarrow> ptr = pre @ full @ rest \<Longrightarrow> length ptr = 64 \<Longrightarrow>
   set (full @ rest) \<inter> set (concat bs) = {} \<Longrightarrow>
   \<exists>m' blk' cs. remote_prepend ptr (length pre) blk m = remote_prepend ptr (length (pre @ full)) blk' m'
     \<and> remote_repr m' (bs @ map rev cs) [] \<and> iq_repr (rm_next m') blk' rest \<and> concat cs = full \<and> (\<forall>x \<in> set cs. length x = 16)"
proof (induction c arbitrary: m bs full blk pre)
  case 0
  then show ?case by (intro exI [of _ m] exI [of _ blk] exI [of _ "[]"]) simp
next
  case (Suc c)
  define xs ys where "xs = take 16 full" "ys = drop 16 full"
  then have r: "full = xs @ ys" "length xs = 16" "length ys = 16 * c" using Suc.prems(2) by simp_all
  have h: "fst (convert (rm_state m)) \<noteq> - 1"
    using Suc.prems(4) unat_max by auto
  have len: "length bs < 64" using Suc.prems(3) by simp
  have q: "iq_repr (rm_next m) blk (xs @ ys @ rest)" and pt: "ptr = pre @ xs @ ys @ rest" using Suc.prems(5,6) r(1) by simp_all
  have xs: "length xs = 16 - length ([] :: u64 list)" using r(2) by simp
  have fr: "set (xs @ ys @ rest) \<inter> set (concat bs @ []) = {}" using Suc.prems(8) r(1) by simp
  obtain m1 blk1 where m1: "remote_prepend ptr (length pre) blk m = remote_prepend ptr (length pre + length xs) blk1 m1"
    "remote_repr m1 (bs @ [rev xs]) []" "iq_repr (rm_next m1) blk1 (ys @ rest)"
    "fst (convert (rm_state m1)) = fst (convert (rm_state m)) + 1"
    using remote_prepend_step [OF Suc.prems(1) len h q xs pt Suc.prems(7) fr] by auto
  have "unat (fst (convert (rm_state m1))) = Suc (unat (fst (convert (rm_state m))))"
    unfolding m1(4) using Suc.prems(4) by (simp add: unat_word_ariths)
  then have b: "unat (fst (convert (rm_state m1))) + c < 2 ^ 32" using Suc.prems(4) by simp
  have d: "set (ys @ rest) \<inter> set (concat (bs @ [rev xs])) = {}"
    using Suc.prems(8) r(1) iq_repr_distinct [OF q] by auto
  have lb: "length (bs @ [rev xs]) + c \<le> 64" using Suc.prems(3) by simp
  have pt': "ptr = (pre @ xs) @ ys @ rest" using pt by simp
  obtain m' blk' cs where m': "remote_prepend ptr (length (pre @ xs)) blk1 m1 = remote_prepend ptr (length ((pre @ xs) @ ys)) blk' m'"
    "remote_repr m' ((bs @ [rev xs]) @ map rev cs) []" "iq_repr (rm_next m') blk' rest" "concat cs = ys" "\<forall>x \<in> set cs. length x = 16"
    using Suc.IH [OF m1(2) r(3) lb b m1(3) pt' Suc.prems(7) d] by blast
  show ?case
    by (rule exI [of _ m'], rule exI [of _ blk'], rule exI [of _ "xs # cs"]) (use m1(1) m' r in simp)
qed

text \<open>A rest of fewer than 16 blocks makes the loop read beyond the array of 64 pointers.\<close>

lemma remote_prepend_rest:
  assumes "remote_repr m bs []" "length bs < 64" "iq_repr (rm_next m) blk rest" "rest \<noteq> []" "length rest < 16"
    "ptr = pre @ rest" "length ptr = 64"
  shows "remote_prepend ptr (length pre) blk m = None"
proof -
  from assms(1) obtain h t where s: "convert (rm_state m) = (h, t)" "h = t + of_nat (length bs)" "cells m t (cell bs [])"
    by (rule remote_reprE)
  have n: "rm_count m (cell_index h) = 0" using cellsD(2) [OF s(3) assms(2)] s(2) by (simp add: cell_def)
  have "arr_at ptr (length pre + (k_T - unat (rm_count m (cell_index h))) - 1) = None"
    using n assms(4-7) by (cases rest) (auto simp: arr_at_def k_T_def)
  moreover have "rm_count m (cell_index h) \<noteq> of_nat k_T" using n by (simp add: k_T_def)
  moreover have "\<not> iq_empty blk" using iq_repr_empty [OF assms(3)] assms(4) by simp
  ultimately show ?thesis
    by (subst remote_prepend.simps) (simp only: if_False s(1) prod.case Let_def bind.bind_lzero)
qed

section \<open>Allocation\<close>

definition new_blocks :: "u64 \<Rightarrow> nat \<Rightarrow> u64 list" where
  "new_blocks addr n = map (\<lambda>i. addr + 4160 * of_nat i) [0..<n]"

lemma new_blocks_Suc: "new_blocks addr (Suc n) = addr # new_blocks (addr + 4160) n"
proof -
  have "map (\<lambda>i. addr + 4160 * of_nat i) (map Suc [0..<n]) = map (\<lambda>i. addr + 4160 + 4160 * of_nat i) [0..<n]"
    by (simp add: distrib_left add.assoc)
  then show ?thesis unfolding new_blocks_def map_Suc_upt [symmetric] upt_conv_Cons [OF zero_less_Suc]
    by (simp add: map_Suc_upt [symmetric] del: map_map upt.upt_Suc)
qed

lemma new_blocks_distinct: "n \<le> 64 \<Longrightarrow> distinct (new_blocks addr n)"
proof -
  assume n: "n \<le> 64"
  have "i = j" if "i < n" "j < n" "addr + 4160 * of_nat i = addr + 4160 * (of_nat j :: u64)" for i j
  proof -
    have "(of_nat (4160 * i) :: u64) = of_nat (4160 * j)" using that(3) by simp
    with of_nat_u64_eq [of "4160 * i" "4160 * j"] that n show ?thesis by simp
  qed
  then show ?thesis by (auto simp: new_blocks_def distinct_map inj_on_def)
qed

lemma alloc_loop_refines:
  assumes "iq_repr nx tmp done" "set (new_blocks addr j) \<inter> set done = {}" "j \<le> 64"
  shows "\<exists>nx' tmp'. alloc_loop j addr ptr nx tmp = Some (ptr @ new_blocks addr j, nx', tmp')
    \<and> iq_repr nx' tmp' (done @ new_blocks addr j) \<and> same_off (set done \<union> set (new_blocks addr j)) nx nx'"
  using assms
proof (induction j arbitrary: addr ptr nx tmp "done")
  case 0
  then show ?case by (simp add: new_blocks_def)
next
  case (Suc j)
  have nd: "addr \<notin> set (new_blocks (addr + 4160) j)" "set (new_blocks (addr + 4160) j) \<inter> set done = {}" "addr \<notin> set done"
    using new_blocks_distinct [OF Suc.prems(3), of addr] Suc.prems(2) by (auto simp: new_blocks_Suc)
  have "iq_repr (nx(addr := nullptr)) tmp done" using Suc.prems(1) nd(3) by (simp add: iq_repr_def)
  from iq_push_back_refines [OF this nd(3)] obtain nx1 tmp1 where
    p: "iq_push_back (nx(addr := nullptr)) (Some addr) tmp = Some (nx1, tmp1)" "iq_repr nx1 tmp1 (done @ [addr])"
    "same_off (insert addr (set done)) (nx(addr := nullptr)) nx1" by blast
  have "set (new_blocks (addr + 4160) j) \<inter> set (done @ [addr]) = {}" "j \<le> 64" using nd Suc.prems(3) by auto
  from Suc.IH [OF p(2) this, of "ptr @ [addr]"] obtain nx' tmp' where
    q: "alloc_loop j (addr + 4160) (ptr @ [addr]) nx1 tmp1 = Some ((ptr @ [addr]) @ new_blocks (addr + 4160) j, nx', tmp')"
    "iq_repr nx' tmp' ((done @ [addr]) @ new_blocks (addr + 4160) j)"
    "same_off (set (done @ [addr]) \<union> set (new_blocks (addr + 4160) j)) nx1 nx'" by blast
  have "same_off (set done \<union> set (new_blocks addr (Suc j))) nx nx'"
    using p(3) q(3) by (auto simp: same_off_def new_blocks_Suc)
  with p(1) q(1,2) show ?case by (simp add: new_blocks_Suc)
qed

lemma remote_repr_cong:
  assumes "remote_repr m bs cur" "\<And>x. x \<in> set (concat bs @ cur) \<Longrightarrow> rm_next m' x = rm_next m x"
    "rm_queue m' = rm_queue m" "rm_count m' = rm_count m" "rm_state m' = rm_state m"
  shows "remote_repr m' bs cur"
proof -
  have "lseg (rm_next m') p (rev (cell bs cur i)) nullptr = lseg (rm_next m) p (rev (cell bs cur i)) nullptr" for p i
    by (rule lseg_cong) (rule assms(2), use cell_set [of bs cur i] in auto)
  with assms show ?thesis by (simp add: remote_repr_def cells_def)
qed

text \<open>The 64 blocks of a mapping.\<close>

definition blocks_of :: "u64 \<Rightarrow> u64 list" where
  "blocks_of p = new_blocks (p + 4096) 64"

lemma blocks_of_len [simp]: "length (blocks_of p) = 64" "distinct (blocks_of p)"
  using new_blocks_distinct [of 64] by (simp_all add: blocks_of_def new_blocks_def)

lemma remote_allocate_start:
  assumes r: "remote_repr m bs cur" and n: "unat (rm_n m) < 16" and fresh: "set (blocks_of p) \<inter> set (concat bs @ cur) = {}"
  shows "\<exists>m1 tmp. remote_allocate (Some p) m = remote_prepend (blocks_of p) 0 tmp m1 \<and> remote_repr m1 bs cur
    \<and> rm_state m1 = rm_state m \<and> iq_repr (rm_next m1) tmp (blocks_of p)"
proof -
  obtain nx tmp where a: "alloc_loop 64 (p + 4096) [] (rm_next m) iq_new = Some (blocks_of p, nx, tmp)"
    "iq_repr nx tmp (blocks_of p)" "same_off (set (blocks_of p)) (rm_next m) nx"
    using alloc_loop_refines [of "rm_next m" iq_new "[]" "p + 4096" 64 "[]"] by (auto simp: blocks_of_def)
  let ?m = "m\<lparr>rm_mmap := (rm_mmap m)(rm_n m := p), rm_n := rm_n m + 1, rm_next := nx\<rparr>"
  have "remote_allocate (Some p) m = remote_prepend (blocks_of p) 0 tmp ?m"
    using n a(1) by (simp add: remote_allocate_def k_M_def k_N_def Let_def)
  moreover have "remote_repr ?m bs cur"
    by (rule remote_repr_cong [OF r]) (use a(3) fresh in \<open>auto simp: same_off_def\<close>)
  ultimately show ?thesis using a(2) by (intro exI [of _ ?m] exI [of _ tmp]) simp
qed

lemma remote_allocate_refines:
  assumes r: "remote_repr m bs []" and n: "unat (rm_n m) < 16" and fresh: "set (blocks_of p) \<inter> set (concat bs) = {}"
    and room: "length bs + 4 \<le> 64" "unat (fst (convert (rm_state m))) + 4 < 2 ^ 32"
  shows "\<exists>m' cs. remote_allocate (Some p) m = Some m' \<and> remote_repr m' (bs @ map rev cs) [] \<and> concat cs = blocks_of p
     \<and> (\<forall>x \<in> set cs. length x = 16)"
proof -
  have f: "set (blocks_of p) \<inter> set (concat bs @ []) = {}" using fresh by simp
  obtain m1 tmp where
    m1: "remote_allocate (Some p) m = remote_prepend (blocks_of p) 0 tmp m1" "remote_repr m1 bs []" "rm_state m1 = rm_state m"
    "iq_repr (rm_next m1) tmp (blocks_of p)" using remote_allocate_start [OF r n f] by blast
  obtain m' blk' cs where b: "remote_prepend (blocks_of p) 0 tmp m1 = remote_prepend (blocks_of p) 64 blk' m'"
    "remote_repr m' (bs @ map rev cs) []" "iq_repr (rm_next m') blk' []" "concat cs = blocks_of p" "\<forall>x \<in> set cs. length x = 16"
    using remote_prepend_batches [OF m1(2), of "blocks_of p" 4 tmp "[]" "blocks_of p" "[]"] m1(3,4) room fresh by auto
  have "remote_prepend (blocks_of p) 64 blk' m' = Some m'"
    by (subst remote_prepend.simps) (simp add: iq_repr_empty [OF b(3)])
  with m1(1) b show ?thesis by auto
qed

text \<open>With a partly filled cell, the last turn of the loop finds fewer blocks than a cell takes.\<close>

lemma remote_allocate_partial:
  assumes r: "remote_repr m bs cur" "cur \<noteq> []" and n: "unat (rm_n m) < 16"
    and fresh: "set (blocks_of p) \<inter> set (concat bs @ cur) = {}"
    and room: "length bs + 4 < 64" "unat (fst (convert (rm_state m))) + 5 < 2 ^ 32"
  shows "remote_allocate (Some p) m = None"
proof -
  let ?B = "blocks_of p" and ?n = "16 - length cur"
  have c16: "0 < length cur" "length cur < 16" using r by (auto simp: remote_repr_def batches_ok_def)
  obtain m1 tmp where
    m1: "remote_allocate (Some p) m = remote_prepend ?B 0 tmp m1" "remote_repr m1 bs cur" "rm_state m1 = rm_state m"
    "iq_repr (rm_next m1) tmp ?B" using remote_allocate_start [OF r(1) n fresh] by blast
  define xs ys zs where d: "xs = take ?n ?B" "ys = take 48 (drop ?n ?B)" "zs = drop 48 (drop ?n ?B)"
  have "xs @ ys @ zs = ?B" by (simp only: d append_take_drop_id)
  with d have B: "?B = xs @ ys @ zs" "length xs = ?n" "length ys = 16 * 3" "length zs = length cur"
    using c16 by simp_all
  have h: "fst (convert (rm_state m1)) \<noteq> - 1" using room(2) unat_max m1(3) by auto
  obtain m2 blk2 where m2: "remote_prepend ?B 0 tmp m1 = remote_prepend ?B (length xs) blk2 m2"
    "remote_repr m2 (bs @ [cur @ rev xs]) []" "iq_repr (rm_next m2) blk2 (ys @ zs)"
    "fst (convert (rm_state m2)) = fst (convert (rm_state m1)) + 1"
  proof -
    have "length bs < 64" "?B = [] @ xs @ ys @ zs" "set (xs @ ys @ zs) \<inter> set (concat bs @ cur) = {}"
      "iq_repr (rm_next m1) tmp (xs @ ys @ zs)" using fresh room(1) m1(4) B(1) by simp_all
    from remote_prepend_step [OF m1(2) this(1) h this(4) B(2) this(2) blocks_of_len(1) this(3)] that show ?thesis by auto
  qed
  have "unat (fst (convert (rm_state m2))) = Suc (unat (fst (convert (rm_state m))))"
    unfolding m2(4) m1(3) using room(2) by (simp add: unat_word_ariths)
  then have b: "unat (fst (convert (rm_state m2))) + 3 < 2 ^ 32" using room(2) by simp
  have dB: "distinct (xs @ ys @ zs)" using blocks_of_len(2) [of p] B(1) by simp
  have d: "set (ys @ zs) \<inter> set (concat (bs @ [cur @ rev xs])) = {}" using fresh dB unfolding B(1) by auto
  have l: "length (bs @ [cur @ rev xs]) + 3 \<le> 64" using room(1) by simp
  obtain m3 blk3 cs where m3: "remote_prepend ?B (length xs) blk2 m2 = remote_prepend ?B (length (xs @ ys)) blk3 m3"
    "remote_repr m3 ((bs @ [cur @ rev xs]) @ map rev cs) []" "iq_repr (rm_next m3) blk3 zs" "concat cs = ys" "\<forall>x \<in> set cs. length x = 16"
    using remote_prepend_batches [OF m2(2) B(3) l b m2(3) B(1) blocks_of_len(1) d] by blast
  have "length (concat cs) = 16 * length cs" using m3(5) by (induction cs) simp_all
  then have "length cs = 3" using m3(4) B(3) by simp
  then have "length ((bs @ [cur @ rev xs]) @ map rev cs) < 64" using room(1) by simp
  moreover have "zs \<noteq> []" "length zs < 16" using B(4) c16 by auto
  moreover have "?B = (xs @ ys) @ zs" using B(1) by simp
  ultimately have "remote_prepend ?B (length (xs @ ys)) blk3 m3 = None"
    using remote_prepend_rest [OF m3(2) _ m3(3)] blocks_of_len(1) by blast
  with m1(1) m2(1) m3(1) show ?thesis by simp
qed

section \<open>Taking a batch\<close>

lemma remote_pop_batch:
  assumes "remote_repr m (b # bs) cur"
  shows "\<exists>q m'. remote_pop mm i spin m = Some (q, m') \<and> iq_repr (rm_next m') q b \<and> remote_repr m' bs cur
    \<and> same_off (set b) (rm_next m) (rm_next m')"
proof -
  have "length b = 16" using assms by (simp add: remote_repr_def batches_ok_def)
  then have "b \<noteq> []" by auto
  with remote_try_pop_refines [OF assms] show ?thesis
    by (subst remote_pop.simps) (auto simp: iq_repr_empty)
qed

text \<open>Without a full batch, the loop spins and then allocates.\<close>

lemma remote_pop_spins:
  assumes "remote_repr m [] cur" "spin \<le> 16"
  shows "remote_pop mm i spin m = Option.bind (remote_allocate (mm i) m) (\<lambda>m2. remote_pop mm (Suc i) 0 m2)"
  using assms(2)
proof (induction spin rule: inc_induct)
  case base
  show ?case
    by (subst remote_pop.simps) (simp add: remote_try_pop_none [OF assms(1)] spin_threshold_def iq_empty_def iq_new_def)
next
  case (step s)
  then show ?case
    by (subst remote_pop.simps) (simp add: remote_try_pop_none [OF assms(1)] spin_threshold_def iq_empty_def iq_new_def)
qed

lemma remote_repr_new: "remote_repr (remote_new nx) [] []"
  by (simp add: remote_repr_def remote_new_def batches_ok_def cells_def cell_def convert_def)

lemma remote_push_next: "remote_push b m = Some m' \<Longrightarrow> same_off {b} (rm_next m) (rm_next m')"
  by (auto simp: remote_push_def Let_def same_off_def split: prod.splits if_splits)

lemma remote_pop_new_mapping:
  assumes "remote_repr m [] []" "unat (rm_n m) < 16" "unat (fst (convert (rm_state m))) + 4 < 2 ^ 32" "mm i = Some p" "spin \<le> 16"
  shows "\<exists>q m' x bs. remote_pop mm i spin m = Some (q, m') \<and> iq_repr (rm_next m') q x \<and> length x = 16
    \<and> remote_repr m' bs [] \<and> length bs = 3 \<and> mset (x @ concat bs) = mset (blocks_of p) \<and> distinct (x @ concat bs)"
proof -
  obtain m2 cs where a: "remote_allocate (Some p) m = Some m2" "remote_repr m2 (map rev cs) []" "concat cs = blocks_of p"
    "\<forall>x \<in> set cs. length x = 16"
    using remote_allocate_refines [OF assms(1,2) _ _ assms(3), of p] by auto
  have "length (concat cs) = 16 * length cs" using a(4) by (induction cs) simp_all
  then have "length cs = 4" using a(3) by simp
  then obtain c cs' where c: "cs = c # cs'" "length cs' = 3" by (cases cs) auto
  have r: "remote_repr m2 (rev c # map rev cs') []" using a(2) c(1) by simp
  obtain q m' where p: "remote_pop mm (Suc i) 0 m2 = Some (q, m')" "iq_repr (rm_next m') q (rev c)" "remote_repr m' (map rev cs') []"
    using remote_pop_batch [OF r] by blast
  have "mset (concat (map rev cs')) = mset (concat cs')" by (induction cs') simp_all
  then have ms: "mset (rev c @ concat (map rev cs')) = mset (blocks_of p)" using a(3) c(1) by (metis concat.simps(2) mset_append mset_rev)
  then have "distinct (rev c @ concat (map rev cs'))" using blocks_of_len(2) mset_eq_imp_distinct_iff by blast
  moreover have "remote_pop mm i spin m = Some (q, m')" using remote_pop_spins [OF assms(1,5)] a(1) p(1) assms(4) by simp
  ultimately show ?thesis using p(2,3) a(4) c ms
    by (intro exI [of _ q] exI [of _ m'] exI [of _ "rev c"] exI [of _ "map rev cs'"]) simp
qed

section \<open>Properties\<close>





text \<open>
  when some but fewer than sixteen blocks have been returned and no batch is full, \<open>_M_pop_swap_reversed\<close> has
  undefined behaviour: it maps memory, and \<open>_M_prepend\<close>, having topped up the partly filled cell, is left with fewer
  blocks than a cell takes and reads beyond the end of its array of 64 pointers.
\<close>

theorem remote_pop_partial_undefined:
  assumes "remote_repr m [] cur" "cur \<noteq> []" "unat (rm_n m) < 16" "unat (fst (convert (rm_state m))) + 5 < 2 ^ 32"
    "mm i = Some p" "set (blocks_of p) \<inter> set cur = {}" "spin \<le> 16"
  shows "remote_pop mm i spin m = None"
  using remote_pop_spins [OF assms(1,7), of mm i] remote_allocate_partial [OF assms(1,2,3), of p] assms(4,5,6) by simp

theorem remote_pop_partial_undefined_witness:
  "\<exists>m. remote_push 64 (remote_new (\<lambda>_. nullptr)) = Some m \<and> remote_pop (\<lambda>_. Some 8192) 0 0 m = None"
proof -
  let ?r = "remote_new (\<lambda>_. nullptr)"
  let ?m = "?r\<lparr>rm_count := (rm_count ?r)(0 := 1), rm_queue := (rm_queue ?r)(0 := Some 64)\<rparr>"
  have p: "remote_push 64 ?r = Some (?m\<lparr>rm_next := (\<lambda>_. nullptr)(64 := nullptr)\<rparr>)"
    by (simp add: remote_push_def remote_new_def convert_def cell_index_def k_T_def Let_def)
  let ?m1 = "?m\<lparr>rm_next := (\<lambda>_. nullptr)(64 := nullptr)\<rparr>"
  have r: "remote_repr ?m1 [] [64]"
    using remote_push_refines [OF remote_repr_new, of 64 "\<lambda>_. nullptr"] p by (auto simp: remote_new_def convert_def)
  have "(64 :: u64) \<notin> set (blocks_of 8192)"
  proof
    assume "(64 :: u64) \<in> set (blocks_of 8192)"
    then obtain i where "i < 64" "(64 :: u64) = of_nat (12288 + 4160 * i)" by (auto simp: blocks_of_def new_blocks_def)
    with of_nat_u64_eq [of 64 "12288 + 4160 * i"] show False by simp
  qed
  then have "set (blocks_of 8192) \<inter> set [64] = {}" by simp
  with remote_pop_partial_undefined [OF r, of "\<lambda>_. Some 8192" 0 8192 0] p show ?thesis
    by (simp add: remote_new_def convert_def)
qed

text \<open>
  the two indices are packed into one counter without a guard between them: a push that completes a batch when
  the head index is \<open>2 ^ 32 - 1\<close> carries into the tail index, which skips a batch nobody has taken.
\<close>

theorem remote_head_carry:
  assumes "convert (rm_state m) = (- 1, t)" "rm_count m (cell_index (- 1)) = 15"
  shows "\<exists>m'. remote_push b m = Some m' \<and> convert (rm_state m') = (0, t + 1)"
  using assms convert_head_carry [OF assms(1)] by (simp add: remote_push_def k_T_def Let_def)

theorem remote_head_carry_witness:
  "\<exists>m'. remote_push 64 ((remote_new (\<lambda>_. nullptr))\<lparr>rm_state := 2 ^ 32 - 1, rm_count := \<lambda>_. 15\<rparr>) = Some m' \<and> convert (rm_state m') = (0, 1)"
  using remote_head_carry [of "(remote_new (\<lambda>_. nullptr))\<lparr>rm_state := 2 ^ 32 - 1, rm_count := \<lambda>_. 15\<rparr>" 0 64]
  by (simp add: convert_def)

end
