(* ===== verification/Remote_Threads.thy ===== *)
theory Remote_Threads
  imports Remote_Source
begin

text \<open>
  \<open>__remote_source\<close> of \<open>__memory_resource.hpp\<close> under interference: any number of threads push blocks, prepend freshly allocated
  ones and try to pop a batch. A step is one access to \<open>__state_\<close>, to the counter of a cell, or one operation on the stack of a
  cell, which is atomic at its successful exchange (\<open>Atomic_Queue\<close>); a weak exchange may fail spuriously. Where the code would
  read beyond \<open>__ptr\<close> the thread has no step. \<open>rc_in\<close> is auxiliary: the blocks that are inside, from the call that brings
  one in until the return of the pop that takes it out.
\<close>

section \<open>State\<close>

record 'b rcells =
  rc_queue :: "u32 \<Rightarrow> 'b list"
  rc_count :: "u32 \<Rightarrow> u64"
  rc_state :: u64
  rc_in :: "'b set"

definition rcells_new :: "'b rcells" where
  "rcells_new = \<lparr>rc_queue = (\<lambda>_. []), rc_count = (\<lambda>_. 0), rc_state = 0, rc_in = {}\<rparr>"

datatype 'b rpc = R_Idle
  | Push_Load 'b | Push_Count 'b u32 | Push_Cas 'b u32 u64 | Push_Put 'b u32 u64 | Push_Head
  | Pre_Load "'b list" nat | Pre_Count "'b list" nat u32 | Pre_Cas "'b list" nat u32 u64 | Pre_Reload "'b list" nat u32
  | Pre_Put "'b list" nat u32 u64 | Pre_Head "'b list" nat
  | Pop_Load | Pop_Cas u64 | Pop_Take u32 | Pop_Reset u32 "'b list" | Pop_Ret "'b list"

definition head_cell :: "u64 \<Rightarrow> u32" where
  "head_cell u = cell_index (fst (convert u))"

definition tail_cell :: "u64 \<Rightarrow> u32" where
  "tail_cell u = cell_index (snd (convert u))"

section \<open>Steps\<close>

fun rtstep :: "'b rpc \<Rightarrow> 'b rcells \<Rightarrow> ('b rpc \<times> 'b rcells) list" where
  "rtstep R_Idle m = []"
\<comment> \<open>\<open>_M_push\<close>\<close>
| "rtstep (Push_Load b) m = [(Push_Count b (head_cell (rc_state m)), m)]"
| "rtstep (Push_Count b s) m = [(if rc_count m s = of_nat k_T then Push_Load b else Push_Cas b s (rc_count m s), m)]"
| "rtstep (Push_Cas b s n) m = (Push_Cas b s (rc_count m s), m) #
     (if rc_count m s = n then [(Push_Put b s (n + 1), m\<lparr>rc_count := (rc_count m)(s := n + 1)\<rparr>)] else [])"
| "rtstep (Push_Put b s n) m =
     [(if n = of_nat k_T then Push_Head else R_Idle, m\<lparr>rc_queue := (rc_queue m)(s := b # rc_queue m s)\<rparr>)]"
| "rtstep Push_Head m = [(R_Idle, m\<lparr>rc_state := rc_state m + head_stride\<rparr>)]"
\<comment> \<open>\<open>_M_prepend\<close>\<close>
| "rtstep (Pre_Load ptr k) m = [(if length ptr \<le> k then R_Idle else Pre_Count ptr k (head_cell (rc_state m)), m)]"
| "rtstep (Pre_Count ptr k s) m =
     [(if rc_count m s = of_nat k_T then Pre_Load ptr k else Pre_Cas ptr k s (rc_count m s), m)]"
| "rtstep (Pre_Cas ptr k s n) m =
     (if rc_count m s = of_nat k_T then Pre_Reload ptr k s else Pre_Cas ptr k s (rc_count m s), m) #
     (if rc_count m s = n then [(if n = of_nat k_T then Pre_Load ptr k else Pre_Put ptr k s n,
        m\<lparr>rc_count := (rc_count m)(s := of_nat k_T)\<rparr>)] else [])"
| "rtstep (Pre_Reload ptr k s) m = [(Pre_Cas ptr k s (rc_count m s), m)]"
| "rtstep (Pre_Put ptr k s n) m = (let r = unat (ucast (of_nat k_T - n) :: u32) in
     if k + r \<le> length ptr
     then [(Pre_Head ptr (k + r), m\<lparr>rc_queue := (rc_queue m)(s := take r (drop k ptr) @ rc_queue m s)\<rparr>)]
     else [])"
| "rtstep (Pre_Head ptr k) m = [(Pre_Load ptr k, m\<lparr>rc_state := rc_state m + head_stride\<rparr>)]"
\<comment> \<open>\<open>_M_try_pop_swap_reversed\<close>\<close>
| "rtstep Pop_Load m = [(Pop_Cas (rc_state m), m)]"
| "rtstep (Pop_Cas u) m = (if fst (convert u) = snd (convert u) then [(Pop_Ret [], m)]
     else (Pop_Cas (rc_state m), m) #
       (if rc_state m = u then [(Pop_Take (tail_cell u), m\<lparr>rc_state := u + tail_stride\<rparr>)] else []))"
| "rtstep (Pop_Take s) m = [(Pop_Reset s (rev (rc_queue m s)), m\<lparr>rc_queue := (rc_queue m)(s := [])\<rparr>)]"
| "rtstep (Pop_Reset s xs) m = [(Pop_Ret xs, m\<lparr>rc_count := (rc_count m)(s := 0)\<rparr>)]"
| "rtstep (Pop_Ret xs) m = [(R_Idle, m\<lparr>rc_in := rc_in m - set xs\<rparr>)]"

text \<open>A thread may push a block that is not inside, prepend distinct such blocks, and try to pop.\<close>

type_synonym ('t, 'b) rsys = "('t \<Rightarrow> 'b rpc) \<times> 'b rcells"

inductive rc_step :: "('t, 'b) rsys \<Rightarrow> ('t, 'b) rsys \<Rightarrow> bool" where
  run: "(p, m') \<in> set (rtstep (T t) m) \<Longrightarrow> rc_step (T, m) (T(t := p), m')"
| push: "T t = R_Idle \<Longrightarrow> b \<notin> rc_in m \<Longrightarrow> rc_step (T, m) (T(t := Push_Load b), m\<lparr>rc_in := insert b (rc_in m)\<rparr>)"
| prepend: "T t = R_Idle \<Longrightarrow> distinct bs \<Longrightarrow> set bs \<inter> rc_in m = {} \<Longrightarrow>
    rc_step (T, m) (T(t := Pre_Load bs 0), m\<lparr>rc_in := set bs \<union> rc_in m\<rparr>)"
| pop: "T t = R_Idle \<Longrightarrow> rc_step (T, m) (T(t := Pop_Load), m)"

inductive rc_reachable :: "('t, 'b) rsys \<Rightarrow> bool" where
  init: "rc_reachable (\<lambda>_. R_Idle, rcells_new)"
| step: "rc_reachable s \<Longrightarrow> rc_step s s' \<Longrightarrow> rc_reachable s'"

section \<open>Where a block is\<close>

fun carried :: "'b rpc \<Rightarrow> 'b list" where
  "carried (Push_Load b) = [b]" | "carried (Push_Count b s) = [b]" | "carried (Push_Cas b s n) = [b]" | "carried (Push_Put b s n) = [b]"
| "carried (Pre_Load ptr k) = drop k ptr" | "carried (Pre_Count ptr k s) = drop k ptr" | "carried (Pre_Cas ptr k s n) = drop k ptr"
| "carried (Pre_Reload ptr k s) = drop k ptr" | "carried (Pre_Put ptr k s n) = drop k ptr" | "carried (Pre_Head ptr k) = drop k ptr"
| "carried (Pop_Reset s xs) = xs" | "carried (Pop_Ret xs) = xs"
| "carried _ = []"

text \<open>The places: a thread (\<open>Inl\<close>) or a cell (\<open>Inr\<close>).\<close>

definition holds_at :: "('t, 'b) rsys \<Rightarrow> 't + u32 \<Rightarrow> 'b list" where
  "holds_at s p = (case p of Inl t \<Rightarrow> carried (fst s t) | Inr c \<Rightarrow> rc_queue (snd s) c)"

definition one_place :: "('p \<Rightarrow> 'b list) \<Rightarrow> 'b set \<Rightarrow> bool" where
  "one_place A S \<longleftrightarrow> (\<forall>p. distinct (A p)) \<and> (\<forall>p q. p \<noteq> q \<longrightarrow> set (A p) \<inter> set (A q) = {}) \<and> S = (\<Union>p. set (A p))"

lemma one_place_move:
  assumes i: "one_place A S" and pq: "p \<noteq> q" and d: "distinct (X @ Y)" and e: "set X \<union> set Y = set (A p) \<union> set (A q)"
  shows "one_place (A(p := X, q := Y)) S"
proof -
  let ?B = "A(p := X, q := Y)"
  have A: "\<And>r r'. r \<noteq> r' \<Longrightarrow> set (A r) \<inter> set (A r') = {}" "S = (\<Union>r. set (A r))" "\<And>r. distinct (A r)"
    using i by (auto simp: one_place_def)
  have sub: "set X \<subseteq> set (A p) \<union> set (A q)" "set Y \<subseteq> set (A p) \<union> set (A q)" using e by auto
  have "set (?B r) \<inter> set (?B r') = {}" if r: "r \<noteq> r'" for r r'
  proof -
    consider "r \<in> {p, q}" "r' \<in> {p, q}" | "r \<in> {p, q}" "r' \<notin> {p, q}" | "r \<notin> {p, q}" "r' \<in> {p, q}" | "r \<notin> {p, q}" "r' \<notin> {p, q}" by blast
    then show ?thesis
    proof cases
      case 1
      then show ?thesis using r pq d by auto
    next
      case 2
      then have "set (?B r) \<subseteq> set (A p) \<union> set (A q)" "?B r' = A r'" using sub pq by auto
      moreover have "set (A p) \<inter> set (A r') = {}" "set (A q) \<inter> set (A r') = {}" using A(1) 2 by blast+
      ultimately show ?thesis by fastforce
    next
      case 3
      then have "set (?B r') \<subseteq> set (A p) \<union> set (A q)" "?B r = A r" using sub pq by auto
      moreover have "set (A r) \<inter> set (A p) = {}" "set (A r) \<inter> set (A q) = {}" using A(1) 3 by blast+
      ultimately show ?thesis by fastforce
    next
      case 4
      then show ?thesis using A(1) [OF r] by auto
    qed
  qed
  moreover have "distinct (?B r)" for r using A(3) d by auto
  moreover have "S = (\<Union>r. set (?B r))"
  proof -
    have "(\<Union>r. set (?B r)) = (\<Union>r \<in> - {p, q}. set (A r)) \<union> (set X \<union> set Y)" using pq by (auto split: if_splits)
    also have "\<dots> = (\<Union>r. set (A r))" unfolding e by auto
    finally show ?thesis using A(2) by simp
  qed
  ultimately show ?thesis by (simp add: one_place_def)
qed

lemma one_place_set:
  assumes i: "one_place A S" and d: "distinct X" and o: "\<And>q. q \<noteq> p \<Longrightarrow> set X \<inter> set (A q) = {}"
  shows "one_place (A(p := X)) (S - set (A p) \<union> set X)"
proof -
  have A: "\<And>r r'. r \<noteq> r' \<Longrightarrow> set (A r) \<inter> set (A r') = {}" "S = (\<Union>r. set (A r))" "\<And>r. distinct (A r)"
    using i by (auto simp: one_place_def)
  have "set ((A(p := X)) r) \<inter> set ((A(p := X)) r') = {}" if "r \<noteq> r'" for r r'
    using that A(1) [OF that] o [of r] o [of r'] by (cases "r = p"; cases "r' = p") auto
  moreover have "S - set (A p) \<union> set X = (\<Union>r. set ((A(p := X)) r))"
  proof -
    have "(\<Union>r. set ((A(p := X)) r)) = (\<Union>r \<in> - {p}. set (A r)) \<union> set X" by (auto split: if_splits)
    moreover have "S - set (A p) = (\<Union>r \<in> - {p}. set (A r))" using A(1) unfolding A(2) by blast
    ultimately show ?thesis by simp
  qed
  ultimately show ?thesis using A(3) d by (simp add: one_place_def)
qed

definition rc_inv :: "('t, 'b) rsys \<Rightarrow> bool" where
  "rc_inv s \<longleftrightarrow> one_place (holds_at s) (rc_in (snd s))"

lemma holds_at_upd:
  "holds_at (T(t := p), m) = (holds_at (T, m))(Inl t := carried p)"
  "holds_at (T, m\<lparr>rc_queue := (rc_queue m)(c := xs)\<rparr>) = (holds_at (T, m))(Inr c := xs)"
  "holds_at (T, m\<lparr>rc_count := f\<rparr>) = holds_at (T, m)" "holds_at (T, m\<lparr>rc_state := u\<rparr>) = holds_at (T, m)"
  "holds_at (T, m\<lparr>rc_in := S\<rparr>) = holds_at (T, m)"
  by (auto simp: holds_at_def fun_eq_iff split: sum.splits)

lemma holds_at_sel: "holds_at (T, m) (Inl t) = carried (T t)" "holds_at (T, m) (Inr c) = rc_queue m c"
  by (simp_all add: holds_at_def)

lemma rc_quiet:
  "rc_inv (T, m) \<Longrightarrow> carried p = carried (T t) \<Longrightarrow> rc_queue m' = rc_queue m \<Longrightarrow> rc_in m' = rc_in m \<Longrightarrow> rc_inv (T(t := p), m')"
proof -
  assume a: "rc_inv (T, m)" "carried p = carried (T t)" "rc_queue m' = rc_queue m" "rc_in m' = rc_in m"
  have "holds_at (T(t := p), m') = holds_at (T, m)" using a(2,3) by (auto simp: holds_at_def fun_eq_iff split: sum.splits)
  then show ?thesis using a by (simp add: rc_inv_def)
qed

lemma rtstep_quiet:
  assumes "(p, m') \<in> set (rtstep q m)" "\<And>b s n. q \<noteq> Push_Put b s n" "\<And>ptr k s n. q \<noteq> Pre_Put ptr k s n"
    "\<And>s. q \<noteq> Pop_Take s" "\<And>xs. q \<noteq> Pop_Ret xs"
  shows "carried p = carried q \<and> rc_queue m' = rc_queue m \<and> rc_in m' = rc_in m"
  using assms by (cases q) (auto split: if_splits)

lemma rc_run:
  assumes i: "rc_inv (T, m)" and s: "(p, m') \<in> set (rtstep (T t) m)"
  shows "rc_inv (T(t := p), m')"
proof -
  have o: "one_place (holds_at (T, m)) (rc_in m)" using i by (simp add: rc_inv_def)
  then have dis: "distinct (carried (T t))" "distinct (rc_queue m c)" "set (carried (T t)) \<inter> set (rc_queue m c) = {}" for c
    unfolding one_place_def holds_at_def by (auto split: sum.splits)
  consider (put) b c n where "T t = Push_Put b c n" | (pre) ptr k c n where "T t = Pre_Put ptr k c n" | (take) c where "T t = Pop_Take c"
    | (ret) xs where "T t = Pop_Ret xs"
    | (other) "\<And>b s n. T t \<noteq> Push_Put b s n" "\<And>ptr k s n. T t \<noteq> Pre_Put ptr k s n" "\<And>s. T t \<noteq> Pop_Take s" "\<And>xs. T t \<noteq> Pop_Ret xs"
    by blast
  then show ?thesis
  proof cases
    case put
    have "one_place ((holds_at (T, m))(Inl t := [], Inr c := b # rc_queue m c)) (rc_in m)"
      by (rule one_place_move [OF o]) (use dis(1) dis(2,3) [of c] put in \<open>auto simp: holds_at_sel\<close>)
    then show ?thesis using s put by (auto simp: rc_inv_def holds_at_upd)
  next
    case pre
    let ?r = "unat (ucast (of_nat k_T - n) :: u32)"
    let ?xs = "take ?r (drop k ptr)"
    have k: "k + ?r \<le> length ptr" "p = Pre_Head ptr (k + ?r)" "m' = m\<lparr>rc_queue := (rc_queue m)(c := ?xs @ rc_queue m c)\<rparr>"
      using s pre by (simp_all add: Let_def split: if_splits)
    have app: "drop k ptr = ?xs @ drop (k + ?r) ptr" by (metis append_take_drop_id drop_drop add.commute)
    have "distinct (drop (k + ?r) ptr @ ?xs @ rc_queue m c)" "set (drop (k + ?r) ptr) \<union> set (?xs @ rc_queue m c) = set (drop k ptr) \<union> set (rc_queue m c)"
      using dis(1) dis(2,3) [of c] pre arg_cong [OF app, of distinct] arg_cong [OF app, of set] by (auto simp del: drop_drop)
    then have "one_place ((holds_at (T, m))(Inl t := drop (k + ?r) ptr, Inr c := ?xs @ rc_queue m c)) (rc_in m)"
      by (intro one_place_move [OF o]) (use pre in \<open>simp_all add: holds_at_sel\<close>)
    then show ?thesis unfolding k(2,3) by (simp add: rc_inv_def holds_at_upd)
  next
    case take
    have "one_place ((holds_at (T, m))(Inl t := rev (rc_queue m c), Inr c := [])) (rc_in m)"
      by (rule one_place_move [OF o]) (use dis(1) dis(2,3) [of c] take in \<open>auto simp: holds_at_sel\<close>)
    then show ?thesis using s take by (auto simp: rc_inv_def holds_at_upd)
  next
    case ret
    have "one_place ((holds_at (T, m))(Inl t := [])) (rc_in m - set (carried (T t)) \<union> set [])"
      using one_place_set [OF o, of "[]" "Inl t"] by (simp add: holds_at_sel)
    then show ?thesis using s ret by (auto simp: rc_inv_def holds_at_upd)
  next
    case other
    from rtstep_quiet [OF s other] rc_quiet [OF i] show ?thesis by blast
  qed
qed

lemma rc_enter:
  assumes i: "rc_inv (T, m)" and "T t = R_Idle" "distinct (carried p)" "set (carried p) \<inter> rc_in m = {}"
  shows "rc_inv (T(t := p), m\<lparr>rc_in := set (carried p) \<union> rc_in m\<rparr>)"
proof -
  have o: "one_place (holds_at (T, m)) (rc_in m)" using i by (simp add: rc_inv_def)
  then have "set (carried p) \<inter> set (holds_at (T, m) q) = {}" for q using assms(4) unfolding one_place_def by blast
  from one_place_set [OF o assms(3) this, of "Inl t"] show ?thesis
    using assms(2) by (simp add: rc_inv_def holds_at_upd holds_at_sel Un_commute)
qed

lemma rc_inv_reachable: "rc_reachable s \<Longrightarrow> rc_inv s"
proof (induction rule: rc_reachable.induct)
  case init
  then show ?case by (simp add: rc_inv_def one_place_def holds_at_def rcells_new_def split: sum.splits)
next
  case (step s s')
  from step(2,3) show ?case
  proof (induction rule: rc_step.induct)
    case (run p m' T t m)
    then show ?case by (intro rc_run)
  next
    case (push T t b m)
    then show ?case using rc_enter [of T m t "Push_Load b"] by simp
  next
    case (prepend T t bs m)
    then show ?case using rc_enter [of T m t "Pre_Load bs 0"] by simp
  next
    case (pop T t m)
    then show ?case using rc_enter [of T m t Pop_Load] by simp
  qed
qed

section \<open>Schedules\<close>

datatype ('t, 'b) rccmd = RC_Run 't nat | RC_Push 't 'b | RC_Pop 't

fun rc_move :: "('t, 'b) rccmd \<Rightarrow> ('t, 'b) rsys \<Rightarrow> ('t, 'b) rsys option" where
  "rc_move (RC_Run t i) (T, m) = (let ps = rtstep (T t) m in if i < length ps then Some (T(t := fst (ps ! i)), snd (ps ! i)) else None)"
| "rc_move (RC_Push t b) (T, m) = (case T t of
     R_Idle \<Rightarrow> if b \<in> rc_in m then None else Some (T(t := Push_Load b), m\<lparr>rc_in := insert b (rc_in m)\<rparr>) | _ \<Rightarrow> None)"
| "rc_move (RC_Pop t) (T, m) = (case T t of R_Idle \<Rightarrow> Some (T(t := Pop_Load), m) | _ \<Rightarrow> None)"

fun rc_exec :: "('t, 'b) rccmd list \<Rightarrow> ('t, 'b) rsys \<Rightarrow> ('t, 'b) rsys option" where
  "rc_exec [] s = Some s"
| "rc_exec (x # xs) s = Option.bind (rc_move x s) (rc_exec xs)"

lemma rc_move_step: "rc_move x (T, m) = Some s' \<Longrightarrow> rc_step (T, m) s'"
proof (cases x)
  case (RC_Run t i)
  assume "rc_move x (T, m) = Some s'"
  then have i: "i < length (rtstep (T t) m)" and s': "s' = (T(t := fst (rtstep (T t) m ! i)), snd (rtstep (T t) m ! i))"
    using RC_Run by (simp_all add: Let_def split: if_splits)
  from nth_mem [OF i] show ?thesis unfolding s' by (intro rc_step.run) simp
next
  case (RC_Push t b)
  assume "rc_move x (T, m) = Some s'"
  then show ?thesis using RC_Push rc_step.push [of T t b m] by (auto split: rpc.splits if_splits)
next
  case (RC_Pop t)
  assume "rc_move x (T, m) = Some s'"
  then show ?thesis using RC_Pop rc_step.pop [of T t m] by (auto split: rpc.splits)
qed

lemma rc_exec_reachable: "rc_exec xs s = Some s' \<Longrightarrow> rc_reachable s \<Longrightarrow> rc_reachable s'"
proof (induction xs arbitrary: s)
  case (Cons x xs)
  then obtain s1 where "rc_move x s = Some s1" "rc_exec xs s1 = Some s'" by (auto simp: Option.bind_eq_Some_conv)
  then show ?case using Cons.IH Cons.prems(2) rc_reachable.step rc_move_step by (cases s) blast
qed simp

text \<open>
  One thread is counted as the first of a batch and delayed before it links its block; another counts as the remaining ones,
  publishes the batch and pops it.
\<close>

definition demo_race :: "(bool, nat) rccmd list" where
  "demo_race = [RC_Push False 0, RC_Run False 0, RC_Run False 0, RC_Run False 1]
     @ concat (map (\<lambda>b. [RC_Push True b, RC_Run True 0, RC_Run True 0, RC_Run True 1, RC_Run True 0]) [1..<16])
     @ [RC_Run True 0, RC_Pop True, RC_Run True 0, RC_Run True 1, RC_Run True 0, RC_Run True 0]"

definition rc_exec_of :: "('t, 'b) rccmd list \<Rightarrow> (('t, 'b) rsys \<Rightarrow> bool) \<Rightarrow> bool" where
  "rc_exec_of xs P = (case rc_exec xs (\<lambda>_. R_Idle, rcells_new) of None \<Rightarrow> False | Some s \<Rightarrow> P s)"

lemma rc_exec_ofD:
  assumes "rc_exec_of xs P"
  shows "\<exists>T m. rc_reachable (T, m) \<and> P (T, m)"
  using assms rc_exec_reachable [OF _ rc_reachable.init] by (fastforce simp: rc_exec_of_def split: option.splits)

lemma demo_race_run: "rc_exec_of demo_race (\<lambda>(T, m). T False = Push_Put 0 0 1 \<and> T True = Pop_Ret [1..<16] \<and> rc_count m 0 = 0)"
  by code_simp

text \<open>A batch is not always of \<open>__T_\<close> blocks: the delayed block is linked into the cell after the cell has been emptied and reset.\<close>

lemma remote_batch_short:
  "\<exists>T m. rc_reachable (T :: bool \<Rightarrow> nat rpc, m) \<and> T True = Pop_Ret [1..<16] \<and> rc_count m 0 = 0
    \<and> (\<exists>m'. rtstep (T False) m = [(R_Idle, m')] \<and> rc_queue m' 0 = 0 # rc_queue m 0 \<and> rc_count m' 0 = 0)"
proof -
  from rc_exec_ofD [OF demo_race_run] obtain T m where
    "rc_reachable (T, m)" "T False = Push_Put 0 0 1" "T True = Pop_Ret [1..<16]" "rc_count m 0 = 0" by auto
  then show ?thesis by (intro exI [of _ T] exI [of _ m]) (simp add: k_T_def)
qed

section \<open>Properties\<close>



end
