(* ===== verification/Local_Source.thy ===== *)
theory Local_Source
  imports Remote_Source
begin

text \<open>
  \<open>__memrc::__local_source\<close> of \<open>__memory_resource.hpp\<close>: each thread cuts byte ranges out of a block of 4096 bytes
  that it fills from left to right (\<open>__bump_\<close>); a block counts the ranges into it and the thread that fills it
  (\<open>__use_count_\<close>) and goes back to a local queue, or from there to the remote source, when nobody uses it.
  The state is one thread's source with the blocks and the remote source it works on; \<open>mm\<close> is as in
  \<open>Remote_Source\<close>.
\<close>

section \<open>State\<close>

record subrange =
  sr_source :: u64
  sr_offset :: u32
  sr_len :: u32

record local =
  l_remote :: remote
  use_count :: "u64 \<Rightarrow> int"
  l_queue :: "u64 iqueue"
  l_consume :: "u64 ptr"
  l_bump :: u32
  l_count :: u32

definition local_new :: "remote \<Rightarrow> local" where
  "local_new r = \<lparr>l_remote = r, use_count = (\<lambda>_. 0), l_queue = iq_new, l_consume = nullptr, l_bump = 4096, l_count = 0\<rparr>"

section \<open>Operations\<close>

definition use_add :: "u64 \<Rightarrow> int \<Rightarrow> local \<Rightarrow> local" where
  "use_add b d m = m\<lparr>use_count := (use_count m)(b := use_count m b + d)\<rparr>"

definition set_next :: "u64 nexts \<Rightarrow> local \<Rightarrow> local" where
  "set_next nx m = m\<lparr>l_remote := (l_remote m)\<lparr>rm_next := nx\<rparr>\<rparr>"

definition local_release :: "u64 \<Rightarrow> local \<Rightarrow> local ub" where
  "local_release b m =
     (if l_count m < of_nat k_T then do {
        (nx, q) \<leftarrow> iq_push_front (rm_next (l_remote m)) (Some b) (l_queue m);
        Some (set_next nx (m\<lparr>l_queue := q, l_count := l_count m + 1\<rparr>))
      } else do {
        r \<leftarrow> remote_push b (l_remote m);
        Some (m\<lparr>l_remote := r\<rparr>)
      })"

definition local_allocate :: "(nat \<Rightarrow> u64 ptr) \<Rightarrow> local \<Rightarrow> local ub" where
  "local_allocate mm m = do {
     m1 \<leftarrow> (case l_consume m of
         None \<Rightarrow> Some m
       | Some c \<Rightarrow> if use_count m c = 1 then local_release c (use_add c (- 1) m) else Some (use_add c (- 1) m));
     m2 \<leftarrow> (if iq_empty (l_queue m1) then do {
         (other, r) \<leftarrow> remote_pop mm (unat (rm_n (l_remote m1))) 0 (l_remote m1);
         (nx, q) \<leftarrow> iq_prepend (rm_next r) (l_queue m1) other;
         Some (set_next nx (m1\<lparr>l_remote := r, l_queue := q, l_count := l_count m1 + of_nat k_T\<rparr>))
       } else Some m1);
     (p, q) \<leftarrow> iq_pop_front (rm_next (l_remote m2)) (l_queue m2);
     c \<leftarrow> deref p;
     Some (use_add c 1 (m2\<lparr>l_queue := q, l_consume := Some c, l_bump := 0, l_count := l_count m2 - 1\<rparr>))
   }"

definition local_acquire :: "(nat \<Rightarrow> u64 ptr) \<Rightarrow> u32 \<Rightarrow> local \<Rightarrow> (subrange \<times> local) ub" where
  "local_acquire mm n m = do {
     m1 \<leftarrow> (if 4096 - l_bump m < n then local_allocate mm m else Some m);
     c \<leftarrow> deref (l_consume m1);
     Some (\<lparr>sr_source = c, sr_offset = l_bump m1, sr_len = n\<rparr>, use_add c 1 (m1\<lparr>l_bump := l_bump m1 + n\<rparr>))
   }"

definition release :: "subrange \<Rightarrow> local \<Rightarrow> local ub" where
  "release x m =
     (if use_count m (sr_source x) = 1 then local_release (sr_source x) (use_add (sr_source x) (- 1) m)
      else Some (use_add (sr_source x) (- 1) m))"

definition splice_prefix :: "u32 \<Rightarrow> subrange \<Rightarrow> local \<Rightarrow> subrange \<times> subrange \<times> local" where
  "splice_prefix n x m =
     (\<lparr>sr_source = sr_source x, sr_offset = sr_offset x, sr_len = n\<rparr>, x\<lparr>sr_offset := sr_offset x + n\<rparr>, use_add (sr_source x) 1 m)"

definition bump_suffix :: "local \<Rightarrow> u32" where
  "bump_suffix m = 4096 - l_bump m"

definition sr_base :: "subrange \<Rightarrow> u64" where
  "sr_base x = sr_source x + 64 + ucast (sr_offset x)"

definition sr_iovec :: "subrange \<Rightarrow> u64 \<times> u64" where
  "sr_iovec x = (sr_base x, ucast (sr_len x))"

definition local_destroy :: "local \<Rightarrow> local" where
  "local_destroy m = (let m1 = (case l_consume m of None \<Rightarrow> m | Some c \<Rightarrow> use_add c (- 1) m)
     in m1\<lparr>l_queue := iq_clear (l_queue m1)\<rparr>)"

section \<open>Invariant\<close>

text \<open>\<open>S\<close> is the set of live ranges, \<open>qs\<close> the local queue, \<open>bs\<close> and \<open>cur\<close> the content of the remote source.\<close>

definition sr_end :: "subrange \<Rightarrow> nat" where
  "sr_end x = unat (sr_offset x) + unat (sr_len x)"

definition apart :: "subrange \<Rightarrow> subrange \<Rightarrow> bool" where
  "apart x y \<longleftrightarrow> sr_source x \<noteq> sr_source y \<or> sr_end x \<le> unat (sr_offset y) \<or> sr_end y \<le> unat (sr_offset x)"

definition users :: "u64 ptr \<Rightarrow> subrange set \<Rightarrow> u64 \<Rightarrow> nat" where
  "users c S b = card {x \<in> S. sr_source x = b} + (if c = Some b then 1 else 0)"

definition ranges_ok :: "u64 ptr \<Rightarrow> u32 \<Rightarrow> subrange set \<Rightarrow> bool" where
  "ranges_ok c bump S \<longleftrightarrow> finite S \<and> unat bump \<le> 4096 \<and> (c = nullptr \<longrightarrow> bump = 4096) \<and> (\<forall>x \<in> S. \<forall>y \<in> S. x \<noteq> y \<longrightarrow> apart x y)
     \<and> (\<forall>x \<in> S. sr_len x \<noteq> 0 \<and> sr_end x \<le> 4096 \<and> (c = Some (sr_source x) \<longrightarrow> sr_end x \<le> unat bump))"

definition pool_ok :: "local \<Rightarrow> u64 list \<Rightarrow> u64 list list \<Rightarrow> u64 list \<Rightarrow> bool" where
  "pool_ok m qs bs cur \<longleftrightarrow> iq_repr (rm_next (l_remote m)) (l_queue m) qs \<and> l_count m = of_nat (length qs) \<and> length qs \<le> 16
     \<and> remote_repr (l_remote m) bs cur \<and> distinct (qs @ concat bs @ cur)"

definition local_inv :: "local \<Rightarrow> u64 list \<Rightarrow> u64 list list \<Rightarrow> u64 list \<Rightarrow> subrange set \<Rightarrow> bool" where
  "local_inv m qs bs cur S \<longleftrightarrow> pool_ok m qs bs cur \<and> ranges_ok (l_consume m) (l_bump m) S
     \<and> (\<forall>b. use_count m b = int (users (l_consume m) S b)) \<and> (\<forall>b \<in> set (qs @ concat bs @ cur). users (l_consume m) S b = 0)"

text \<open>The remote source can take a block back.\<close>

definition has_room :: "local \<Rightarrow> u64 list list \<Rightarrow> bool" where
  "has_room m bs \<longleftrightarrow> length bs < 64 \<and> fst (convert (rm_state (l_remote m))) \<noteq> - 1"

lemma pool_okD:
  "pool_ok m qs bs cur \<Longrightarrow> iq_repr (rm_next (l_remote m)) (l_queue m) qs" "pool_ok m qs bs cur \<Longrightarrow> l_count m = of_nat (length qs)"
  "pool_ok m qs bs cur \<Longrightarrow> length qs \<le> 16" "pool_ok m qs bs cur \<Longrightarrow> remote_repr (l_remote m) bs cur"
  "pool_ok m qs bs cur \<Longrightarrow> distinct (qs @ concat bs @ cur)"
  by (simp_all add: pool_ok_def)

text \<open>A block nobody uses goes to the local queue or to the remote source.\<close>

lemma local_release_ok:
  assumes p: "pool_ok m qs bs cur" and b: "b \<notin> set (qs @ concat bs @ cur)" and room: "has_room m bs"
  shows "\<exists>m' qs' bs' cur'. local_release b m = Some m' \<and> pool_ok m' qs' bs' cur'
    \<and> mset (qs' @ concat bs' @ cur') = add_mset b (mset (qs @ concat bs @ cur)) \<and> use_count m' = use_count m
    \<and> l_consume m' = l_consume m \<and> l_bump m' = l_bump m \<and> (length qs < 16 \<longrightarrow> qs' = b # qs \<and> bs' = bs \<and> cur' = cur)"
proof (cases "length qs < 16")
  case True
  then have c: "l_count m < of_nat k_T" using pool_okD(2) [OF p] by (simp add: k_T_def word_less_nat_alt unat_of_nat)
  have "b \<notin> set qs" using b by simp
  from iq_push_front_refines [OF pool_okD(1) [OF p] this] obtain nx q where
    q: "iq_push_front (rm_next (l_remote m)) (Some b) (l_queue m) = Some (nx, q)" "iq_repr nx q (b # qs)"
    "same_off {b} (rm_next (l_remote m)) nx" by blast
  let ?m = "set_next nx (m\<lparr>l_queue := q, l_count := l_count m + 1\<rparr>)"
  have "remote_repr (l_remote ?m) bs cur"
    by (rule remote_repr_cong [OF pool_okD(4) [OF p]]) (use q(3) b in \<open>auto simp: set_next_def same_off_def\<close>)
  then have "pool_ok ?m (b # qs) bs cur" using p b True q(2) by (simp add: pool_ok_def set_next_def)
  moreover have "local_release b m = Some ?m" using c q(1) by (simp add: local_release_def)
  ultimately show ?thesis
    by (intro exI [of _ ?m] exI [of _ "b # qs"] exI [of _ bs] exI [of _ cur]) (simp add: set_next_def)
next
  case False
  then have c: "\<not> l_count m < of_nat k_T" using pool_okD(2,3) [OF p] by (simp add: k_T_def)
  have "b \<notin> set (concat bs @ cur)" using b by simp
  from remote_push_refines [OF pool_okD(4) [OF p] this] room obtain r where
    r: "remote_push b (l_remote m) = Some r" "if length cur + 1 < 16 then remote_repr r bs (cur @ [b]) else remote_repr r (bs @ [cur @ [b]]) []"
    by (auto simp: has_room_def)
  let ?m = "m\<lparr>l_remote := r\<rparr>"
  have "iq_repr (rm_next r) (l_queue m) qs"
    using same_off_repr [OF remote_push_next [OF r(1)], of qs "l_queue m"] pool_okD(1) [OF p] b by simp
  moreover define bs' cur' where "bs' = (if length cur + 1 < 16 then bs else bs @ [cur @ [b]])"
    "cur' = (if length cur + 1 < 16 then cur @ [b] else [])"
  moreover have rr: "remote_repr r bs' cur'" using r(2) calculation by (auto split: if_splits)
  moreover have ms: "mset (qs @ concat bs' @ cur') = add_mset b (mset (qs @ concat bs @ cur))" using calculation by simp
  moreover have "distinct (qs @ concat bs' @ cur')"
  proof -
    have "distinct (b # qs @ concat bs @ cur)" using pool_okD(5) [OF p] b by simp
    then show ?thesis using ms by (metis mset.simps(2) mset_eq_imp_distinct_iff)
  qed
  moreover have "local_release b m = Some ?m" using c r(1) by (simp add: local_release_def)
  ultimately show ?thesis using p False
    by (intro exI [of _ ?m] exI [of _ qs] exI [of _ bs'] exI [of _ cur']) (simp add: pool_ok_def)
qed

section \<open>Taking a block\<close>

text \<open>The remote source can hand out a batch: a full one, or a new mapping that overlaps no block in use.\<close>

definition supplied :: "(nat \<Rightarrow> u64 ptr) \<Rightarrow> local \<Rightarrow> u64 list list \<Rightarrow> u64 list \<Rightarrow> bool" where
  "supplied mm m bs cur \<longleftrightarrow> bs \<noteq> [] \<or> (cur = [] \<and> unat (rm_n (l_remote m)) < 16 \<and> unat (fst (convert (rm_state (l_remote m)))) + 4 < 2 ^ 32
     \<and> (\<exists>p. mm (unat (rm_n (l_remote m))) = Some p \<and> (\<forall>b \<in> set (blocks_of p). use_count m b = 0)))"

text \<open>The blocks of the pool have no user; \<open>c\<close> is the block whose filler still counts.\<close>

definition counts_ok :: "local \<Rightarrow> u64 ptr \<Rightarrow> u64 list \<Rightarrow> u64 list list \<Rightarrow> u64 list \<Rightarrow> subrange set \<Rightarrow> bool" where
  "counts_ok m c qs bs cur S \<longleftrightarrow> (\<forall>b. use_count m b = int (users c S b)) \<and> (\<forall>b \<in> set (qs @ concat bs @ cur). users c S b = 0)"

lemma local_inv_eq: "local_inv m qs bs cur S \<longleftrightarrow>
    pool_ok m qs bs cur \<and> ranges_ok (l_consume m) (l_bump m) S \<and> counts_ok m (l_consume m) qs bs cur S"
  by (auto simp: local_inv_def counts_ok_def)

lemma counts_ok_mset:
  "counts_ok m c qs bs cur S \<Longrightarrow> use_count m' = use_count m \<Longrightarrow> set (qs' @ concat bs' @ cur') \<subseteq> {b. users c S b = 0} \<Longrightarrow>
   counts_ok m' c qs' bs' cur' S"
  by (auto simp: counts_ok_def)

lemma pool_ok_use [simp]: "pool_ok (use_add b d m) qs bs cur = pool_ok m qs bs cur"
  by (simp add: pool_ok_def use_add_def)

lemma drop_filler:
  assumes inv: "local_inv m qs bs cur S" and room: "has_room m bs"
  defines "m1 \<equiv> (case l_consume m of None \<Rightarrow> Some m
       | Some c \<Rightarrow> if use_count m c = 1 then local_release c (use_add c (- 1) m) else Some (use_add c (- 1) m))"
  shows "\<exists>m' qs' bs' cur'. m1 = Some m' \<and> pool_ok m' qs' bs' cur' \<and> counts_ok m' nullptr qs' bs' cur' S
    \<and> (qs' = [] \<longrightarrow> bs' = bs \<and> cur' = cur \<and> l_remote m' = l_remote m) \<and> (qs' = [] \<longrightarrow> qs = [])"
proof (cases "l_consume m")
  case None
  with inv show ?thesis by (auto simp: m1_def local_inv_eq)
next
  case (Some c)
  note p = inv [unfolded local_inv_eq, THEN conjunct1]
  have u: "use_count m b = int (users (Some c) S b)" for b using inv Some by (simp add: local_inv_def)
  have fr: "users (Some c) S b = 0" if "b \<in> set (qs @ concat bs @ cur)" for b using inv Some that by (simp add: local_inv_def)
  have cu: "users (Some c) S c = Suc (users nullptr S c)" by (simp add: users_def)
  have other: "users (Some c) S b = users nullptr S b" if "b \<noteq> c" for b using that by (simp add: users_def)
  have n1: "use_count (use_add c (- 1) m) b = int (users nullptr S b)" for b
    using u [of b] cu other [of b] by (cases "b = c") (simp_all add: use_add_def)
  have cn: "c \<notin> set (qs @ concat bs @ cur)" using fr [of c] cu by auto
  have fr1: "users nullptr S b = 0" if "b \<in> set (qs @ concat bs @ cur)" for b
    using fr [OF that] other [of b] that cn by (cases "b = c") auto
  show ?thesis
  proof (cases "use_count m c = 1")
    case False
    have "pool_ok (use_add c (- 1) m) qs bs cur" "counts_ok (use_add c (- 1) m) nullptr qs bs cur S"
      "l_remote (use_add c (- 1) m) = l_remote m" using p n1 fr1 by (simp_all add: counts_ok_def) (simp add: use_add_def)
    with Some False show ?thesis
      by (intro exI [of _ "use_add c (- 1) m"] exI [of _ qs] exI [of _ bs] exI [of _ cur]) (simp add: m1_def)
  next
    case True
    have p1: "pool_ok (use_add c (- 1) m) qs bs cur" using p by simp
    have "has_room (use_add c (- 1) m) bs" using room by (simp add: has_room_def use_add_def)
    from local_release_ok [OF p1 cn this] obtain m' qs' bs' cur' where
      r: "local_release c (use_add c (- 1) m) = Some m'" "pool_ok m' qs' bs' cur'"
      "mset (qs' @ concat bs' @ cur') = add_mset c (mset (qs @ concat bs @ cur))" "use_count m' = use_count (use_add c (- 1) m)"
      "length qs < 16 \<longrightarrow> qs' = c # qs" by blast
    have set: "set (qs' @ concat bs' @ cur') = insert c (set (qs @ concat bs @ cur))"
      using arg_cong [OF r(3), of set_mset] by simp
    have "users nullptr S c = 0" using u [of c] cu True by simp
    then have "counts_ok m' nullptr qs' bs' cur' S" using n1 fr1 r(4) set by (auto simp: counts_ok_def)
    moreover have "qs' \<noteq> []"
    proof (cases "length qs < 16")
      case False
      then have "l_count (use_add c (- 1) m) = 16" "length qs = 16" using pool_okD(2,3) [OF p1] by simp_all
      then have "l_queue m' = l_queue m \<and> l_count m' = 16"
        using r(1) by (auto simp: local_release_def k_T_def use_add_def bind_eq_Some_conv)
      then show ?thesis using pool_okD(2) [OF r(2)] by auto
    qed (use r(5) in simp)
    ultimately show ?thesis using Some True r(1,2) by (auto simp: m1_def)
  qed
qed

lemma remote_pop_ok:
  assumes r: "remote_repr (l_remote m) bs cur" and s: "supplied mm m bs cur" and c: "counts_ok m nullptr [] bs cur S"
  shows "\<exists>q r x bs'. remote_pop mm (unat (rm_n (l_remote m))) 0 (l_remote m) = Some (q, r) \<and> iq_repr (rm_next r) q x
    \<and> length x = 16 \<and> remote_repr r bs' cur \<and> distinct (x @ concat bs' @ cur) \<and> (\<forall>b \<in> set (x @ concat bs' @ cur). users nullptr S b = 0)"
proof (cases bs)
  case (Cons b bs')
  have "batches_ok (b # bs') cur" using r Cons by (simp add: remote_repr_def)
  then have "length b = 16" "distinct (b @ concat bs' @ cur)" by (simp_all add: batches_ok_def)
  moreover have "\<forall>a \<in> set (b @ concat bs' @ cur). users nullptr S a = 0" using c Cons by (auto simp: counts_ok_def)
  ultimately show ?thesis using remote_pop_batch [OF r [unfolded Cons]] by blast
next
  case Nil
  with s obtain p where p: "cur = []" "unat (rm_n (l_remote m)) < 16" "unat (fst (convert (rm_state (l_remote m)))) + 4 < 2 ^ 32"
    "mm (unat (rm_n (l_remote m))) = Some p" "\<forall>b \<in> set (blocks_of p). use_count m b = 0" by (auto simp: supplied_def)
  have r0: "remote_repr (l_remote m) [] []" using r Nil p(1) by simp
  from remote_pop_new_mapping [of "l_remote m" mm "unat (rm_n (l_remote m))" p 0, OF r0 p(2,3,4)] obtain q r1 x bs1 where
    a: "remote_pop mm (unat (rm_n (l_remote m))) 0 (l_remote m) = Some (q, r1)" "iq_repr (rm_next r1) q x" "length x = 16"
    "remote_repr r1 bs1 []" "mset (x @ concat bs1) = mset (blocks_of p)" "distinct (x @ concat bs1)" by auto
  have "set (x @ concat bs1) = set (blocks_of p)" using a(5) mset_eq_setD by blast
  then have "\<forall>b \<in> set (x @ concat bs1 @ cur). users nullptr S b = 0" using p(1,5) c by (auto simp: counts_ok_def)
  with a p(1) show ?thesis by auto
qed

lemma refill_ok:
  assumes p: "pool_ok m qs bs cur" and c: "counts_ok m nullptr qs bs cur S" and s: "qs = [] \<Longrightarrow> supplied mm m bs cur"
  defines "m2 \<equiv> (if iq_empty (l_queue m) then do {
         (other, r) \<leftarrow> remote_pop mm (unat (rm_n (l_remote m))) 0 (l_remote m);
         (nx, q) \<leftarrow> iq_prepend (rm_next r) (l_queue m) other;
         Some (set_next nx (m\<lparr>l_remote := r, l_queue := q, l_count := l_count m + of_nat k_T\<rparr>))
       } else Some m)"
  shows "\<exists>m' qs' bs' cur'. m2 = Some m' \<and> pool_ok m' qs' bs' cur' \<and> counts_ok m' nullptr qs' bs' cur' S \<and> qs' \<noteq> []"
proof (cases "qs = []")
  case False
  then have "\<not> iq_empty (l_queue m)" using iq_repr_empty [OF pool_okD(1) [OF p]] by simp
  with False p c show ?thesis by (auto simp: m2_def)
next
  case True
  then have e: "iq_empty (l_queue m)" and q0: "iq_repr nx (l_queue m) []" for nx
    using pool_okD(1) [OF p] by (auto simp: iq_empty_def iq_repr_def)
  from remote_pop_ok [OF pool_okD(4) [OF p] s [OF True], of S] c True obtain q r x bs' where
    r: "remote_pop mm (unat (rm_n (l_remote m))) 0 (l_remote m) = Some (q, r)" "iq_repr (rm_next r) q x" "length x = 16"
    "remote_repr r bs' cur" "distinct (x @ concat bs' @ cur)" "\<forall>b \<in> set (x @ concat bs' @ cur). users nullptr S b = 0" by blast
  have q2: "lseg (rm_next r) (iq_head q) x nullptr" "iq_tail q = last_ptr x" "distinct x" using r(2,5) by (auto simp: iq_repr_def)
  from iq_prepend_refines [OF q0 [of "rm_next r"] q2(1,2) _ q2(3)] obtain nx q' where
    pp: "iq_prepend (rm_next r) (l_queue m) q = Some (nx, q')" "iq_repr nx q' x" "same_off (set x) (rm_next r) nx" by auto
  let ?m = "set_next nx (m\<lparr>l_remote := r, l_queue := q', l_count := l_count m + of_nat k_T\<rparr>)"
  have "remote_repr (l_remote ?m) bs' cur"
    by (rule remote_repr_cong [OF r(4)]) (use pp(3) r(5) in \<open>auto simp: set_next_def same_off_def\<close>)
  moreover have "l_count ?m = of_nat (length x)" using pool_okD(2) [OF p] True r(3) by (simp add: set_next_def k_T_def)
  ultimately have "pool_ok ?m x bs' cur" using pp(2) r(3,5) by (simp add: pool_ok_def set_next_def)
  moreover have "counts_ok ?m nullptr x bs' cur S" using c r(6) by (simp add: counts_ok_def set_next_def)
  moreover have "x \<noteq> []" using r(3) by auto
  ultimately show ?thesis using e r(1) pp(1) by (auto simp: m2_def)
qed

lemma local_allocate_ok:
  assumes inv: "local_inv m qs bs cur S" and room: "has_room m bs" and sup: "qs = [] \<longrightarrow> supplied mm m bs cur"
  shows "\<exists>m' qs' bs' cur'. local_allocate mm m = Some m' \<and> local_inv m' qs' bs' cur' S \<and> l_bump m' = 0"
proof -
  obtain m1 q1 b1 c1 where m1: "(case l_consume m of None \<Rightarrow> Some m
       | Some c \<Rightarrow> if use_count m c = 1 then local_release c (use_add c (- 1) m) else Some (use_add c (- 1) m)) = Some m1"
    "pool_ok m1 q1 b1 c1" "counts_ok m1 nullptr q1 b1 c1 S" "q1 = [] \<longrightarrow> b1 = bs \<and> c1 = cur \<and> l_remote m1 = l_remote m"
    "q1 = [] \<longrightarrow> qs = []" using drop_filler [OF inv room] by blast
  have s: "supplied mm m1 b1 c1" if "q1 = []"
  proof -
    have "use_count m1 b = 0" if "use_count m b = 0" for b
    proof -
      have "users nullptr S b \<le> users (l_consume m) S b" by (simp add: users_def)
      then show ?thesis using that inv m1(3) by (simp add: local_inv_def counts_ok_def)
    qed
    with sup m1(4,5) that show ?thesis unfolding supplied_def by metis
  qed
  from refill_ok [OF m1(2,3) s] obtain m2 q2 b2 c2 where
    m2: "(if iq_empty (l_queue m1) then do {
         (other, r) \<leftarrow> remote_pop mm (unat (rm_n (l_remote m1))) 0 (l_remote m1);
         (nx, q) \<leftarrow> iq_prepend (rm_next r) (l_queue m1) other;
         Some (set_next nx (m1\<lparr>l_remote := r, l_queue := q, l_count := l_count m1 + of_nat k_T\<rparr>))
       } else Some m1) = Some m2" "pool_ok m2 q2 b2 c2" "counts_ok m2 nullptr q2 b2 c2 S" "q2 \<noteq> []" by blast
  from m2(4) obtain c qs' where q2: "q2 = c # qs'" by (cases q2) auto
  from iq_pop_front_Cons [OF pool_okD(1) [OF m2(2), unfolded q2]] obtain q where
    q: "iq_pop_front (rm_next (l_remote m2)) (l_queue m2) = Some (Some c, q)" "iq_repr (rm_next (l_remote m2)) q qs'" by blast
  let ?m = "use_add c 1 (m2\<lparr>l_queue := q, l_consume := Some c, l_bump := 0, l_count := l_count m2 - 1\<rparr>)"
  have "local_allocate mm m = Some ?m" unfolding local_allocate_def m1(1) m2(1) bind.bind_lunit using m2(1) q(1) by simp
  moreover have "pool_ok ?m qs' b2 c2"
    using m2(2) q(2) q2 by (simp add: pool_ok_def use_add_def)
  moreover have z: "users nullptr S c = 0" using m2(3) q2 by (simp add: counts_ok_def)
  have fin: "finite S" using inv by (simp add: local_inv_def ranges_ok_def)
  have nc: "sr_source x \<noteq> c" if "x \<in> S" for x using z that fin by (auto simp: users_def)
  have "ranges_ok (Some c) 0 S" using inv nc by (auto simp: local_inv_def ranges_ok_def)
  moreover have "counts_ok ?m (Some c) qs' b2 c2 S"
  proof -
    have "c \<notin> set (qs' @ concat b2 @ c2)" using pool_okD(5) [OF m2(2)] q2 by simp
    then show ?thesis using m2(3) q2 by (auto simp: counts_ok_def use_add_def users_def)
  qed
  ultimately show ?thesis
    by (intro exI [of _ ?m] exI [of _ qs'] exI [of _ b2] exI [of _ c2]) (simp add: local_inv_eq use_add_def)
qed

section \<open>Ranges\<close>

lemma ranges_ok_insert:
  assumes r: "ranges_ok (Some c) bump S" and n: "n \<noteq> 0" "unat bump + unat n \<le> 4096"
  defines "x \<equiv> \<lparr>sr_source = c, sr_offset = bump, sr_len = n\<rparr>"
  shows "ranges_ok (Some c) (bump + n) (insert x S)" "x \<notin> S" "\<forall>y \<in> S. apart x y"
proof -
  have un: "unat (bump + n) = unat bump + unat n" using n(2) by (simp add: unat_word_ariths)
  have xe: "sr_end x = unat bump + unat n" "unat (sr_offset x) = unat bump" by (simp_all add: x_def sr_end_def)
  show ap: "\<forall>y \<in> S. apart x y" using r by (auto simp: apart_def ranges_ok_def x_def)
  have "sr_end x > unat bump" using xe n(1) unat_gt_0 [of n] by simp
  with r show "x \<notin> S" by (auto simp: ranges_ok_def x_def)
  from r ap show "ranges_ok (Some c) (bump + n) (insert x S)"
    using un xe n by (auto simp: ranges_ok_def apart_def x_def)
qed

lemma ranges_ok_subset: "ranges_ok c bump S \<Longrightarrow> T \<subseteq> S \<Longrightarrow> ranges_ok c bump T"
proof -
  assume r: "ranges_ok c bump S" and s: "T \<subseteq> S"
  have "finite T" by (rule finite_subset [OF s]) (use r in \<open>simp add: ranges_ok_def\<close>)
  with r s show ?thesis unfolding ranges_ok_def by blast
qed

lemma users_insert:
  assumes "finite S" "x \<notin> S"
  shows "users c (insert x S) b = users c S b + (if sr_source x = b then 1 else 0)"
proof -
  have "{y \<in> insert x S. sr_source y = b} = (if sr_source x = b then insert x {y \<in> S. sr_source y = b} else {y \<in> S. sr_source y = b})"
    by auto
  with assms show ?thesis by (simp add: users_def)
qed

lemma bump_room: "unat (b :: u32) \<le> 4096 \<Longrightarrow> 4096 - b < n \<longleftrightarrow> 4096 < unat b + unat n"
proof -
  assume b: "unat b \<le> 4096"
  have "unat (4096 - b) = 4096 - unat b" using b by (simp add: unat_sub word_le_nat_alt)
  with b show ?thesis by (auto simp: word_less_nat_alt)
qed

lemma local_acquire_ok:
  assumes inv: "local_inv m qs bs cur S" and room: "has_room m bs" and sup: "qs = [] \<longrightarrow> supplied mm m bs cur"
    and n: "n \<noteq> 0" "unat n \<le> 4096"
  shows "\<exists>x m' qs' bs' cur'. local_acquire mm n m = Some (x, m') \<and> local_inv m' qs' bs' cur' (insert x S)
    \<and> x \<notin> S \<and> sr_len x = n \<and> sr_end x \<le> 4096 \<and> (\<forall>y \<in> S. apart x y)"
proof -
  have bump: "unat (l_bump m) \<le> 4096" using inv by (simp add: local_inv_def ranges_ok_def)
  obtain m1 q1 b1 c1 where m1: "(if 4096 - l_bump m < n then local_allocate mm m else Some m) = Some m1"
    "local_inv m1 q1 b1 c1 S" "unat (l_bump m1) + unat n \<le> 4096"
  proof (cases "4096 - l_bump m < n")
    case True
    from local_allocate_ok [OF inv room sup] True n(2) that show ?thesis by auto
  next
    case False
    with bump_room [OF bump] inv that show ?thesis by simp
  qed
  have "l_consume m1 \<noteq> nullptr"
  proof
    assume "l_consume m1 = nullptr"
    then have "l_bump m1 = 4096" using m1(2) by (simp add: local_inv_def ranges_ok_def)
    with m1(3) n(1) unat_gt_0 [of n] show False by simp
  qed
  then obtain c where c: "l_consume m1 = Some c" by auto
  let ?x = "\<lparr>sr_source = c, sr_offset = l_bump m1, sr_len = n\<rparr>" and ?m = "use_add c 1 (m1\<lparr>l_bump := l_bump m1 + n\<rparr>)"
  note inv1 = m1(2) [unfolded local_inv_eq c]
  note r = ranges_ok_insert [OF conjunct1 [OF conjunct2 [OF inv1]] n(1) m1(3)]
  have fin: "finite S" using inv by (simp add: local_inv_def ranges_ok_def)
  have u: "users (Some c) (insert ?x S) b = users (Some c) S b + (if c = b then 1 else 0)" for b
    using users_insert [OF fin r(2)] by simp
  have cu: "users (Some c) S c \<noteq> 0" by (simp add: users_def)
  have "users (Some c) S b = 0 \<and> b \<noteq> c" if "b \<in> set (q1 @ concat b1 @ c1)" for b
    using inv1 cu that by (auto simp only: counts_ok_def)
  moreover have "use_count m1 b = int (users (Some c) S b)" for b using inv1 by (simp add: counts_ok_def)
  ultimately have "counts_ok ?m (Some c) q1 b1 c1 (insert ?x S)"
    unfolding counts_ok_def u by (auto simp only: use_add_def local.simps fun_upd_apply split: if_splits) auto
  moreover have "pool_ok ?m q1 b1 c1" using inv1 by (simp add: pool_ok_def use_add_def)
  ultimately have "local_inv ?m q1 b1 c1 (insert ?x S)" using r(1) c by (simp add: local_inv_eq use_add_def)
  moreover have "local_acquire mm n m = Some (?x, ?m)" unfolding local_acquire_def m1(1) by (simp add: c)
  moreover have "sr_end ?x \<le> 4096" using m1(3) by (simp add: sr_end_def)
  ultimately show ?thesis using r(2,3)
    by (intro exI [of _ ?x] exI [of _ ?m] exI [of _ q1] exI [of _ b1] exI [of _ c1]) simp
qed

lemma release_ok:
  assumes inv: "local_inv m qs bs cur S" and room: "has_room m bs" and x: "x \<in> S"
  shows "\<exists>m' qs' bs' cur'. release x m = Some m' \<and> local_inv m' qs' bs' cur' (S - {x})
    \<and> (sr_source x \<in> set (qs' @ concat bs' @ cur') \<longleftrightarrow> users (l_consume m) S (sr_source x) = 1)"
proof -
  define b c where "b = sr_source x" "c = l_consume m"
  have fin: "finite S" using inv by (simp add: local_inv_def ranges_ok_def)
  have u: "users c S a = users c (S - {x}) a + (if b = a then 1 else 0)" for a
    using users_insert [of "S - {x}" x c a] fin x by (simp add: b_c_def insert_absorb)
  have p: "pool_ok m qs bs cur" and cnt: "use_count m a = int (users c S a)" for a
    using inv by (simp_all add: local_inv_def b_c_def)
  have fr: "users c S a = 0" if "a \<in> set (qs @ concat bs @ cur)" for a using inv that by (simp add: local_inv_def b_c_def)
  have bn: "b \<notin> set (qs @ concat bs @ cur)" using fr [of b] u [of b] by auto
  have n1: "use_count (use_add b (- 1) m) a = int (users c (S - {x}) a)" for a
    using cnt [of a] u [of a] by (auto simp: use_add_def)
  have fr1: "users c (S - {x}) a = 0" if "a \<in> set (qs @ concat bs @ cur)" for a using fr [OF that] u [of a] by simp
  have rg: "ranges_ok c (l_bump m) (S - {x})"
    using inv ranges_ok_subset [of c "l_bump m" S "S - {x}"] by (auto simp: local_inv_def b_c_def)
  have ub: "use_count m b = 1 \<longleftrightarrow> users c S b = 1" using cnt [of b] by simp
  show ?thesis
  proof (cases "use_count m b = 1")
    case False
    let ?m = "use_add b (- 1) m"
    have "local_inv ?m qs bs cur (S - {x})"
      using p n1 fr1 rg by (simp add: local_inv_def) (simp add: use_add_def b_c_def)
    moreover have "release x m = Some ?m" using False by (simp add: release_def b_c_def)
    ultimately show ?thesis using bn False ub
      by (intro exI [of _ ?m] exI [of _ qs] exI [of _ bs] exI [of _ cur]) (simp add: b_c_def)
  next
    case True
    have p1: "pool_ok (use_add b (- 1) m) qs bs cur" "has_room (use_add b (- 1) m) bs"
      using p room by (simp_all add: has_room_def use_add_def pool_ok_def)
    from local_release_ok [OF p1(1) bn p1(2)] obtain m' qs' bs' cur' where
      r: "local_release b (use_add b (- 1) m) = Some m'" "pool_ok m' qs' bs' cur'"
      "mset (qs' @ concat bs' @ cur') = add_mset b (mset (qs @ concat bs @ cur))" "use_count m' = use_count (use_add b (- 1) m)"
      "l_consume m' = l_consume (use_add b (- 1) m)" "l_bump m' = l_bump (use_add b (- 1) m)" by blast
    have set: "set (qs' @ concat bs' @ cur') = insert b (set (qs @ concat bs @ cur))"
      using arg_cong [OF r(3), of set_mset] by simp
    have lc: "l_consume m' = c" "l_bump m' = l_bump m" using r(5,6) by (simp_all add: use_add_def b_c_def)
    have "users c (S - {x}) b = 0" using u [of b] True ub by simp
    then have "local_inv m' qs' bs' cur' (S - {x})"
      using r(2,4) n1 fr1 rg set lc unfolding local_inv_def by auto
    moreover have "release x m = Some m'" using True r(1) by (simp add: release_def b_c_def)
    ultimately show ?thesis using set True ub
      by (intro exI [of _ m'] exI [of _ qs'] exI [of _ bs'] exI [of _ cur']) (simp add: b_c_def)
  qed
qed

lemma local_inv_new: "remote_repr r bs cur \<Longrightarrow> local_inv (local_new r) [] bs cur {}"
  by (simp add: local_inv_def local_new_def pool_ok_def ranges_ok_def users_def remote_repr_def batches_ok_def)

section \<open>Properties\<close>




text \<open>A thread that fills block 128, with the range of its first 10 bytes alive.\<close>

definition demo_local :: local where
  "demo_local = \<lparr>l_remote = remote_new (\<lambda>_. nullptr), use_count = (\<lambda>b. if b = 128 then 2 else 0), l_queue = iq_new,
     l_consume = Some 128, l_bump = 10, l_count = 0\<rparr>"

lemma demo_local_inv: "local_inv demo_local [] [] [] {\<lparr>sr_source = 128, sr_offset = 0, sr_len = 10\<rparr>}" (is "local_inv _ _ _ _ {?x}")
proof -
  have "{y. y = ?x \<and> sr_source y = b} = (if b = 128 then {?x} else {})" for b by auto
  then have "users (Some 128) {?x} b = (if b = 128 then 2 else 0)" for b by (simp add: users_def)
  moreover have "remote_repr (remote_new (\<lambda>_. nullptr)) [] []" by (rule remote_repr_new)
  ultimately show ?thesis by (simp add: local_inv_def demo_local_def pool_ok_def ranges_ok_def sr_end_def)
qed


text \<open>
  \<open>__splice_prefix\<close> takes the first \<open>n\<close> bytes of a range as a range of its own and moves the start of
  the rest, but leaves the length of the rest as it was: the rest now ends \<open>n\<close> bytes beyond the
  original range.
\<close>

theorem splice_prefix_overruns:
  assumes "sr_end x + unat n \<le> 4096"
  shows "case splice_prefix n x m of (p, y, m') \<Rightarrow> sr_end p = unat (sr_offset x) + unat n \<and> unat (sr_offset y) = sr_end p
    \<and> sr_end y = sr_end x + unat n \<and> use_count m' (sr_source x) = use_count m (sr_source x) + 1"
proof -
  have "unat (sr_offset x + n) = unat (sr_offset x) + unat n" using assms by (simp add: unat_word_ariths sr_end_def)
  then show ?thesis by (simp add: splice_prefix_def sr_end_def use_add_def)
qed

theorem splice_prefix_overruns_witness:
  "case splice_prefix 4 \<lparr>sr_source = 128, sr_offset = 0, sr_len = 10\<rparr> demo_local of (p, y, m') \<Rightarrow> sr_end y = 14"
  using splice_prefix_overruns [of "\<lparr>sr_source = 128, sr_offset = 0, sr_len = 10\<rparr>" 4 demo_local]
  by (simp add: splice_prefix_def sr_end_def)

end
