(* ===== verification/Segment_Array.thy ===== *)
theory Segment_Array
  imports Prelude
begin

text \<open>
  \<open>__atomic_segment_array.hpp\<close>: a lock-free, append-only array of segments of doubling size. Any
  thread appends: it draws an index, allocates the segment on demand, stores the value and publishes it
  when all smaller indices are published. A reader folds over the published prefix. A step is one access to a
  shared object, in a sequentially consistent memory (the code's \<open>membarrier\<close> and compiler fence stand
  for the ordering that its relaxed accesses need). \<open>nseg\<close> is the number of segments,
  \<open>bit_width (__max_)\<close>; an index beyond them is undefined behaviour and has no step. Allocation
  succeeds. \<open>sa_log\<close> is auxiliary: the value each index was drawn for.
\<close>

section \<open>State\<close>

record 'a segs =
  sa_seg :: "nat \<Rightarrow> (nat \<Rightarrow> 'a) option"
  sa_count :: u32
  sa_prev :: u32
  sa_log :: "nat \<Rightarrow> 'a option"

definition segs_new :: "'a segs" where
  "segs_new = \<lparr>sa_seg = (\<lambda>_. None), sa_count = 0, sa_prev = 0, sa_log = (\<lambda>_. None)\<rparr>"

text \<open>Segment and position of an index; \<open>__builtin_clzll\<close> of zero is undefined.\<close>

definition locate :: "u32 \<Rightarrow> (nat \<times> nat) ub" where
  "locate w =
     (let a = unat (w + 1) in
      if a = 0 then None
      else (let n = 63 - clz 64 a in Some (n, unat (w - (of_nat (2 ^ n) - 1)))))"

section \<open>Appending\<close>

datatype 'a spc = S_Idle | S_Add 'a | S_Load 'a u32 | S_Cas 'a u32 | S_Store 'a u32 | S_Wait u32 | S_Publish u32

fun sstep :: "nat \<Rightarrow> 'a \<Rightarrow> 'a spc \<Rightarrow> 'a segs \<Rightarrow> ('a spc \<times> 'a segs) list" where
  "sstep nseg d S_Idle m = []"
| "sstep nseg d (S_Add v) m =
     (if unat (sa_prev m) < 2 ^ nseg - 1
      then [(S_Load v (sa_prev m), m\<lparr>sa_prev := sa_prev m + 1, sa_log := (sa_log m)(unat (sa_prev m) := Some v)\<rparr>)]
      else [])"
| "sstep nseg d (S_Load v w) m = (case locate w of None \<Rightarrow> [] | Some (n, p) \<Rightarrow>
     (if n < nseg then [(if sa_seg m n = None then S_Cas v w else S_Store v w, m)] else []))"
| "sstep nseg d (S_Cas v w) m = (case locate w of None \<Rightarrow> [] | Some (n, p) \<Rightarrow>
     [(S_Store v w, if sa_seg m n = None then m\<lparr>sa_seg := (sa_seg m)(n := Some (\<lambda>_. d))\<rparr> else m)])"
| "sstep nseg d (S_Store v w) m = (case locate w of None \<Rightarrow> [] | Some (n, p) \<Rightarrow>
     (case sa_seg m n of None \<Rightarrow> [] | Some f \<Rightarrow> [(S_Wait w, m\<lparr>sa_seg := (sa_seg m)(n := Some (f(p := v)))\<rparr>)]))"
| "sstep nseg d (S_Wait w) m = [(if sa_count m = w then S_Publish w else S_Wait w, m)]"
| "sstep nseg d (S_Publish w) m = [(S_Idle, m\<lparr>sa_count := w + 1\<rparr>)]"

section \<open>Folding\<close>

fun seg_fold :: "('b \<Rightarrow> 'a \<Rightarrow> 'b) \<Rightarrow> (nat \<Rightarrow> 'a) \<Rightarrow> nat \<Rightarrow> nat \<Rightarrow> 'b \<Rightarrow> 'b" where
  "seg_fold fn f p 0 b = b"
| "seg_fold fn f p (Suc k) b = seg_fold fn f (Suc p) k (fn b (f p))"

function fold_loop :: "('b \<Rightarrow> 'a \<Rightarrow> 'b) \<Rightarrow> 'a segs \<Rightarrow> nat \<Rightarrow> nat \<Rightarrow> nat \<Rightarrow> 'b \<Rightarrow> 'b ub" where
  "fold_loop fn m r w n b =
     (if w < r then (let mm = min (2 ^ n) (r - w) in
        case sa_seg m n of None \<Rightarrow> None | Some f \<Rightarrow> fold_loop fn m r (w + mm) (Suc n) (seg_fold fn f 0 mm b))
      else Some b)"
  by pat_completeness auto
termination
  by (relation "measure (\<lambda>(fn, m, r, w, n, b). r - w)") (auto simp: min_def intro!: diff_less_mono2)

declare fold_loop.simps [simp del]

definition fold_inplace :: "('b \<Rightarrow> 'a \<Rightarrow> 'b) \<Rightarrow> 'b \<Rightarrow> 'a segs \<Rightarrow> 'b ub" where
  "fold_inplace fn b m = fold_loop fn m (unat (sa_count m)) 0 0 b"

text \<open>The destructor deletes every segment there is; the list is of the segments it deletes.\<close>

definition segs_destroy :: "nat \<Rightarrow> 'a segs \<Rightarrow> nat list" where
  "segs_destroy nseg m = filter (\<lambda>n. sa_seg m n \<noteq> None) [0..<nseg]"

section \<open>The index map\<close>

lemma locate_spec:
  assumes "w \<noteq> - 1"
  shows "\<exists>n p. locate w = Some (n, p) \<and> unat w = 2 ^ n - 1 + p \<and> p < 2 ^ n \<and> n < 32"
proof -
  have "unat w \<noteq> 2 ^ 32 - 1" using assms unfolding word_unat_eq_iff unat_max .
  then have b: "Suc (unat w) < 2 ^ 32" using unat_u32_bound [of w] by simp
  then have a: "unat (w + 1) = Suc (unat w)" by (simp add: unat_word_ariths)
  define n where "n = bit_width (Suc (unat w)) - 1"
  have bw: "bit_width (Suc (unat w)) = Suc n" using bit_width_gt0 [of "Suc (unat w)"] by (simp add: n_def)
  have lo: "2 ^ n \<le> Suc (unat w)" using bit_width_lower [of "Suc (unat w)"] bw by simp
  have hi: "Suc (unat w) < 2 * 2 ^ n" using bit_width_upper [of "Suc (unat w)"] bw by simp
  have n32: "n < 32" using bit_width_le [OF b] bw by simp
  have "unat ((2 :: u32) ^ n) = 2 ^ n" using n32 by simp
  then have p2: "unat ((2 :: u32) ^ n - 1) = 2 ^ n - 1" by (simp add: unat_sub word_le_nat_alt)
  then have p: "unat (w - (2 ^ n - 1)) = unat w - (2 ^ n - 1)" using lo by (simp add: unat_sub word_le_nat_alt)
  have cl: "63 - clz 64 (Suc (unat w)) = n" using bw n32 by (simp add: clz_def)
  have "locate w = Some (n, unat w - (2 ^ n - 1))" unfolding locate_def Let_def a cl using p by simp
  then show ?thesis using lo hi n32 by auto
qed

lemma locate_inj: "locate w = Some x \<Longrightarrow> locate w' = Some x \<Longrightarrow> w = w'"
proof -
  assume l: "locate w = Some x" "locate w' = Some x"
  then have "w \<noteq> - 1" "w' \<noteq> - 1" by (auto simp: locate_def)
  from locate_spec [OF this(1)] locate_spec [OF this(2)] l have "unat w = unat w'" by auto
  then show ?thesis by (simp add: word_unat_eq_iff)
qed

lemma locate_seg: "unat w < 2 ^ k - 1 \<Longrightarrow> k \<le> 32 \<Longrightarrow> \<exists>n p. locate w = Some (n, p) \<and> unat w = 2 ^ n - 1 + p \<and> p < 2 ^ n \<and> n < k"
proof -
  assume w: "unat w < 2 ^ k - 1" and k: "k \<le> 32"
  have "(2::nat) ^ k \<le> 2 ^ 32" using k by (intro power_increasing) simp_all
  then have "w \<noteq> - 1" using w unat_max by auto
  from locate_spec [OF this] obtain n p where n: "locate w = Some (n, p)" "unat w = 2 ^ n - 1 + p" "p < 2 ^ n" by blast
  have "n < k"
  proof (rule ccontr)
    assume "\<not> n < k"
    then have "(2::nat) ^ k \<le> 2 ^ n" by (intro power_increasing) simp_all
    moreover have "(0::nat) < 2 ^ k" by simp
    ultimately show False using n(2) w by linarith
  qed
  with n show ?thesis by blast
qed

section \<open>Folding over the published prefix\<close>

lemma seg_fold_eq: "seg_fold fn f p k b = foldl fn b (map f [p..<p + k])"
proof (induction k arbitrary: p b)
  case (Suc k)
  have "[p..<p + Suc k] = p # [Suc p..<Suc p + k]" by (simp add: upt_rec)
  with Suc show ?case by simp
qed simp

text \<open>\<open>g\<close> is the content by index.\<close>

lemma fold_loop_eq:
  assumes "\<And>n p. 2 ^ n - 1 + p < r \<Longrightarrow> p < 2 ^ n \<Longrightarrow> \<exists>f. sa_seg m n = Some f \<and> f p = g (2 ^ n - 1 + p)"
  shows "2 ^ n - 1 \<le> r \<Longrightarrow> fold_loop fn m r (2 ^ n - 1) n b = Some (foldl fn b (map g [2 ^ n - 1..<r]))"
proof (induction "r - (2 ^ n - 1)" arbitrary: n b rule: less_induct)
  case less
  define w where "w = (2::nat) ^ n - 1"
  show ?case
  proof (cases "w < r")
    case False
    then have "w = r" using less.prems by (simp add: w_def)
    then show ?thesis unfolding w_def [symmetric] by (subst fold_loop.simps) simp
  next
    case True
    define mm where "mm = min (2 ^ n) (r - w)"
    from assms [of n 0] True obtain f where f: "sa_seg m n = Some f" by (auto simp: w_def)
    have fp: "f p = g (w + p)" if "p < mm" for p
      using assms [of n p] that f by (auto simp: mm_def w_def)
    have seg: "seg_fold fn f 0 mm b = foldl fn b (map g [w..<w + mm])"
    proof -
      have "map f [0..<mm] = map g [w..<w + mm]" by (rule nth_equalityI) (simp_all add: fp)
      then show ?thesis by (simp add: seg_fold_eq)
    qed
    have step: "fold_loop fn m r w n b = fold_loop fn m r (w + mm) (Suc n) (foldl fn b (map g [w..<w + mm]))"
      using True f seg by (subst fold_loop.simps) (simp add: Let_def mm_def)
    show ?thesis
    proof (cases "2 ^ n \<le> r - w")
      case full: True
      have p: "(0::nat) < 2 ^ n" by simp
      have w': "w + mm = 2 ^ Suc n - 1" using full p by (simp add: mm_def w_def)
      have le: "2 ^ Suc n - 1 \<le> r" using full True w' by (simp add: mm_def)
      have "r - (2 ^ Suc n - 1) < r - (2 ^ n - 1)" 
      proof (rule diff_less_mono2)
        show "(2::nat) ^ n - 1 < 2 ^ Suc n - 1" using p unfolding power_Suc by linarith
        show "2 ^ n - 1 < r" using True by (simp add: w_def)
      qed
      from less.hyps [OF this le] have
        "fold_loop fn m r (w + mm) (Suc n) (foldl fn b (map g [w..<w + mm])) =
         Some (foldl fn (foldl fn b (map g [w..<w + mm])) (map g [w + mm..<r]))" unfolding w' .
      moreover have "[w..<r] = [w..<w + mm] @ [w + mm..<r]"
        using upt_add_eq_append [of w "w + mm" "r - (w + mm)"] le w' by simp
      ultimately show ?thesis using step unfolding w_def [symmetric] by simp
    next
      case False
      then have "w + mm = r" using True by (simp add: mm_def)
      with step show ?thesis unfolding w_def [symmetric] by (simp add: fold_loop.simps)
    qed
  qed
qed

section \<open>Steps of the system and the invariant\<close>

inductive seg_step :: "nat \<Rightarrow> 'a \<Rightarrow> ('t \<Rightarrow> 'a spc) \<times> 'a segs \<Rightarrow> ('t \<Rightarrow> 'a spc) \<times> 'a segs \<Rightarrow> bool" for nseg d where
  run: "(p, m') \<in> set (sstep nseg d (T t) m) \<Longrightarrow> seg_step nseg d (T, m) (T(t := p), m')"
| start: "T t = S_Idle \<Longrightarrow> seg_step nseg d (T, m) (T(t := S_Add v), m)"

inductive seg_reachable :: "nat \<Rightarrow> 'a \<Rightarrow> ('t \<Rightarrow> 'a spc) \<times> 'a segs \<Rightarrow> bool" for nseg d where
  init: "seg_reachable nseg d (\<lambda>_. S_Idle, segs_new)"
| step: "seg_reachable nseg d s \<Longrightarrow> seg_step nseg d s s' \<Longrightarrow> seg_reachable nseg d s'"

fun index_of :: "'a spc \<Rightarrow> u32 option" where
  "index_of (S_Load v w) = Some w"
| "index_of (S_Cas v w) = Some w"
| "index_of (S_Store v w) = Some w"
| "index_of (S_Wait w) = Some w"
| "index_of (S_Publish w) = Some w"
| "index_of _ = None"

definition content :: "'a segs \<Rightarrow> u32 \<Rightarrow> 'a option" where
  "content m w = (case locate w of None \<Rightarrow> None | Some (n, p) \<Rightarrow> map_option (\<lambda>f. f p) (sa_seg m n))"

fun spc_ok :: "nat \<Rightarrow> 'a segs \<Rightarrow> 'a spc \<Rightarrow> bool" where
  "spc_ok nseg m (S_Load v w) \<longleftrightarrow> sa_log m (unat w) = Some v"
| "spc_ok nseg m (S_Cas v w) \<longleftrightarrow> sa_log m (unat w) = Some v"
| "spc_ok nseg m (S_Store v w) \<longleftrightarrow> sa_log m (unat w) = Some v \<and> content m w \<noteq> None"
| "spc_ok nseg m (S_Wait w) \<longleftrightarrow> content m w = sa_log m (unat w) \<and> sa_log m (unat w) \<noteq> None"
| "spc_ok nseg m (S_Publish w) \<longleftrightarrow> content m w = sa_log m (unat w) \<and> sa_log m (unat w) \<noteq> None \<and> sa_count m = w"
| "spc_ok nseg m _ \<longleftrightarrow> True"

definition seg_inv :: "nat \<Rightarrow> ('t \<Rightarrow> 'a spc) \<times> 'a segs \<Rightarrow> bool" where
  "seg_inv nseg s \<longleftrightarrow> (case s of (T, m) \<Rightarrow> sa_count m \<le> sa_prev m \<and> unat (sa_prev m) \<le> 2 ^ nseg - 1
     \<and> (\<forall>t w. index_of (T t) = Some w \<longrightarrow> sa_count m \<le> w \<and> w < sa_prev m)
     \<and> (\<forall>t u w. index_of (T t) = Some w \<longrightarrow> index_of (T u) = Some w \<longrightarrow> t = u)
     \<and> (\<forall>w. sa_count m \<le> w \<longrightarrow> w < sa_prev m \<longrightarrow> (\<exists>t. index_of (T t) = Some w))
     \<and> (\<forall>w. w < sa_count m \<longrightarrow> content m w = sa_log m (unat w) \<and> sa_log m (unat w) \<noteq> None)
     \<and> (\<forall>t. spc_ok nseg m (T t)))"

lemma seg_invD:
  assumes "seg_inv nseg (T, m)"
  shows "sa_count m \<le> sa_prev m" "unat (sa_prev m) \<le> 2 ^ nseg - 1"
    "index_of (T t) = Some w \<Longrightarrow> sa_count m \<le> w" "index_of (T t) = Some w \<Longrightarrow> w < sa_prev m"
    "index_of (T t) = Some w \<Longrightarrow> index_of (T u) = Some w \<Longrightarrow> t = u"
    "sa_count m \<le> w \<Longrightarrow> w < sa_prev m \<Longrightarrow> \<exists>t. index_of (T t) = Some w"
    "w < sa_count m \<Longrightarrow> content m w = sa_log m (unat w)" "w < sa_count m \<Longrightarrow> sa_log m (unat w) \<noteq> None"
    "spc_ok nseg m (T t)"
  using assms unfolding seg_inv_def prod.case by blast+

lemma spc_ok_cong:
  assumes "spc_ok nseg m p" "sa_count m' = sa_count m"
    "\<And>w. index_of p = Some w \<Longrightarrow> sa_log m' (unat w) = sa_log m (unat w)"
    "\<And>w. index_of p = Some w \<Longrightarrow> content m w \<noteq> None \<Longrightarrow> content m' w = content m w"
  shows "spc_ok nseg m' p"
proof -
  have *: "content m' w = sa_log m' (unat w) \<and> sa_log m' (unat w) \<noteq> None"
    if "index_of p = Some w" "content m w = sa_log m (unat w)" "sa_log m (unat w) \<noteq> None" for w
    using assms(3,4) [OF that(1)] that(2,3) by simp
  show ?thesis
  proof (cases p)
    case (S_Store v w)
    with assms(1) have "content m w \<noteq> None" by simp
    with S_Store assms(1,3,4) show ?thesis by simp
  next
    case (S_Wait w)
    with assms(1) * [of w] show ?thesis by simp
  next
    case (S_Publish w)
    with assms(1,2) * [of w] show ?thesis by simp
  qed (use assms in auto)
qed

text \<open>A thread keeps its index and touches no content but its own.\<close>

lemma seg_same:
  assumes inv: "seg_inv nseg (T, m)" and p: "index_of p = index_of (T t)" "spc_ok nseg m' p"
    and m': "sa_count m' = sa_count m" "sa_prev m' = sa_prev m" "sa_log m' = sa_log m"
    and c: "\<And>w. index_of (T t) \<noteq> Some w \<Longrightarrow> content m w \<noteq> None \<Longrightarrow> content m' w = content m w"
  shows "seg_inv nseg (T(t := p), m')"
proof -
  note i = seg_invD [OF inv]
  have idx: "index_of ((T(t := p)) u) = index_of (T u)" for u using p(1) by simp
  have ok: "spc_ok nseg m' ((T(t := p)) u)" for u
  proof (cases "u = t")
    case False
    have "spc_ok nseg m' (T u)"
    proof (rule spc_ok_cong [OF i(9) m'(1)])
      show "content m' w = content m w" if "index_of (T u) = Some w" "content m w \<noteq> None" for w
        by (rule c) (use that i(5) [of u w t] False in auto)
    qed (simp add: m'(3))
    with False show ?thesis by simp
  qed (use p(2) in simp)
  have pub: "content m' w = content m w" if w: "w < sa_count m" for w
  proof (rule c)
    show "index_of (T t) \<noteq> Some w" using i(3) [of t w] w by auto
    show "content m w \<noteq> None" using i(7,8) [OF w] by simp
  qed
  show ?thesis
    unfolding seg_inv_def prod.case idx m'
    using i(1,2,3,4,5,6,7,8) ok pub by (intro conjI allI impI) auto
qed

lemma content_store:
  assumes l: "locate w = Some (n, p)" and f: "sa_seg m n = Some f"
  shows "content (m\<lparr>sa_seg := (sa_seg m)(n := Some (f(p := v)))\<rparr>) x = (if x = w then Some v else content m x)"
proof (cases "x = w")
  case True
  with l show ?thesis by (simp add: content_def)
next
  case False
  show ?thesis
  proof (cases "locate x")
    case (Some y)
    obtain n' p' where y: "y = (n', p')" by fastforce
    with Some l False locate_inj have "n' = n \<Longrightarrow> p' \<noteq> p" by blast
    with Some y f False show ?thesis by (cases "n' = n") (simp_all add: content_def)
  qed (use False in \<open>simp add: content_def\<close>)
qed

lemma content_alloc: "sa_seg m n = None \<Longrightarrow> content m x \<noteq> None \<Longrightarrow> content (m\<lparr>sa_seg := (sa_seg m)(n := Some g)\<rparr>) x = content m x"
  by (auto simp: content_def split: option.splits prod.splits)

lemma content_None: "locate w = Some (n, p) \<Longrightarrow> content m w = None \<longleftrightarrow> sa_seg m n = None"
  by (simp add: content_def)

lemma content_same: "sa_seg m' = sa_seg m \<Longrightarrow> content m' = content m"
  by (intro ext) (simp add: content_def split: option.split prod.split)

lemma seg_add:
  assumes inv: "seg_inv nseg (T, m)" and t: "T t = S_Add v" and b: "unat (sa_prev m) < 2 ^ nseg - 1" and ns: "nseg \<le> 32"
  shows "seg_inv nseg (T(t := S_Load v (sa_prev m)), m\<lparr>sa_prev := sa_prev m + 1, sa_log := (sa_log m)(unat (sa_prev m) := Some v)\<rparr>)"
proof -
  note i = seg_invD [OF inv]
  let ?w = "sa_prev m" and ?T = "T(t := S_Load v (sa_prev m))"
  let ?m = "m\<lparr>sa_prev := ?w + 1, sa_log := (sa_log m)(unat ?w := Some v)\<rparr>"
  have "(2::nat) ^ nseg \<le> 2 ^ 32" using ns by (intro power_increasing) simp_all
  then have s: "unat (?w + 1) = Suc (unat ?w)" using b by (simp add: unat_word_ariths)
  have lt: "x < ?w + 1 \<longleftrightarrow> x < ?w \<or> x = ?w" for x using s by (auto simp: word_less_nat_alt word_unat_eq_iff)
  have le: "x \<le> ?w \<Longrightarrow> x \<le> ?w + 1" for x using s by (simp add: word_le_nat_alt)
  have idx: "index_of (?T u) = Some x \<longleftrightarrow> (u = t \<and> x = ?w) \<or> (u \<noteq> t \<and> index_of (T u) = Some x)" for u x by auto
  have other: "index_of (T u) = Some x \<Longrightarrow> x \<noteq> ?w" for u x using i(4) [of u x] by auto
  have ct: "content ?m = content m" by (rule content_same) simp
  have lg: "x \<noteq> ?w \<Longrightarrow> sa_log ?m (unat x) = sa_log m (unat x)" for x by (simp add: word_unat_eq_iff)
  have ok: "spc_ok nseg ?m (?T u)" for u
  proof (cases "u = t")
    case False
    have "spc_ok nseg ?m (T u)"
    proof (rule spc_ok_cong [OF i(9)])
      show "sa_log ?m (unat x) = sa_log m (unat x)" if "index_of (T u) = Some x" for x by (rule lg [OF other [OF that]])
    qed (simp_all add: ct)
    with False show ?thesis by simp
  qed simp
  have pub: "w < sa_count m \<Longrightarrow> w \<noteq> ?w" for w using i(1) by auto
  have ex: "\<exists>u. index_of (?T u) = Some x" if "sa_count m \<le> x" "x < ?w + 1" for x
  proof (cases "x = ?w")
    case False
    with that(2) lt [of x] have "x < ?w" by simp
    from i(6) [OF that(1) this] obtain u where u: "index_of (T u) = Some x" ..
    with t have "u \<noteq> t" by auto
    with u show ?thesis by (intro exI [of _ u]) simp
  qed (auto intro: exI [of _ t])
  have m: "sa_count ?m = sa_count m" "sa_prev ?m = ?w + 1" by simp_all
  show ?thesis
    unfolding seg_inv_def prod.case
  proof (intro conjI allI impI)
    show "sa_count ?m \<le> sa_prev ?m" using le [OF i(1)] by simp
    show "unat (sa_prev ?m) \<le> 2 ^ nseg - 1" using s b by simp
    show "sa_count ?m \<le> x" if "index_of (?T u) = Some x" for u x using that i(1) i(3) [of u x] unfolding idx by auto
    show "x < sa_prev ?m" if "index_of (?T u) = Some x" for u x using that i(4) [of u x] lt [of x] unfolding idx by auto
    show "u = u'" if "index_of (?T u) = Some x" "index_of (?T u') = Some x" for u u' x
      using that i(5) [of u x u'] other [of u x] other [of u' x] unfolding idx by auto
    show "\<exists>u. index_of (?T u) = Some x" if "sa_count ?m \<le> x" "x < sa_prev ?m" for x using ex [of x] that by simp
    show "content ?m x = sa_log ?m (unat x)" "sa_log ?m (unat x) \<noteq> None" if "x < sa_count ?m" for x
      using that i(7,8) [of x] pub [of x] lg [of x] ct by simp_all
    show "spc_ok nseg ?m (?T u)" for u by (rule ok)
  qed
qed

lemma seg_publish:
  assumes inv: "seg_inv nseg (T, m)" and t: "T t = S_Publish w"
  shows "seg_inv nseg (T(t := S_Idle), m\<lparr>sa_count := w + 1\<rparr>)"
proof -
  note i = seg_invD [OF inv]
  let ?T = "T(t := S_Idle)" and ?m = "m\<lparr>sa_count := w + 1\<rparr>"
  have "spc_ok nseg m (S_Publish w)" using i(9) [of t] t by simp
  then have w: "w < sa_prev m" "sa_count m = w" "content m w = sa_log m (unat w)" "sa_log m (unat w) \<noteq> None"
    using i(4) [of t w] t by simp_all
  have s: "unat (w + 1) = Suc (unat w)"
    using w(1) unat_u32_bound [of "sa_prev m"] by (simp add: unat_word_ariths word_less_nat_alt)
  have lt: "x < w + 1 \<longleftrightarrow> x < w \<or> x = w" for x using s by (auto simp: word_less_nat_alt word_unat_eq_iff)
  have le: "w + 1 \<le> x \<longleftrightarrow> w < x" for x using s by (auto simp: word_less_nat_alt word_le_nat_alt)
  have idx: "index_of (?T u) = Some x \<longleftrightarrow> u \<noteq> t \<and> index_of (T u) = Some x" for u x by auto
  have it: "index_of (T t) = Some w" using t by simp
  have ct: "content ?m = content m" by (rule content_same) simp
  have gt: "w < x" if "u \<noteq> t" "index_of (T u) = Some x" for u x
  proof -
    have "w \<le> x" using i(3) [OF that(2)] w(2) by simp
    moreover have "x \<noteq> w" using i(5) [OF it] that by blast
    ultimately show ?thesis by simp
  qed
  have ok: "spc_ok nseg ?m (?T u)" for u
  proof (cases "u = t")
    case False
    have "spc_ok nseg m (T u)" by (rule i(9))
    then have "spc_ok nseg ?m (T u)" using gt [OF False] ct w(2) by (cases "T u") auto
    with False show ?thesis by simp
  qed simp
  show ?thesis
    unfolding seg_inv_def prod.case
  proof (intro conjI allI impI)
    show "sa_count ?m \<le> sa_prev ?m" using w(1) le by simp
    show "unat (sa_prev ?m) \<le> 2 ^ nseg - 1" using i(2) by simp
    show "sa_count ?m \<le> x" if "index_of (?T u) = Some x" for u x using that gt [of u x] le [of x] unfolding idx by simp
    show "x < sa_prev ?m" if "index_of (?T u) = Some x" for u x using that i(4) [of u x] unfolding idx by simp
    show "u = u'" if "index_of (?T u) = Some x" "index_of (?T u') = Some x" for u u' x using that i(5) [of u x u'] unfolding idx by simp
    show "\<exists>u. index_of (?T u) = Some x" if "sa_count ?m \<le> x" "x < sa_prev ?m" for x
    proof -
      have "w < x" "x < sa_prev m" using that le by simp_all
      then obtain u where u: "index_of (T u) = Some x" using i(6) [OF less_imp_le] w(2) by auto
      moreover have "u \<noteq> t" using u it \<open>w < x\<close> by auto
      ultimately show ?thesis unfolding idx by blast
    qed
    show "content ?m x = sa_log ?m (unat x)" "sa_log ?m (unat x) \<noteq> None" if "x < sa_count ?m" for x
      using that lt [of x] i(7,8) [of x] w ct by auto
    show "spc_ok nseg ?m (?T u)" for u by (rule ok)
  qed
qed

lemma seg_inv_run:
  assumes inv: "seg_inv nseg (T, m)" and ns: "nseg \<le> 32" and s: "(p, m') \<in> set (sstep nseg d (T t) m)"
  shows "seg_inv nseg (T(t := p), m')"
proof -
  note i = seg_invD(9) [OF inv, of t]
  show ?thesis
  proof (cases "T t")
    case (S_Add v)
    with s seg_add [OF inv S_Add _ ns] show ?thesis by (auto split: if_splits)
  next
    case (S_Load v w)
    with s obtain n q where l: "locate w = Some (n, q)" by (cases "locate w") auto
    have "m' = m" "p = (if sa_seg m n = None then S_Cas v w else S_Store v w)"
      using s S_Load l by (simp_all split: if_splits)
    with S_Load i content_None [OF l, of m] show ?thesis by (intro seg_same [OF inv]) auto
  next
    case (S_Cas v w)
    with s obtain n q where l: "locate w = Some (n, q)" by (cases "locate w") auto
    have m': "m' = (if sa_seg m n = None then m\<lparr>sa_seg := (sa_seg m)(n := Some (\<lambda>_. d))\<rparr> else m)" and p: "p = S_Store v w"
      using s S_Cas l by simp_all
    have "content m' w \<noteq> None" unfolding content_None [OF l] using m' by auto
    with S_Cas i p m' content_alloc [of m n] show ?thesis by (intro seg_same [OF inv]) auto
  next
    case (S_Store v w)
    with s obtain n q where l: "locate w = Some (n, q)" by (cases "locate w") auto
    with s S_Store obtain f where f: "sa_seg m n = Some f" by (cases "sa_seg m n") auto
    have "m' = m\<lparr>sa_seg := (sa_seg m)(n := Some (f(q := v)))\<rparr>" "p = S_Wait w" using s S_Store l f by simp_all
    with S_Store i content_store [OF l f, of v] show ?thesis by (intro seg_same [OF inv]) auto
  next
    case (S_Wait w)
    with s i show ?thesis by (intro seg_same [OF inv]) (auto split: if_splits)
  next
    case (S_Publish w)
    with s seg_publish [OF inv S_Publish] show ?thesis by simp
  qed (use s in simp)
qed

lemma seg_inv_reachable: "seg_reachable nseg d s \<Longrightarrow> nseg \<le> 32 \<Longrightarrow> seg_inv nseg s"
proof (induction rule: seg_reachable.induct)
  case init
  show ?case by (simp add: seg_inv_def segs_new_def)
next
  case (step s s')
  from step.hyps(2) step.IH [OF step.prems] show ?case
  proof (induction rule: seg_step.induct)
    case (start T t m v)
    then show ?case by (intro seg_same) auto
  qed (rule seg_inv_run [OF _ step.prems])
qed

section \<open>Published content is stable\<close>

lemma seg_run_stable:
  assumes inv: "seg_inv nseg (T, m)" and w: "w < sa_count m" and s: "(p, m') \<in> set (sstep nseg d (T t) m)"
  shows "w < sa_count m' \<and> content m' w = content m w \<and> sa_log m' (unat w) = sa_log m (unat w)"
proof -
  note i = seg_invD [OF inv]
  have own: "index_of (T t) = Some x \<Longrightarrow> w \<noteq> x" for x using i(3) [of t x] w by auto
  have cw: "content m w \<noteq> None" using i(7,8) [OF w] by simp
  show ?thesis
  proof (cases "T t")
    case (S_Add v)
    have "w \<noteq> sa_prev m" using w i(1) by auto
    with s S_Add w show ?thesis by (auto simp: content_def word_unat_eq_iff split: if_splits option.split prod.split)
  next
    case (S_Load v x)
    with s w show ?thesis by (auto split: option.splits prod.splits if_splits)
  next
    case (S_Cas v x)
    with s obtain n q where l: "locate x = Some (n, q)" by (cases "locate x") auto
    with s S_Cas w content_alloc [OF _ cw, of n] show ?thesis by (auto split: if_splits)
  next
    case (S_Store v x)
    with s obtain n q where l: "locate x = Some (n, q)" by (cases "locate x") auto
    with s S_Store obtain f where f: "sa_seg m n = Some f" by (cases "sa_seg m n") auto
    show ?thesis using s S_Store l f w content_store [OF l f, of v w] own [of x] by simp
  next
    case (S_Publish x)
    have x: "sa_count m = x" "x < sa_prev m" using i(9) [of t] i(4) [of t x] S_Publish by simp_all
    have "unat (x + 1) = Suc (unat x)"
      using x(2) unat_u32_bound [of "sa_prev m"] by (simp add: unat_word_ariths word_less_nat_alt)
    with w x have "w < x + 1" by (simp add: word_less_nat_alt)
    with s S_Publish show ?thesis using content_same [of m' m] by simp
  qed (use s w in auto)
qed

lemma seg_step_stable:
  assumes "seg_step nseg d s s'" "seg_inv nseg s" "w < sa_count (snd s)"
  shows "w < sa_count (snd s') \<and> content (snd s') w = content (snd s) w \<and> sa_log (snd s') (unat w) = sa_log (snd s) (unat w)"
  using assms
proof (induction rule: seg_step.induct)
  case (run p m' T t m)
  then show ?case using seg_run_stable [of nseg T m w p m' d t] by simp
qed simp

lemma seg_steps_stable:
  assumes "(seg_step nseg d)\<^sup>*\<^sup>* s s'" "seg_reachable nseg d s" "nseg \<le> 32" "w < sa_count (snd s)"
  shows "seg_reachable nseg d s' \<and> w < sa_count (snd s') \<and> content (snd s') w = content (snd s) w
    \<and> sa_log (snd s') (unat w) = sa_log (snd s) (unat w)"
  using assms(1)
proof (induction rule: rtranclp_induct)
  case base
  with assms show ?case by simp
next
  case (step y z)
  have "seg_inv nseg y" by (rule seg_inv_reachable) (use step.IH assms(3) in auto)
  with step.hyps(2) step.IH seg_step_stable [of nseg d y z w] seg_reachable.step [of nseg d y z] show ?case by simp
qed

lemma locate_pos:
  assumes "p < 2 ^ n" "2 ^ n - 1 + p < unat (w :: u32)"
  shows "locate (of_nat (2 ^ n - 1 + p)) = Some (n, p)"
proof -
  let ?x = "of_nat (2 ^ n - 1 + p) :: u32"
  have u: "unat ?x = 2 ^ n - 1 + p" using assms(2) unat_u32_bound [of w] by (simp add: unat_of_nat)
  have "?x \<noteq> - 1" using u assms(2) unat_u32_bound [of w] unat_max by auto
  from locate_spec [OF this] obtain n' p' where l: "locate ?x = Some (n', p')" "2 ^ n - 1 + p = 2 ^ n' - 1 + p'" "p' < 2 ^ n'"
    unfolding u by blast
  have pos: "(0::nat) < 2 ^ n" "(0::nat) < 2 ^ n'" by simp_all
  have "\<not> n < n'"
  proof
    assume "n < n'"
    then have "(2::nat) ^ Suc n \<le> 2 ^ n'" by (intro power_increasing) simp_all
    with l(2) assms(1) pos show False by simp
  qed
  moreover have "\<not> n' < n"
  proof
    assume "n' < n"
    then have "(2::nat) ^ Suc n' \<le> 2 ^ n" by (intro power_increasing) simp_all
    with l(2,3) pos show False by simp
  qed
  ultimately show ?thesis using l by (metis add_left_cancel linorder_neqE_nat)
qed

section \<open>Schedules\<close>

text \<open>An executable choice of steps for two threads.\<close>

datatype 'a scmd = SRun bool | SStart bool 'a

type_synonym 'a ssys = "(bool \<Rightarrow> 'a spc) \<times> 'a segs"

fun smove :: "nat \<Rightarrow> 'a \<Rightarrow> 'a scmd \<Rightarrow> 'a ssys \<Rightarrow> 'a ssys option" where
  "smove nseg d (SRun t) (T, m) = (case sstep nseg d (T t) m of [] \<Rightarrow> None | (p, m') # _ \<Rightarrow> Some (T(t := p), m'))"
| "smove nseg d (SStart t v) (T, m) = (case T t of S_Idle \<Rightarrow> Some (T(t := S_Add v), m) | _ \<Rightarrow> None)"

fun srun :: "nat \<Rightarrow> 'a \<Rightarrow> 'a scmd list \<Rightarrow> 'a ssys \<Rightarrow> 'a ssys option" where
  "srun nseg d [] s = Some s"
| "srun nseg d (x # xs) s = Option.bind (smove nseg d x s) (srun nseg d xs)"

lemma smove_step: "smove nseg d x s = Some s' \<Longrightarrow> seg_step nseg d s s'"
proof (cases s)
  case (Pair T m)
  assume a: "smove nseg d x s = Some s'"
  show ?thesis
  proof (cases x)
    case (SRun t)
    with a Pair obtain p m' xs where p: "sstep nseg d (T t) m = (p, m') # xs" "s' = (T(t := p), m')"
      by (auto split: list.splits)
    then have "(p, m') \<in> set (sstep nseg d (T t) m)" by simp
    from seg_step.run [of p m' nseg d T t m, OF this] show ?thesis using Pair p(2) by simp
  next
    case (SStart t v)
    with a Pair show ?thesis by (auto split: spc.splits intro: seg_step.start)
  qed
qed

lemma srun_steps: "srun nseg d xs s = Some s' \<Longrightarrow> (seg_step nseg d)\<^sup>*\<^sup>* s s'"
proof (induction xs arbitrary: s)
  case (Cons x xs)
  then obtain s1 where s1: "smove nseg d x s = Some s1" "srun nseg d xs s1 = Some s'"
    by (auto simp: Option.bind_eq_Some_conv)
  show ?case by (rule converse_rtranclp_into_rtranclp [OF smove_step [OF s1(1)] Cons.IH [OF s1(2)]])
qed simp

lemma steps_reachable: "(seg_step nseg d)\<^sup>*\<^sup>* s s' \<Longrightarrow> seg_reachable nseg d s \<Longrightarrow> seg_reachable nseg d s'"
  by (induction rule: rtranclp_induct) (auto intro: seg_reachable.step)

definition srun_of :: "nat \<Rightarrow> 'a \<Rightarrow> 'a scmd list \<Rightarrow> 'a scmd list \<Rightarrow> ('a ssys \<Rightarrow> 'a ssys \<Rightarrow> bool) \<Rightarrow> bool" where
  "srun_of nseg d xs ys P = (case srun nseg d xs (\<lambda>_. S_Idle, segs_new) of None \<Rightarrow> False
     | Some s \<Rightarrow> (case srun nseg d ys s of None \<Rightarrow> False | Some s' \<Rightarrow> P s s'))"

lemma srun_ofD: "srun_of nseg d xs ys P \<Longrightarrow> \<exists>s s'. seg_reachable nseg d s \<and> (seg_step nseg d)\<^sup>*\<^sup>* s s' \<and> P s s'"
proof -
  assume "srun_of nseg d xs ys P"
  then obtain s s' where s: "srun nseg d xs (\<lambda>_. S_Idle, segs_new) = Some s" "srun nseg d ys s = Some s'" "P s s'"
    by (auto simp: srun_of_def split: option.splits)
  from steps_reachable [OF srun_steps [OF s(1)] seg_reachable.init] srun_steps [OF s(2)] s(3) show ?thesis by blast
qed

text \<open>\<open>True\<close> draws index 1 after \<open>False\<close> drew 0, stores first, and waits for \<open>False\<close> to publish.\<close>

definition demo_appends :: "nat scmd list" where
  "demo_appends = [SStart False 10, SRun False, SStart True 20, SRun True, SRun True, SRun True, SRun True, SRun True,
     SRun False, SRun False, SRun False, SRun False, SRun False, SRun True, SRun True]"

lemma seg_fold_published_ok:
  assumes "seg_reachable nseg d s" "(seg_step nseg d)\<^sup>*\<^sup>* s s'" "nseg \<le> 32"
  shows "fold_loop fn (snd s') (unat (sa_count (snd s))) 0 0 b =
      Some (foldl fn b (map (\<lambda>i. the (sa_log (snd s) i)) [0..<unat (sa_count (snd s))]))
    \<and> (\<forall>i < unat (sa_count (snd s)). sa_log (snd s) i \<noteq> None)"
proof
  let ?c = "sa_count (snd s)"
  have inv: "seg_inv nseg (fst s, snd s)" using seg_inv_reachable [OF assms(1,3)] by simp
  have pub: "content (snd s') (of_nat i) = sa_log (snd s) i" "sa_log (snd s) i \<noteq> None" if "i < unat ?c" for i
  proof -
    have u: "unat (of_nat i :: u32) = i" using that unat_u32_bound [of ?c] by (simp add: unat_of_nat)
    then have lt: "(of_nat i :: u32) < ?c" using that by (simp add: word_less_nat_alt)
    show "content (snd s') (of_nat i) = sa_log (snd s) i" "sa_log (snd s) i \<noteq> None"
      using seg_steps_stable [OF assms(2,1,3) lt] seg_invD(7,8) [OF inv lt] u by simp_all
  qed
  show "\<forall>i < unat ?c. sa_log (snd s) i \<noteq> None" using pub(2) by blast
  have "fold_loop fn (snd s') (unat ?c) (2 ^ 0 - 1) 0 b =
      Some (foldl fn b (map (\<lambda>i. the (sa_log (snd s) i)) [2 ^ 0 - 1..<unat ?c]))"
  proof (rule fold_loop_eq)
    fix n p assume np: "2 ^ n - 1 + p < unat ?c" "p < 2 ^ n"
    from pub [OF np(1)] locate_pos [OF np(2,1)]
    show "\<exists>f. sa_seg (snd s') n = Some f \<and> f p = the (sa_log (snd s) (2 ^ n - 1 + p))"
      by (auto simp: content_def map_option_case split: option.splits)
  qed simp
  then show "fold_loop fn (snd s') (unat ?c) 0 0 b = Some (foldl fn b (map (\<lambda>i. the (sa_log (snd s) i)) [0..<unat ?c]))"
    by simp
qed

section \<open>Properties\<close>

text \<open>
  the index map is exact: index w lies in segment n at position p with w = 2 ^ n - 1 + p and p < 2 ^ n, no two
  indices share a place, and every place below 2 ^ 32 - 1 is the place of its index. Only the last index, whose
  successor wraps to 0, has none (\<open>__builtin_clzll\<close> of zero).
\<close>

theorem seg_locate_exact:
  "(locate w = None \<longleftrightarrow> w = - 1)
    \<and> (w \<noteq> - 1 \<longrightarrow> (locate w = Some (n, p) \<longleftrightarrow> unat w = 2 ^ n - 1 + p \<and> p < 2 ^ n))"
proof (intro conjI impI)
  show n: "locate w = None \<longleftrightarrow> w = - 1" using locate_spec [of w] by (cases "w = - 1") (auto simp: locate_def)
  assume w: "w \<noteq> - 1"
  show "locate w = Some (n, p) \<longleftrightarrow> unat w = 2 ^ n - 1 + p \<and> p < 2 ^ n"
  proof
    assume "locate w = Some (n, p)"
    with locate_spec [OF w] show "unat w = 2 ^ n - 1 + p \<and> p < 2 ^ n" by auto
  next
    assume u: "unat w = 2 ^ n - 1 + p \<and> p < 2 ^ n"
    have "unat w \<noteq> unat (- 1 :: u32)" using w by (simp add: word_unat_eq_iff)
    then have "unat w < unat (- 1 :: u32)" using unat_max unat_u32_bound [of w] by simp
    with locate_pos [of p n "- 1"] u have "locate (of_nat (2 ^ n - 1 + p)) = Some (n, p)" by simp
    moreover have "of_nat (2 ^ n - 1 + p) = w" using u [THEN conjunct1, symmetric] by simp
    ultimately show "locate w = Some (n, p)" by simp
  qed
qed

theorem seg_locate_exact_witness: "locate 5 = Some (2, 2)"
  using seg_locate_exact [of 5 2 2] by simp

text \<open>
  C25: a reader that has read the count folds over exactly the values that were appended at the indices below it, in
  order, without meeting a null segment, in every interleaving of appending threads and although they go on appending
  while it reads: what is published stays as it is.
\<close>

theorem seg_fold_published:
  assumes "seg_reachable nseg d s" "(seg_step nseg d)\<^sup>*\<^sup>* s s'" "nseg \<le> 32"
  shows "fold_loop fn (snd s') (unat (sa_count (snd s))) 0 0 b =
      Some (foldl fn b (map (\<lambda>i. the (sa_log (snd s) i)) [0..<unat (sa_count (snd s))]))
    \<and> (\<forall>i < unat (sa_count (snd s)). sa_log (snd s) i \<noteq> None)"
  by (rule seg_fold_published_ok [OF assms])

theorem seg_fold_published_witness:
  "\<exists>(s :: nat ssys) (s' :: nat ssys). seg_reachable 2 0 s \<and> sa_count (snd s) = 2 \<and> sa_prev (snd s') = 3
    \<and> fold_loop (\<lambda>xs x. xs @ [x]) (snd s') 2 0 0 [] = Some (map (\<lambda>i. the (sa_log (snd s) i)) [0..<2]) \<and> sa_log (snd s) 1 \<noteq> None"
proof -
  have "srun_of 2 0 demo_appends [SStart True 30, SRun True]
      (\<lambda>s s'. sa_count (snd s) = 2 \<and> sa_prev (snd s') = (3 :: u32))"
    by code_simp
  from srun_ofD [OF this] obtain s :: "nat ssys" and s' :: "nat ssys" where s: "seg_reachable 2 0 s" "(seg_step 2 0)\<^sup>*\<^sup>* s s'"
    "sa_count (snd s) = 2" "sa_prev (snd s') = 3" by blast
  have id: "foldl (\<lambda>xs x. xs @ [x]) [] ys = ys" for ys :: "nat list" by (induction ys rule: rev_induct) simp_all
  have u: "unat (sa_count (snd s)) = 2" using s(3) by simp
  have "fold_loop (\<lambda>xs x. xs @ [x]) (snd s') 2 0 0 [] = Some (map (\<lambda>i. the (sa_log (snd s) i)) [0..<2])"
    using seg_fold_published [OF s(1,2), of "\<lambda>xs x. xs @ [x]" "[]"] unfolding u id by simp
  moreover have "sa_log (snd s) 1 \<noteq> None" using seg_fold_published [OF s(1,2), of "\<lambda>xs x. xs @ [x]" "[]"] u by simp
  ultimately show ?thesis using s by blast
qed

text \<open>Each segment that holds a published value is deleted, and none twice.\<close>

lemma segs_destroy_published:
  assumes "seg_reachable nseg d (T, m)" "nseg \<le> 32" "w < sa_count m"
  shows "\<exists>n p. locate w = Some (n, p) \<and> n \<in> set (segs_destroy nseg m) \<and> distinct (segs_destroy nseg m)"
proof -
  note i = seg_invD [OF seg_inv_reachable [OF assms(1,2)]]
  have "unat w < 2 ^ nseg - 1" using assms(3) i(1,2) by (simp add: word_less_nat_alt word_le_nat_alt)
  from locate_seg [OF this assms(2)] obtain n p where l: "locate w = Some (n, p)" "n < nseg" by blast
  have "content m w \<noteq> None" using i(7,8) [OF assms(3)] by simp
  then have "sa_seg m n \<noteq> None" using content_None [OF l(1), of m] by simp
  with l show ?thesis by (simp add: segs_destroy_def)
qed

text \<open>
  the wait of an append is never mutual: as long as some append has drawn an index, the thread with the smallest one
  that is not published has a step other than another round of its wait.
\<close>

theorem seg_append_progress:
  assumes "seg_reachable nseg d (T, m)" "nseg \<le> 32" "index_of (T t) \<noteq> None"
  shows "\<exists>u p m'. index_of (T u) = Some (sa_count m) \<and> (p, m') \<in> set (sstep nseg d (T u) m) \<and> p \<noteq> T u"
proof -
  note i = seg_invD [OF seg_inv_reachable [OF assms(1,2)]]
  obtain w where w: "index_of (T t) = Some w" using assms(3) by auto
  have "sa_count m < sa_prev m" using i(3,4) [OF w] by simp
  with i(6) [of "sa_count m"] obtain u where u: "index_of (T u) = Some (sa_count m)" by auto
  have "unat (sa_count m) < 2 ^ nseg - 1" using \<open>sa_count m < sa_prev m\<close> i(2) by (simp add: word_less_nat_alt)
  from locate_seg [OF this assms(2)] obtain n q where l: "locate (sa_count m) = Some (n, q)" "n < nseg" by blast
  have "\<exists>p m'. (p, m') \<in> set (sstep nseg d (T u) m) \<and> p \<noteq> T u"
  proof (cases "T u")
    case (S_Store v x)
    then have "content m (sa_count m) \<noteq> None" using i(9) [of u] u by simp
    then have "sa_seg m n \<noteq> None" using content_None [OF l(1), of m] by simp
    then obtain f where "sa_seg m n = Some f" by auto
    with S_Store u l show ?thesis by auto
  qed (use u l in auto)
  with u show ?thesis by blast
qed

theorem seg_append_progress_witness:
  "\<exists>(T :: bool \<Rightarrow> nat spc) m u p m'. index_of (T True) = Some 1 \<and> sa_count m = 0 \<and> index_of (T u) = Some (sa_count m)
    \<and> (p, m') \<in> set (sstep 2 0 (T u) m) \<and> p \<noteq> T u"
proof -
  have "srun_of 2 0 (take 8 demo_appends) [] (\<lambda>s s'. index_of (fst s True) = Some 1 \<and> sa_count (snd s) = (0 :: u32))"
    by code_simp
  from srun_ofD [OF this] obtain T :: "bool \<Rightarrow> nat spc" and m
    where s: "seg_reachable 2 0 (T, m)" "index_of (T True) = Some 1" "sa_count m = (0 :: u32)"
    by force
  from seg_append_progress [OF s(1), of True] s(2,3) show ?thesis by fastforce
qed

end
