(* ===== verification/Frame_Allocator.thy ===== *)
theory Frame_Allocator
  imports Round_Up
begin

text \<open>
  \<open>__allocator.hpp\<close>: the per-thread allocator of coroutine frames, a stack of frames in a chain of chunks
  of growing size. Addresses are natural numbers (a flat address space, in which adding to a pointer does not
  wrap); sizes are \<open>std::size_t\<close>. The prefixes of chunks and frames are fields over addresses.
  \<open>operator new\<close> is the parameter \<open>new\<close>: given the live blocks and a size it returns the address of the new
  block; \<open>new_ok\<close> is its documented contract. \<open>fa_blocks\<close> is auxiliary: the live blocks, newest first.
\<close>

section \<open>State and operations\<close>

record falloc =
  f_next :: "(nat, nat ptr) field"
  f_limit :: "(nat, nat) field"
  fp_chunk :: "(nat, nat ptr) field"
  fp_bump :: "(nat, nat) field"
  fa_chunk :: "nat ptr"
  fa_cur :: "nat ptr"
  fa_bump :: nat
  fa_cap :: u64
  fa_blocks :: "(nat \<times> nat) list"

type_synonym heap_new = "(nat \<times> nat) list \<Rightarrow> nat \<Rightarrow> nat"

definition falloc_new :: "(nat, nat ptr) field \<Rightarrow> (nat, nat) field \<Rightarrow> (nat, nat ptr) field \<Rightarrow> (nat, nat) field \<Rightarrow> falloc" where
  "falloc_new nx lim pc pb = \<lparr>f_next = nx, f_limit = lim, fp_chunk = pc, fp_bump = pb,
     fa_chunk = nullptr, fa_cur = nullptr, fa_bump = 0, fa_cap = 1024, fa_blocks = []\<rparr>"

definition allocate_chunk :: "heap_new \<Rightarrow> u64 \<Rightarrow> falloc \<Rightarrow> nat \<times> falloc" where
  "allocate_chunk new hint s =
     (let cap = (if fa_cap s < hint then hint else fa_cap s);
          n = unat (16 + cap);
          vp = new (fa_blocks s) n;
          s1 = s\<lparr>f_next := (f_next s)(vp := nullptr), f_limit := (f_limit s)(vp := vp + n), fa_blocks := (vp, n) # fa_blocks s\<rparr>;
          s2 = (case fa_cur s of None \<Rightarrow> s1\<lparr>fa_chunk := Some vp\<rparr> | Some c \<Rightarrow> s1\<lparr>f_next := (f_next s1)(c := Some vp)\<rparr>)
      in (vp, s2\<lparr>fa_cap := cap * 2\<rparr>))"

partial_function (option) frame_loop ::
  "heap_new \<Rightarrow> u64 \<Rightarrow> nat ptr \<Rightarrow> nat \<Rightarrow> falloc \<Rightarrow> (nat \<times> falloc) ub" where
  "frame_loop new n sc sb s =
     Option.bind (fa_cur s) (\<lambda>c. let r = fa_bump s + 16 in
       if r + unat n \<le> f_limit s c
       then Some (r, s\<lparr>fp_chunk := (fp_chunk s)(fa_bump s := sc), fp_bump := (fp_bump s)(fa_bump s := sb),
                       fa_bump := fa_bump s + unat n\<rparr>)
       else (case f_next s c of
           Some c' \<Rightarrow> frame_loop new n sc sb (s\<lparr>fa_cur := Some c', fa_bump := c' + 16\<rparr>)
         | None \<Rightarrow> (case allocate_chunk new n s of
             (c', s') \<Rightarrow> frame_loop new n sc sb (s'\<lparr>fa_cur := Some c', fa_bump := c' + 16\<rparr>))))"

definition frame_size :: "u64 \<Rightarrow> u64" where
  "frame_size sz = round_up (16 + sz) 16"

definition push_stack_frame :: "heap_new \<Rightarrow> u64 \<Rightarrow> falloc \<Rightarrow> (nat \<times> falloc) ub" where
  "push_stack_frame new sz s =
     (let n = frame_size sz;
          s1 = (case fa_cur s of
              None \<Rightarrow> (case allocate_chunk new n s of (c, s') \<Rightarrow> s'\<lparr>fa_cur := Some c, fa_bump := c + 16\<rparr>)
            | Some _ \<Rightarrow> s)
      in frame_loop new n (fa_cur s1) (fa_bump s1) s1)"

definition pop_stack_frame :: "nat \<Rightarrow> falloc \<Rightarrow> falloc" where
  "pop_stack_frame r s = s\<lparr>fa_cur := fp_chunk s (r - 16), fa_bump := fp_bump s (r - 16)\<rparr>"

text \<open>The destructor: the chunks it deletes, in order.\<close>

partial_function (option) destroy_loop :: "(nat, nat ptr) field \<Rightarrow> nat ptr \<Rightarrow> nat list ub" where
  "destroy_loop nx h = (case h of None \<Rightarrow> Some [] | Some c \<Rightarrow> Option.bind (destroy_loop nx (nx c)) (\<lambda>cs. Some (c # cs)))"

definition falloc_destroy :: "falloc \<Rightarrow> nat list ub" where
  "falloc_destroy s = destroy_loop (f_next s) (fa_chunk s)"

section \<open>Contract of the heap and the invariant\<close>

definition new_ok :: "heap_new \<Rightarrow> bool" where
  "new_ok new \<longleftrightarrow> (\<forall>bs n. 0 < new bs n \<and> 16 dvd new bs n \<and> (\<forall>(b, k) \<in> set bs. new bs n + n \<le> b \<or> b + k \<le> new bs n))"

text \<open>A heap that never reuses an address.\<close>

definition bump_new :: heap_new where
  "bump_new bs n = 16 * Suc (sum_list (map (\<lambda>(b, k). b + k) bs))"

lemma bump_new_ok: "new_ok bump_new"
proof -
  have *: "b + k \<le> sum_list (map (\<lambda>(b, k). b + k) bs)" if "(b, k) \<in> set bs" for b k and bs :: "(nat \<times> nat) list"
    using that by (induction bs) auto
  show ?thesis unfolding new_ok_def bump_new_def by (auto dest!: *)
qed

text \<open>\<open>before cs x y\<close>: \<open>x\<close> stands before \<open>y\<close> in the chain.\<close>

definition before :: "'a list \<Rightarrow> 'a \<Rightarrow> 'a \<Rightarrow> bool" where
  "before cs x y \<longleftrightarrow> (\<exists>xs ys zs. cs = xs @ x # ys @ y # zs)"

definition chunks_ok :: "falloc \<Rightarrow> nat list \<Rightarrow> bool" where
  "chunks_ok s cs \<longleftrightarrow> lseg (f_next s) (fa_chunk s) cs None
     \<and> fa_blocks s = rev (map (\<lambda>c. (c, f_limit s c - c)) cs)
     \<and> (\<forall>c \<in> set cs. c + 16 \<le> f_limit s c \<and> 16 dvd c \<and> 0 < c)
     \<and> (\<forall>c \<in> set cs. \<forall>d \<in> set cs. c \<noteq> d \<longrightarrow> f_limit s c \<le> d \<or> f_limit s d \<le> c)
     \<and> 32 dvd unat (fa_cap s)"

text \<open>
  \<open>frames s cs c b fs\<close>: with the bump pointer at \<open>b\<close> in chunk \<open>c\<close>, the live frames are \<open>fs\<close>, newest first, each
  a prefix address and a length.
\<close>

fun frames :: "falloc \<Rightarrow> nat list \<Rightarrow> nat \<Rightarrow> nat \<Rightarrow> (nat \<times> nat) list \<Rightarrow> bool" where
  "frames s cs c b [] \<longleftrightarrow> True"
| "frames s cs c b ((q, n) # fs) \<longleftrightarrow> b = q + n \<and> 16 \<le> n \<and> 16 dvd n \<and> c + 16 \<le> q \<and> b + 16 \<le> f_limit s c
     \<and> (\<exists>c'. fp_chunk s q = Some c' \<and> (c' = c \<and> fp_bump s q = q \<or> before cs c' c)
       \<and> c' + 16 \<le> fp_bump s q \<and> 16 dvd fp_bump s q \<and> frames s cs c' (fp_bump s q) fs)"

definition falloc_ok :: "falloc \<Rightarrow> nat list \<Rightarrow> (nat \<times> nat) list \<Rightarrow> bool" where
  "falloc_ok s cs fs \<longleftrightarrow> chunks_ok s cs
     \<and> (case fa_cur s of None \<Rightarrow> cs = [] \<and> fs = []
        | Some c \<Rightarrow> c \<in> set cs \<and> c + 16 \<le> fa_bump s \<and> 16 dvd fa_bump s \<and> frames s cs c (fa_bump s) fs)"

section \<open>Positions\<close>

lemma before_append: "before cs x y \<Longrightarrow> before (cs @ ys) x y"
  unfolding before_def by (metis append.assoc append_Cons)

lemma before_in: "before cs x y \<Longrightarrow> x \<in> set cs \<and> y \<in> set cs"
  by (auto simp: before_def)

lemma before_ne: "distinct cs \<Longrightarrow> before cs x y \<Longrightarrow> x \<noteq> y"
  by (auto simp: before_def)

lemma before_trans:
  assumes d: "distinct cs" and "before cs x y" "before cs y z"
  shows "before cs x z"
proof -
  obtain as bs ds where 1: "cs = as @ x # bs @ y # ds" using assms(2) by (auto simp: before_def)
  obtain es fs gs where 2: "cs = es @ y # fs @ z # gs" using assms(3) by (auto simp: before_def)
  have "(as @ x # bs) @ y # ds = es @ y # fs @ z # gs" using 1 2 by simp
  moreover have "y \<notin> set (as @ x # bs)" "y \<notin> set ds" using d 1 by auto
  ultimately have "as @ x # bs = es \<and> ds = fs @ z # gs" by (subst (asm) append_Cons_eq_iff) auto
  then have "cs = as @ x # (bs @ y # fs) @ z # gs" using 1 by simp
  then show ?thesis unfolding before_def by blast
qed

lemma before_snoc: "x \<in> set cs \<Longrightarrow> before (cs @ [y]) x y"
  unfolding before_def by (metis append.assoc append_Cons append_Nil split_list)

section \<open>Chunks\<close>

lemma chunks_okD:
  assumes "chunks_ok s cs"
  shows "lseg (f_next s) (fa_chunk s) cs None" "fa_blocks s = rev (map (\<lambda>c. (c, f_limit s c - c)) cs)"
    "c \<in> set cs \<Longrightarrow> c + 16 \<le> f_limit s c" "c \<in> set cs \<Longrightarrow> 16 dvd c" "c \<in> set cs \<Longrightarrow> 0 < c"
    "c \<in> set cs \<Longrightarrow> d \<in> set cs \<Longrightarrow> c \<noteq> d \<Longrightarrow> f_limit s c \<le> d \<or> f_limit s d \<le> c"
    "32 dvd unat (fa_cap s)" "distinct cs"
  using assms lseg_distinct unfolding chunks_ok_def by blast+

lemma cap_bounds:
  assumes cap: "32 dvd unat (cap :: u64)" and hint: "16 dvd unat (hint :: u64)" "unat hint \<le> 2 ^ 61"
  defines "k \<equiv> (if cap < hint then hint else cap)"
  shows "unat (16 + k) = 16 + unat k" "32 dvd unat (k * 2)" "unat hint \<le> unat k"
    "unat k < unat hint + 16 \<Longrightarrow> unat (k * 2) = 2 * unat k"
proof -
  have "unat k + 32 \<le> 2 ^ 64"
  proof (cases "cap < hint")
    case False
    obtain j where j: "unat cap = 32 * j" using cap by (rule dvdE)
    with unat_u64_bound [of cap] have "32 * j < 32 * 2 ^ 59" by simp
    then have "32 * Suc j \<le> 32 * 2 ^ 59" by simp
    with j False show ?thesis by (simp add: k_def)
  qed (use hint in \<open>simp add: k_def\<close>)
  then show "unat (16 + k) = 16 + unat k" by (simp add: unat_word_ariths)
  have d: "16 dvd unat k" using cap hint by (auto simp: k_def intro: dvd_trans [of 16 32])
  have m: "unat (k * 2) = (2 * unat k) mod 2 ^ 64" by (simp add: unat_word_ariths mult.commute)
  have "32 dvd 2 * unat k" using d by (auto simp: dvd_def)
  then show "32 dvd unat (k * 2)" unfolding m by (rule dvd_mod) simp
  show "unat hint \<le> unat k" by (simp add: k_def word_less_nat_alt)
  show "unat (k * 2) = 2 * unat k" if "unat k < unat hint + 16" using that hint m by simp
qed

lemma allocate_chunk_ok:
  assumes ok: "chunks_ok s cs" and new: "new_ok new" and hint: "16 dvd unat hint" "unat hint \<le> 2 ^ 61"
    and cur: "fa_cur s = (if cs = [] then None else Some (last cs))"
  defines "k \<equiv> (if fa_cap s < hint then hint else fa_cap s)"
  obtains vp s' where "allocate_chunk new hint s = (vp, s')" "chunks_ok s' (cs @ [vp])" "vp \<notin> set cs"
    "f_limit s' vp = vp + 16 + unat k" "\<And>d. d \<in> set cs \<Longrightarrow> f_limit s' d = f_limit s d"
    "fp_chunk s' = fp_chunk s" "fp_bump s' = fp_bump s" "fa_cap s' = k * 2"
proof -
  note c = chunks_okD [OF ok]
  note b = cap_bounds [OF c(7) hint, folded k_def]
  define n where "n = unat (16 + k)"
  define vp where "vp = new (fa_blocks s) n"
  have n: "n = 16 + unat k" unfolding n_def by (rule b(1))
  have a: "0 < vp" "16 dvd vp" using new by (simp_all add: new_ok_def vp_def)
  have sep: "vp + n \<le> d \<or> f_limit s d \<le> vp" if "d \<in> set cs" for d
  proof -
    have "(d, f_limit s d - d) \<in> set (fa_blocks s)" using that c(2) by auto
    then have "vp + n \<le> d \<or> d + (f_limit s d - d) \<le> vp" using new unfolding new_ok_def vp_def by blast
    then show ?thesis using c(3) [OF that] by simp
  qed
  have fresh: "vp \<notin> set cs" using sep n c(3) by fastforce
  define s2 where "s2 = snd (allocate_chunk new hint s)"
  have al: "allocate_chunk new hint s = (vp, s2)"
    by (simp add: allocate_chunk_def s2_def Let_def vp_def n_def k_def)
  have f: "f_limit s2 = (f_limit s)(vp := vp + n)" "fa_blocks s2 = (vp, n) # fa_blocks s" "fa_cap s2 = k * 2"
    "fp_chunk s2 = fp_chunk s" "fp_bump s2 = fp_bump s"
    by (auto simp: allocate_chunk_def s2_def Let_def vp_def n_def k_def split: option.split)
  have ch: "lseg (f_next s2) (fa_chunk s2) (cs @ [vp]) None"
  proof (cases "cs = []")
    case True
    with cur show ?thesis by (simp add: allocate_chunk_def s2_def Let_def vp_def n_def k_def)
  next
    case False
    have nx: "f_next s2 = (f_next s)(vp := None, last cs := Some vp)" "fa_chunk s2 = fa_chunk s"
      using cur False by (simp_all add: allocate_chunk_def s2_def Let_def vp_def n_def k_def)
    have "lseg ((f_next s)(vp := None)) (fa_chunk s) cs None" using c(1) fresh by simp
    from lseg_redirect [OF this False c(8)] have "lseg (f_next s2) (fa_chunk s2) cs (Some vp)" unfolding nx .
    moreover have "f_next s2 vp = None" using nx fresh False by auto
    ultimately show ?thesis by (auto simp: lseg_append)
  qed
  have lim: "f_limit s2 d = f_limit s d" if "d \<in> set cs" for d using that fresh f(1) by auto
  have "chunks_ok s2 (cs @ [vp])"
    unfolding chunks_ok_def
  proof (intro conjI ballI impI)
    have "map (\<lambda>c. (c, f_limit s2 c - c)) cs = map (\<lambda>c. (c, f_limit s c - c)) cs" using lim by simp
    then show "fa_blocks s2 = rev (map (\<lambda>c. (c, f_limit s2 c - c)) (cs @ [vp]))" using f(1,2) c(2) by simp
    show "f_limit s2 x \<le> y \<or> f_limit s2 y \<le> x" if "x \<in> set (cs @ [vp])" "y \<in> set (cs @ [vp])" "x \<noteq> y" for x y
      using that sep [of x] sep [of y] c(6) [of x y] lim [of x] lim [of y] f(1) by auto
    show "32 dvd unat (fa_cap s2)" unfolding f(3) by (rule b(2))
  qed (use ch c(3,4,5) lim f(1) n a in auto)
  with al fresh lim f n show thesis by (intro that) auto
qed

lemma chunks_ok_simps [simp]:
  "chunks_ok (s\<lparr>fa_cur := c\<rparr>) cs = chunks_ok s cs" "chunks_ok (s\<lparr>fa_bump := b\<rparr>) cs = chunks_ok s cs"
  "chunks_ok (s\<lparr>fp_chunk := pc\<rparr>) cs = chunks_ok s cs" "chunks_ok (s\<lparr>fp_bump := pb\<rparr>) cs = chunks_ok s cs"
  by (simp_all add: chunks_ok_def)

section \<open>The search for room\<close>

text \<open>A frame placed at or after the current position, with at most \<open>k\<close> new chunks.\<close>

definition placed :: "nat \<Rightarrow> u64 \<Rightarrow> nat ptr \<Rightarrow> nat \<Rightarrow> falloc \<Rightarrow> nat list \<Rightarrow> nat \<Rightarrow> (nat \<times> falloc) ub \<Rightarrow> bool" where
  "placed k n sc sb s cs c res \<longleftrightarrow> (\<exists>ys q c2 s'. res = Some (q + 16, s') \<and> length ys \<le> k \<and> chunks_ok s' (cs @ ys)
     \<and> fa_cur s' = Some c2 \<and> c2 \<in> set (cs @ ys) \<and> (c2 = c \<and> q = fa_bump s \<or> before (cs @ ys) c c2 \<and> q = c2 + 16)
     \<and> fa_bump s' = q + unat n \<and> q + 16 + unat n \<le> f_limit s' c2
     \<and> fp_chunk s' = (fp_chunk s)(q := sc) \<and> fp_bump s' = (fp_bump s)(q := sb)
     \<and> (\<forall>d \<in> set cs. f_limit s' d = f_limit s d))"

lemma placed_fit:
  assumes "chunks_ok s cs" "fa_cur s = Some c" "c \<in> set cs" "fa_bump s + 16 + unat n \<le> f_limit s c"
  shows "placed k n sc sb s cs c (frame_loop new n sc sb s)"
  unfolding placed_def
  by (subst frame_loop.simps)
    (use assms in \<open>auto simp: Let_def intro!: exI [of _ "[]"] exI [of _ "fa_bump s"]\<close>)

lemma placed_move:
  assumes d: "distinct (cs @ zs)" and b: "before (cs @ zs) c c'" and k: "length zs + j \<le> k"
    and p: "placed j n sc sb s1 (cs @ zs) c' res" and s1: "fa_bump s1 = c' + 16" "fp_chunk s1 = fp_chunk s" "fp_bump s1 = fp_bump s"
      "\<And>d. d \<in> set cs \<Longrightarrow> f_limit s1 d = f_limit s d"
  shows "placed k n sc sb s cs c res"
proof -
  from p obtain ys q c2 s' where r: "res = Some (q + 16, s')" "length ys \<le> j" "chunks_ok s' ((cs @ zs) @ ys)"
    "fa_cur s' = Some c2" "c2 \<in> set ((cs @ zs) @ ys)" "c2 = c' \<and> q = c' + 16 \<or> before ((cs @ zs) @ ys) c' c2 \<and> q = c2 + 16"
    "fa_bump s' = q + unat n" "q + 16 + unat n \<le> f_limit s' c2" "fp_chunk s' = (fp_chunk s)(q := sc)"
    "fp_bump s' = (fp_bump s)(q := sb)" "\<forall>d \<in> set (cs @ zs). f_limit s' d = f_limit s1 d"
    unfolding placed_def s1(1-3) by blast
  have b': "before ((cs @ zs) @ ys) c c'" by (rule before_append [OF b])
  have "before (cs @ zs @ ys) c c2 \<and> q = c2 + 16"
    using r(6) b' before_trans [OF chunks_okD(8) [OF r(3)] b'] by auto
  with r k s1(4) show ?thesis
    unfolding placed_def by (intro exI [of _ "zs @ ys"] exI [of _ q] exI [of _ c2] exI [of _ s']) auto
qed

lemma placed_new:
  assumes ok: "chunks_ok s (xs @ [c])" and new: "new_ok new" and n: "16 dvd unat n" "unat n \<le> 2 ^ 61"
    and cur: "fa_cur s = Some c" and full: "\<not> fa_bump s + 16 + unat n \<le> f_limit s c"
    and rest: "\<And>s' cs vp. chunks_ok s' (cs @ [vp]) \<Longrightarrow> fa_cur s' = Some vp \<Longrightarrow> fa_bump s' = vp + 16 \<Longrightarrow>
      f_limit s' vp = vp + 16 + unat (if fa_cap s < n then n else fa_cap s) \<Longrightarrow>
      fa_cap s' = (if fa_cap s < n then n else fa_cap s) * 2 \<Longrightarrow>
      placed j n sc sb s' (cs @ [vp]) vp (frame_loop new n sc sb s')"
  shows "placed (Suc j) n sc sb s (xs @ [c]) c (frame_loop new n sc sb s)"
proof -
  have cur': "fa_cur s = (if xs @ [c] = [] then None else Some (last (xs @ [c])))" using cur by simp
  obtain vp s' where a: "allocate_chunk new n s = (vp, s')" "chunks_ok s' ((xs @ [c]) @ [vp])" "vp \<notin> set (xs @ [c])"
    "f_limit s' vp = vp + 16 + unat (if fa_cap s < n then n else fa_cap s)"
    "\<And>d. d \<in> set (xs @ [c]) \<Longrightarrow> f_limit s' d = f_limit s d" "fp_chunk s' = fp_chunk s" "fp_bump s' = fp_bump s"
    "fa_cap s' = (if fa_cap s < n then n else fa_cap s) * 2"
    using allocate_chunk_ok [OF ok new n cur'] by blast
  have "f_next s c = None" using chunks_okD(1) [OF ok] by (simp add: lseg_append)
  then have loop: "frame_loop new n sc sb s = frame_loop new n sc sb (s'\<lparr>fa_cur := Some vp, fa_bump := vp + 16\<rparr>)"
    using cur full a(1) by (subst frame_loop.simps) (simp add: Let_def)
  have p: "placed j n sc sb (s'\<lparr>fa_cur := Some vp, fa_bump := vp + 16\<rparr>) ((xs @ [c]) @ [vp]) vp
      (frame_loop new n sc sb (s'\<lparr>fa_cur := Some vp, fa_bump := vp + 16\<rparr>))"
    by (rule rest) (use a in simp_all)
  show ?thesis unfolding loop
    by (rule placed_move [OF chunks_okD(8) [OF a(2)] before_snoc _ p]) (use a in simp_all)
qed

text \<open>
  A new chunk of exactly the size asked for is 16 bytes short of the test \<open>__r + __n <= __limit_\<close>, which counts
  the prefix twice; the chunk after it has twice that size.
\<close>

lemma placed_fresh:
  assumes ok: "chunks_ok s (xs @ [c])" and new: "new_ok new" and n: "16 dvd unat n" "unat n \<le> 2 ^ 61" "16 \<le> unat n"
    and cur: "fa_cur s = Some c" "fa_bump s = c + 16"
    and cap: "32 dvd unat cap" and k: "k = (if cap < n then n else cap)" "f_limit s c = c + 16 + unat k" "fa_cap s = k * 2"
  shows "placed 1 n sc sb s (xs @ [c]) c (frame_loop new n sc sb s)"
proof (cases "unat n + 16 \<le> unat k")
  case True
  then show ?thesis by (intro placed_fit) (use assms in simp_all)
next
  case False
  note kb = cap_bounds [OF cap n(1,2), folded k(1)]
  have k2: "unat (k * 2) = 2 * unat k" using False kb(4) by simp
  have "placed (Suc 0) n sc sb s (xs @ [c]) c (frame_loop new n sc sb s)"
  proof (rule placed_new [OF ok new n(1,2) cur(1)])
    show "\<not> fa_bump s + 16 + unat n \<le> f_limit s c" using False cur(2) k(2) by simp
    fix s' cs vp assume s': "chunks_ok s' (cs @ [vp])" "fa_cur s' = Some vp" "fa_bump s' = vp + 16"
      "f_limit s' vp = vp + 16 + unat (if fa_cap s < n then n else fa_cap s)"
    have "unat n + 16 \<le> unat (k * 2)" using k2 kb(3) n(3) by simp
    moreover have "\<not> k * 2 < n" using calculation by (simp add: word_less_nat_alt)
    ultimately show "placed 0 n sc sb s' (cs @ [vp]) vp (frame_loop new n sc sb s')"
      by (intro placed_fit) (use s' k(3) in simp_all)
  qed
  then show ?thesis by simp
qed

lemma placed_last:
  assumes ok: "chunks_ok s (xs @ [c])" and new: "new_ok new" and n: "16 dvd unat n" "unat n \<le> 2 ^ 61" "16 \<le> unat n"
    and cur: "fa_cur s = Some c"
  shows "placed 2 n sc sb s (xs @ [c]) c (frame_loop new n sc sb s)"
proof (cases "fa_bump s + 16 + unat n \<le> f_limit s c")
  case False
  have "placed (Suc 1) n sc sb s (xs @ [c]) c (frame_loop new n sc sb s)"
    by (rule placed_new [OF ok new n(1,2) cur False], rule placed_fresh [OF _ new n _ _ chunks_okD(7) [OF ok] refl]) simp_all
  then show ?thesis by (simp add: numeral_2_eq_2)
qed (use placed_fit [OF ok cur] in simp)

lemma frame_loop_ok:
  assumes "chunks_ok s (xs @ c # rest)" "new_ok new" "16 dvd unat n" "unat n \<le> 2 ^ 61" "16 \<le> unat n" "fa_cur s = Some c"
  shows "placed 2 n sc sb s (xs @ c # rest) c (frame_loop new n sc sb s)"
  using assms
proof (induction rest arbitrary: xs c s)
  case Nil
  then show ?case using placed_last by simp
next
  case (Cons c' rest)
  show ?case
  proof (cases "fa_bump s + 16 + unat n \<le> f_limit s c")
    case False
    let ?s = "s\<lparr>fa_cur := Some c', fa_bump := c' + 16\<rparr>"
    have "f_next s c = Some c'" using chunks_okD(1) [OF Cons.prems(1)] by (auto simp: lseg_append)
    then have loop: "frame_loop new n sc sb s = frame_loop new n sc sb ?s"
      using False Cons.prems(6) by (subst frame_loop.simps) (simp add: Let_def)
    have eq: "xs @ c # c' # rest = (xs @ [c]) @ c' # rest" by simp
    have p: "placed 2 n sc sb ?s ((xs @ c # c' # rest) @ []) c' (frame_loop new n sc sb ?s)"
      using Cons.IH [of ?s "xs @ [c]" c'] Cons.prems unfolding eq by simp
    have "before (xs @ c # [] @ c' # rest) c c'" unfolding before_def by blast
    then have b: "before ((xs @ c # c' # rest) @ []) c c'" by simp
    show ?thesis unfolding loop
      by (rule placed_move [OF _ b _ p]) (use chunks_okD(8) [OF Cons.prems(1)] in simp_all)
  qed (use placed_fit Cons.prems in simp)
qed

section \<open>The stack of frames\<close>

lemma frame_size_ok:
  assumes "unat sz \<le> 2 ^ 60"
  shows "16 dvd unat (frame_size sz)" "unat (frame_size sz) \<le> 2 ^ 61" "16 \<le> unat (frame_size sz)"
    "unat sz + 16 \<le> unat (frame_size sz)"
proof -
  have u: "unat (16 + sz) = 16 + unat sz" using assms by (simp add: unat_word_ariths)
  have "unat (frame_size sz) = align_up (16 + unat sz) 16"
    unfolding frame_size_def using round_up_align [of 4 "16 + sz"] u assms by simp
  then show "16 dvd unat (frame_size sz)" "unat (frame_size sz) \<le> 2 ^ 61" "16 \<le> unat (frame_size sz)"
    "unat sz + 16 \<le> unat (frame_size sz)"
    using align_up_ge [of 16 "16 + unat sz"] align_up_less [of 16 "16 + unat sz"] assms by simp_all
qed

text \<open>Every live frame lies below the current position.\<close>

lemma frames_below:
  assumes d: "distinct cs"
  shows "frames s cs c b fs \<Longrightarrow> c \<in> set cs \<Longrightarrow> (q, n) \<in> set fs \<Longrightarrow>
    \<exists>e. (e = c \<and> q + n \<le> b \<or> before cs e c) \<and> e \<in> set cs \<and> e + 16 \<le> q \<and> q + n + 16 \<le> f_limit s e \<and> 16 \<le> n"
proof (induction fs arbitrary: c b)
  case (Cons f fs)
  obtain q0 n0 where f: "f = (q0, n0)" by fastforce
  from Cons.prems(1) f obtain c' where c': "b = q0 + n0" "16 \<le> n0" "c + 16 \<le> q0" "b + 16 \<le> f_limit s c"
    "c' = c \<and> fp_bump s q0 = q0 \<or> before cs c' c" "frames s cs c' (fp_bump s q0) fs" by auto
  show ?case
  proof (cases "(q, n) = f")
    case True
    with f c' Cons.prems(2) show ?thesis by (intro exI [of _ c]) auto
  next
    case False
    have "c' \<in> set cs" using c'(5) Cons.prems(2) before_in [of cs c' c] by auto
    from Cons.IH [OF c'(6) this] False Cons.prems(3)
    obtain e where e: "e = c' \<and> q + n \<le> fp_bump s q0 \<or> before cs e c'"
      "e \<in> set cs" "e + 16 \<le> q" "q + n + 16 \<le> f_limit s e" "16 \<le> n" by auto
    have "e = c \<and> q + n \<le> b \<or> before cs e c"
      using e(1) c'(1,5) before_trans [OF d, of e c' c] by auto
    with e show ?thesis by blast
  qed
qed simp

lemma frames_cong:
  assumes "\<And>e. e \<in> set cs \<Longrightarrow> f_limit s' e = f_limit s e"
    and "\<And>q n. (q, n) \<in> set fs \<Longrightarrow> fp_chunk s' q = fp_chunk s q \<and> fp_bump s' q = fp_bump s q"
  shows "frames s cs c b fs \<Longrightarrow> c \<in> set cs \<Longrightarrow> frames s' (cs @ ys) c b fs"
  using assms(2)
proof (induction fs arbitrary: c b)
  case (Cons f fs)
  obtain q n where f: "f = (q, n)" by fastforce
  have fp: "fp_chunk s' q = fp_chunk s q" "fp_bump s' q = fp_bump s q" using Cons.prems(3) f by auto
  from Cons.prems(1) f obtain c' where c': "fp_chunk s q = Some c'" "c' = c \<and> fp_bump s q = q \<or> before cs c' c"
    "frames s cs c' (fp_bump s q) fs" by auto
  have "c' \<in> set cs" using c'(2) Cons.prems(2) before_in [of cs c' c] by auto
  from Cons.IH [OF c'(3) this] Cons.prems(3) have "frames s' (cs @ ys) c' (fp_bump s q) fs" by auto
  with Cons.prems(1,2) f fp c'(1,2) assms(1) [of c] before_append [of cs c' c ys] show ?case by auto
qed simp

text \<open>The extents of two frames do not meet.\<close>

definition apart :: "nat \<times> nat \<Rightarrow> nat \<times> nat \<Rightarrow> bool" where
  "apart f g \<longleftrightarrow> fst f + snd f \<le> fst g \<or> fst g + snd g \<le> fst f"

lemma place_apart:
  assumes ok: "chunks_ok s (cs @ ys)" and fr: "frames s0 cs c b fs" and c: "c \<in> set cs" and f: "(q', n') \<in> set fs" and b: "c + 16 \<le> b"
    and lim: "\<And>e. e \<in> set cs \<Longrightarrow> f_limit s e = f_limit s0 e"
    and c2: "c2 \<in> set (cs @ ys)" "c2 = c \<and> q = b \<or> before (cs @ ys) c c2 \<and> q = c2 + 16" "q + n \<le> f_limit s c2"
  shows "apart (q, n) (q', n')"
proof -
  note D = chunks_okD [OF ok]
  from frames_below [OF _ fr c f] D(8) obtain e where
    e: "e = c \<and> q' + n' \<le> b \<or> before cs e c" "e \<in> set cs" "e + 16 \<le> q'" "q' + n' + 16 \<le> f_limit s e" "16 \<le> n'"
    using lim by auto
  show ?thesis
  proof (cases "e = c2")
    case True
    have "\<not> before (cs @ ys) c e" 
      using e(1) before_trans [OF D(8), of c e c] before_ne [OF D(8), of c c] before_append [of cs e c ys]
        before_ne [OF D(8), of c e] by auto
    with c2(2) True have "c2 = c" "q = b" by auto
    moreover have "\<not> before cs c c" using before_ne [of cs c c] D(8) by auto
    ultimately show ?thesis using e(1) True by (auto simp: apart_def)
  next
    case False
    have q: "c2 \<le> q" using c2(2) b by auto
    have "e \<in> set (cs @ ys)" using e(2) by simp
    from D(6) [OF this c2(1) False] e(3,4) c2(3) q show ?thesis by (auto simp: apart_def)
  qed
qed

lemma placed_frames:
  assumes p: "placed k n (Some c) (fa_bump s) s cs c res" and n: "16 dvd unat n" "16 \<le> unat n"
    and c: "c \<in> set cs" "c + 16 \<le> fa_bump s" "16 dvd fa_bump s" "frames s cs c (fa_bump s) fs"
  shows "\<exists>q s' ys. res = Some (q + 16, s') \<and> length ys \<le> k \<and> falloc_ok s' (cs @ ys) ((q, unat n) # fs) \<and> 16 dvd q
    \<and> fp_chunk s' q = Some c \<and> fp_bump s' q = fa_bump s \<and> (\<forall>f \<in> set fs. apart (q, unat n) f)"
proof -
  from p obtain ys q c2 s' where r: "res = Some (q + 16, s')" "length ys \<le> k" "chunks_ok s' (cs @ ys)"
    "fa_cur s' = Some c2" "c2 \<in> set (cs @ ys)" "c2 = c \<and> q = fa_bump s \<or> before (cs @ ys) c c2 \<and> q = c2 + 16"
    "fa_bump s' = q + unat n" "q + 16 + unat n \<le> f_limit s' c2" "fp_chunk s' = (fp_chunk s)(q := Some c)"
    "fp_bump s' = (fp_bump s)(q := fa_bump s)" "\<forall>d \<in> set cs. f_limit s' d = f_limit s d"
    unfolding placed_def by blast
  have q16: "16 dvd q" "c2 + 16 \<le> q" using r(6) c(2,3) chunks_okD(4) [OF r(3,5)] by auto
  have ap: "apart (q, unat n) f" if "f \<in> set fs" for f
    using place_apart [OF r(3) c(4) c(1) _ c(2) _ r(5,6), of "fst f" "snd f"] that r(8,11) by simp
  have "fst f \<noteq> q" if "f \<in> set fs" for f
  proof -
    have "16 \<le> snd f" using frames_below [OF _ c(4,1), of "fst f" "snd f"] that chunks_okD(8) [OF r(3)] by auto
    with ap [OF that] n(2) show ?thesis by (auto simp: apart_def)
  qed
  then have "frames s' (cs @ ys) c (fa_bump s) fs"
    by (intro frames_cong [OF _ _ c(4,1)]) (use r(9,10,11) in force)+
  with r q16 n c(2,3) have "falloc_ok s' (cs @ ys) ((q, unat n) # fs)"
    unfolding falloc_ok_def by auto
  with r q16(1) ap show ?thesis by auto
qed

lemma push_from_some:
  assumes ok: "falloc_ok s cs fs" "new_ok new" "unat sz \<le> 2 ^ 60" and c: "fa_cur s = Some c"
  shows "placed 2 (frame_size sz) (Some c) (fa_bump s) s cs c (push_stack_frame new sz s)"
proof -
  have ch: "chunks_ok s cs" "c \<in> set cs" using ok(1) c by (simp_all add: falloc_ok_def)
  from ch(2) obtain xs rest where cs: "cs = xs @ c # rest" by (meson split_list)
  show ?thesis
    using frame_loop_ok [OF ch(1) [unfolded cs] ok(2) frame_size_ok(1,2,3) [OF ok(3)] c] c cs
    by (simp add: push_stack_frame_def)
qed

lemma push_from_none:
  assumes ok: "falloc_ok s cs fs" "new_ok new" "unat sz \<le> 2 ^ 60" and c: "fa_cur s = None"
  obtains c s1 where "falloc_ok s1 [c] []" "fa_cur s1 = Some c" "fa_bump s1 = c + 16" "fs = []" "cs = []"
    "placed 1 (frame_size sz) (Some c) (fa_bump s1) s1 [c] c (push_stack_frame new sz s)"
proof -
  let ?n = "frame_size sz"
  have e: "chunks_ok s []" "cs = []" "fs = []" using ok(1) c by (auto simp: falloc_ok_def)
  note n = frame_size_ok [OF ok(3)]
  have "fa_cur s = (if [] = [] then None else Some (last ([] :: nat list)))" using c by simp
  from allocate_chunk_ok [OF e(1) ok(2) n(1,2) this] obtain vp s' where
    a: "allocate_chunk new ?n s = (vp, s')" "chunks_ok s' ([] @ [vp])"
      "f_limit s' vp = vp + 16 + unat (if fa_cap s < ?n then ?n else fa_cap s)"
      "fa_cap s' = (if fa_cap s < ?n then ?n else fa_cap s) * 2" by metis
  let ?s = "s'\<lparr>fa_cur := Some vp, fa_bump := vp + 16\<rparr>"
  have "push_stack_frame new sz s = frame_loop new ?n (Some vp) (fa_bump ?s) ?s"
    using c a(1) by (simp add: push_stack_frame_def)
  moreover have "placed 1 ?n (Some vp) (fa_bump ?s) ?s ([] @ [vp]) vp (frame_loop new ?n (Some vp) (fa_bump ?s) ?s)"
    by (rule placed_fresh [OF _ ok(2) n(1,2,3) _ _ chunks_okD(7) [OF e(1)] refl]) (use a in simp_all)
  moreover have "falloc_ok ?s [vp] []" using a(2) chunks_okD(4) [OF a(2), of vp] by (simp add: falloc_ok_def)
  ultimately show thesis using e by (intro that [of ?s vp]) simp_all
qed

lemma destroy_chain: "lseg nx p cs None \<Longrightarrow> destroy_loop nx p = Some cs"
  by (induction cs arbitrary: p) (subst destroy_loop.simps, simp)+

lemma push_frame_ok:
  assumes "falloc_ok s cs fs" "new_ok new" "unat sz \<le> 2 ^ 60"
  shows "\<exists>q s' ys. push_stack_frame new sz s = Some (q + 16, s') \<and> falloc_ok s' (cs @ ys) ((q, unat (frame_size sz)) # fs) \<and> length ys \<le> 2
    \<and> 16 dvd q \<and> 16 + unat sz \<le> unat (frame_size sz)
    \<and> (\<forall>f \<in> set fs. apart (q, unat (frame_size sz)) f)"
proof (cases "fa_cur s")
  case (Some c)
  from assms(1) Some have "c \<in> set cs" "c + 16 \<le> fa_bump s" "16 dvd fa_bump s" "frames s cs c (fa_bump s) fs"
    by (simp_all add: falloc_ok_def)
  from placed_frames [OF push_from_some [OF assms Some] frame_size_ok(1,3) [OF assms(3)] this]
  show ?thesis using frame_size_ok(4) [OF assms(3)] by (metis add.commute)
next
  case None
  from push_from_none [OF assms None] obtain c s1 where s1: "falloc_ok s1 [c] []" "fa_cur s1 = Some c" "fa_bump s1 = c + 16"
    "fs = []" "cs = []" "placed 1 (frame_size sz) (Some c) (fa_bump s1) s1 [c] c (push_stack_frame new sz s)" .
  have "16 dvd fa_bump s1" using s1(1,2) by (simp add: falloc_ok_def)
  with placed_frames [OF s1(6) frame_size_ok(1,3) [OF assms(3)], of "[]"] s1(3) obtain q s' ys where
    p: "push_stack_frame new sz s = Some (q + 16, s')" "length ys \<le> 1" "falloc_ok s' ([c] @ ys) [(q, unat (frame_size sz))]"
       "16 dvd q" by auto
  show ?thesis
    by (rule exI [of _ q], rule exI [of _ s'], rule exI [of _ "c # ys"])
      (use p s1(4,5) frame_size_ok(4) [OF assms(3)] in simp)
qed

lemma pop_frame_ok:
  assumes f: "falloc_ok s cs ((q, n) # fs)"
  shows "falloc_ok (pop_stack_frame (q + 16) s) cs fs"
proof -
  obtain c where c: "fa_cur s = Some c" "c \<in> set cs" "frames s cs c (fa_bump s) ((q, n) # fs)" "chunks_ok s cs"
    using f by (cases "fa_cur s") (simp_all add: falloc_ok_def del: frames.simps)
  then obtain c' where c': "fp_chunk s q = Some c'" "c' = c \<or> before cs c' c" "c' + 16 \<le> fp_bump s q"
    "16 dvd fp_bump s q" "frames s cs c' (fp_bump s q) fs" by auto
  have in_cs: "c' \<in> set cs" using c'(2) c(2) before_in [of cs c' c] by auto
  have "frames (pop_stack_frame (q + 16) s) (cs @ []) c' (fp_bump s q) fs"
    by (rule frames_cong [OF _ _ c'(5) in_cs]) (simp_all add: pop_stack_frame_def)
  with c(4) c' in_cs show ?thesis by (simp add: falloc_ok_def pop_stack_frame_def)
qed

lemma falloc_ok_new: "falloc_ok (falloc_new nx lim pc pb) [] []"
  by (simp add: falloc_ok_def chunks_ok_def falloc_new_def)

lemma demo_falloc: "\<exists>q n s cs. falloc_ok s cs [(q, n)]"
proof -
  have "unat (40 :: u64) \<le> 2 ^ 60" by simp
  from push_frame_ok [OF falloc_ok_new bump_new_ok this, of "\<lambda>_. None" "\<lambda>_. 0" "\<lambda>_. None" "\<lambda>_. 0"]
  show ?thesis by blast
qed

lemma falloc_ok_cur: "falloc_ok s cs (f # fs) \<Longrightarrow> fa_cur s \<noteq> None"
  by (cases "fa_cur s") (simp_all add: falloc_ok_def)

text \<open>
  A frame that does not fit a chunk of the current capacity has a chunk of exactly its size allocated for it, which stays
  unused: here a first frame of 2000 bytes takes two chunks.
\<close>

lemma frame_hint_short:
  "map_option (\<lambda>(r, s). (r, fa_blocks s)) (push_stack_frame bump_new 2000 (falloc_new (\<lambda>_. None) (\<lambda>_. 0) (\<lambda>_. None) (\<lambda>_. 0)))
    = Some (32816, [(32784, 4048), (16, 2032)])"
  by (simp add: push_stack_frame_def allocate_chunk_def falloc_new_def frame_size_def round_up_def bump_new_def Let_def frame_loop.simps)

lemma falloc_destroy_ok:
  assumes "falloc_ok s cs fs"
  shows "falloc_destroy s = Some (rev (map fst (fa_blocks s))) \<and> distinct (map fst (fa_blocks s))"
proof -
  have ok: "chunks_ok s cs" using assms by (simp add: falloc_ok_def)
  have "map fst (fa_blocks s) = rev cs" using chunks_okD(2) [OF ok] by (simp add: rev_map [symmetric] comp_def)
  then show ?thesis using destroy_chain [OF chunks_okD(1) [OF ok]] chunks_okD(8) [OF ok] by (simp add: falloc_destroy_def)
qed

section \<open>Properties\<close>





text \<open>
  the destructor returns; it deletes exactly the blocks the allocator got from the heap, each once and in the order of
  the chain, whatever frames are live.
\<close>

theorem frame_destroy_frees_all:
  assumes "falloc_ok s cs fs"
  shows "falloc_destroy s = Some (rev (map fst (fa_blocks s))) \<and> distinct (map fst (fa_blocks s))"
  by (rule falloc_destroy_ok [OF assms])

theorem frame_destroy_frees_all_witness:
  "\<exists>s. fa_cur s \<noteq> None \<and> falloc_destroy s = Some (rev (map fst (fa_blocks s)))"
proof -
  from demo_falloc obtain q n s cs where s: "falloc_ok s cs [(q, n)]" by blast
  then have "fa_cur s \<noteq> None" by (rule falloc_ok_cur)
  with frame_destroy_frees_all [OF s] show ?thesis by blast
qed

end
