(* ===== verification/Receive.thy ===== *)
theory Receive
  imports Io_Ring
begin

text \<open>
  \<open>main.cxx\<close>: the multishot receive operation with a ring of provided buffers, into which the kernel packs
  several receptions per slot (\<open>IOU_PBUF_RING_INC\<close>), and the coroutine that prints what it receives. The
  results of \<open>mmap\<close> and of the registration are parameters. The kernel's side of the buffer ring is the
  step relation \<open>recv_step\<close>, which follows its documentation: it takes the slots in ring order, fills a slot from
  its start, and tells with \<open>IORING_CQE_F_BUF_MORE\<close> whether it will go on in the same slot. A printed slice is its
  address and length.
\<close>

section \<open>State\<close>

definition nr_bufs :: u32 where "nr_bufs = 256"
definition buf_size :: u32 where "buf_size = 4096"
definition ring_mask :: u32 where "ring_mask = nr_bufs - 1"
definition cqe_f_buf_more :: u32 where "cqe_f_buf_more = 16"
definition enobufs :: s32 where "enobufs = 105"

record buf =
  b_addr :: u64
  b_len :: u32
  b_bid :: u16

record buf_reg =
  reg_addr :: u64
  reg_entries :: u32
  reg_bgid :: u16
  reg_flags :: u16

record recv =
  rv_bufs :: "nat \<Rightarrow> buf"
  rv_tail :: u16
  rv_mem :: u64
  rv_bgid :: u16
  rv_fd :: s32
  rv_live :: bool
  rv_bid :: u16
  rv_offset :: u32
  rv_len :: u32
  rv_more :: bool
  rv_cur :: u32
  rv_pend :: bool
  rv_pbid :: u16

definition recv_new :: "(nat \<Rightarrow> buf) \<Rightarrow> u16 \<Rightarrow> s32 \<Rightarrow> recv" where
  "recv_new bufs bgid fd = \<lparr>rv_bufs = bufs, rv_tail = 0, rv_mem = 0, rv_bgid = bgid, rv_fd = fd, rv_live = False, rv_bid = 0,
     rv_offset = 0, rv_len = 0, rv_more = False, rv_cur = 0, rv_pend = False, rv_pbid = 0\<rparr>"

section \<open>Operations\<close>

definition slot :: "recv \<Rightarrow> u16 \<Rightarrow> u64" where
  "slot op bid = rv_mem op + ucast (ucast bid * buf_size)"

definition set_buf :: "nat \<Rightarrow> u16 \<Rightarrow> recv \<Rightarrow> recv" where
  "set_buf i bid op = op\<lparr>rv_bufs := (rv_bufs op)(i := \<lparr>b_addr = slot op bid, b_len = buf_size, b_bid = bid\<rparr>)\<rparr>"

definition replenish :: "u16 \<Rightarrow> recv \<Rightarrow> recv" where
  "replenish bid op =
     (let t = ucast (rv_tail op) :: u32 in (set_buf (unat (t AND ring_mask)) bid op)\<lparr>rv_tail := ucast (t + 1)\<rparr>)"

fun setup_loop :: "nat \<Rightarrow> nat \<Rightarrow> recv \<Rightarrow> recv" where
  "setup_loop i 0 op = op"
| "setup_loop i (Suc k) op = setup_loop (Suc i) k (set_buf i (of_nat i) op)"

text \<open>
  An error of \<open>mmap\<close> is its \<open>errno\<close>; one that \<open>__throw_error_code_if\<close> would throw ends the program, because
  the function is \<open>noexcept\<close>.
\<close>

definition setup_ring :: "s32 + u64 \<Rightarrow> s32 + u64 \<Rightarrow> (buf_reg \<Rightarrow> s32) \<Rightarrow> recv \<Rightarrow> s32 + recv" where
  "setup_ring mem ring register op = (case mem of Inl e \<Rightarrow> Inl e | Inr m \<Rightarrow> (case ring of Inl e \<Rightarrow> Inl e | Inr r \<Rightarrow>
     (let op1 = op\<lparr>rv_mem := m, rv_tail := 0\<rparr>;
          rc = register \<lparr>reg_addr = r, reg_entries = nr_bufs, reg_bgid = rv_bgid op1, reg_flags = 2\<rparr>
      in if sint rc < 0 then Inl (- rc)
         else Inr ((setup_loop 0 (unat nr_bufs) op1)\<lparr>rv_tail := ucast nr_bufs\<rparr>))))"

definition recv_submit :: "recv \<Rightarrow> sqe \<times> recv" where
  "recv_submit op = (let z = sqe_zero in
     (z\<lparr>sqe_opcode := 27, sqe_fd := rv_fd op, sqe_len := 0, sqe_buf_group := rv_bgid op,
        sqe_flags := sqe_flags z OR 32, sqe_ioprio := sqe_ioprio z OR 2\<rparr>, op\<lparr>rv_live := True\<rparr>))"

datatype recv_act = Resubmit | Stop | Resume

definition cqe_bid :: "cqe \<Rightarrow> u16" where
  "cqe_bid c = ucast (drop_bit 16 (cqe_flags c))"

definition cqe_more :: "cqe \<Rightarrow> bool" where
  "cqe_more c \<longleftrightarrow> cqe_flags c AND cqe_f_more \<noteq> 0"

definition cqe_buf_more :: "cqe \<Rightarrow> bool" where
  "cqe_buf_more c \<longleftrightarrow> cqe_flags c AND cqe_f_buf_more \<noteq> 0"

text \<open>What the completion does before it resubmits, returns or resumes the coroutine.\<close>

definition recv_handle :: "cqe \<Rightarrow> recv \<Rightarrow> recv_act \<times> recv" where
  "recv_handle c op =
     (if cqe_res c = - enobufs then (Resubmit, op\<lparr>rv_live := False, rv_cur := 0\<rparr>)
      else if sint (cqe_res c) \<le> 0 then (Stop, op)
      else (let more = cqe_buf_more c;
                op1 = (if cqe_more c then op else op\<lparr>rv_live := False\<rparr>);
                op2 = op1\<lparr>rv_bid := cqe_bid c, rv_len := cqe_res c, rv_more := more, rv_offset := rv_cur op1\<rparr>
            in (Resume, if more then op2\<lparr>rv_cur := rv_cur op2 + rv_len op2\<rparr>
                        else op2\<lparr>rv_cur := 0, rv_pend := True, rv_pbid := rv_bid op2\<rparr>)))"

text \<open>\<open>await_suspend\<close>, and whether it registers the callback that submits the operation; \<open>await_resume\<close>.\<close>

definition recv_suspend :: "recv \<Rightarrow> bool \<times> recv" where
  "recv_suspend op =
     (let op1 = (if rv_pend op then (replenish (rv_pbid op) op)\<lparr>rv_pend := False\<rparr> else op) in (\<not> rv_live op1, op1))"

definition recv_resume :: "recv \<Rightarrow> u64 \<times> u32" where
  "recv_resume op = (slot op (rv_bid op) + ucast (rv_offset op), rv_len op)"

text \<open>The coroutine with its operation, what it has printed, and the submissions the scheduler holds for it.\<close>

record client =
  cl_op :: recv
  cl_out :: "(u64 \<times> u32) list"
  cl_submits :: nat
  cl_ended :: bool

definition receive_await :: "client \<Rightarrow> client" where
  "receive_await cl = (case recv_suspend (cl_op cl) of
     (reg, op) \<Rightarrow> cl\<lparr>cl_op := op, cl_submits := cl_submits cl + (if reg then 1 else 0)\<rparr>)"

definition receive_start :: "recv \<Rightarrow> client" where
  "receive_start op = receive_await \<lparr>cl_op = op, cl_out = [], cl_submits = 0, cl_ended = False\<rparr>"

text \<open>A completion: \<open>Resume\<close> runs the coroutine from one \<open>co_await\<close> to the next.\<close>

definition recv_complete :: "cqe \<Rightarrow> client \<Rightarrow> client" where
  "recv_complete c cl = (case recv_handle c (cl_op cl) of
     (Resubmit, op) \<Rightarrow> cl\<lparr>cl_op := op, cl_submits := cl_submits cl + 1\<rparr>
   | (Stop, op) \<Rightarrow> cl\<lparr>cl_op := op, cl_ended := True\<rparr>
   | (Resume, op) \<Rightarrow> receive_await (cl\<lparr>cl_op := op, cl_out := cl_out cl @ [recv_resume op]\<rparr>))"

section \<open>Accepting\<close>

definition accept_submit :: "s32 \<Rightarrow> u64 \<Rightarrow> u64 \<Rightarrow> sqe" where
  "accept_submit fd addr addrlen = sqe_zero\<lparr>sqe_opcode := 13, sqe_fd := fd, sqe_addr := addr, sqe_off := addrlen,
     sqe_op_flags := 0, sqe_ioprio := 1\<rparr>"

text \<open>
  The acceptor: the connections it has spawned a receiver for, and its submissions. A completion with an error throws in a
  \<open>noexcept\<close> function, which ends the program.
\<close>

record acceptor =
  ac_spawned :: "s32 list"
  ac_submits :: nat

definition accept_complete :: "cqe \<Rightarrow> acceptor \<Rightarrow> s32 + acceptor" where
  "accept_complete c a =
     (if sint (cqe_res c) < 0 then Inl (- cqe_res c)
      else (let a1 = a\<lparr>ac_spawned := ac_spawned a @ [cqe_res c]\<rparr> in
        Inr (if cqe_more c then a1 else a1\<lparr>ac_submits := ac_submits a1 + 1\<rparr>)))"

text \<open>The entries of the operation, in the order of the completion queue.\<close>

fun accept_run :: "cqe list \<Rightarrow> acceptor \<Rightarrow> s32 + acceptor" where
  "accept_run [] a = Inr a"
| "accept_run (c # cs) a = (case accept_complete c a of Inl e \<Rightarrow> Inl e | Inr a' \<Rightarrow> accept_run cs a')"

section \<open>The kernel's side\<close>

record kern =
  kn_head :: u16
  kn_off :: u32
  kn_armed :: bool
  kn_cq :: "cqe list"
  kn_log :: "(u64 \<times> u32) list"

definition kern_new :: kern where
  "kern_new = \<lparr>kn_head = 0, kn_off = 0, kn_armed = False, kn_cq = [], kn_log = []\<rparr>"

definition front :: "recv \<Rightarrow> u16 \<Rightarrow> buf" where
  "front op h = rv_bufs op (unat h mod 256)"

text \<open>
  The submission reaches the kernel; a reception of \<open>len\<close> bytes; the end of the multishot for want of a slot, or at the
  end of the stream or with an error; the program handles the oldest entry.
\<close>

inductive recv_step :: "client \<times> kern \<Rightarrow> client \<times> kern \<Rightarrow> bool" where
  arm: "0 < cl_submits cl \<Longrightarrow> recv_step (cl, k)
    (cl\<lparr>cl_op := snd (recv_submit (cl_op cl)), cl_submits := cl_submits cl - 1\<rparr>, k\<lparr>kn_armed := True\<rparr>)"
| fill: "kn_armed k \<Longrightarrow> kn_head k \<noteq> rv_tail (cl_op cl) \<Longrightarrow> cqe_bid c = b_bid (front (cl_op cl) (kn_head k)) \<Longrightarrow>
    0 < cqe_res c \<Longrightarrow> unat (kn_off k) + unat (cqe_res c) \<le> unat (b_len (front (cl_op cl) (kn_head k))) \<Longrightarrow>
    (cqe_buf_more c \<longrightarrow> unat (kn_off k) + unat (cqe_res c) < unat (b_len (front (cl_op cl) (kn_head k)))) \<Longrightarrow>
    recv_step (cl, k) (cl, k\<lparr>kn_head := (if cqe_buf_more c then kn_head k else kn_head k + 1),
      kn_off := (if cqe_buf_more c then kn_off k + cqe_res c else 0), kn_armed := cqe_more c, kn_cq := kn_cq k @ [c],
      kn_log := kn_log k @ [(b_addr (front (cl_op cl) (kn_head k)) + ucast (kn_off k), cqe_res c)]\<rparr>)"
| empty: "kn_armed k \<Longrightarrow> kn_head k = rv_tail (cl_op cl) \<Longrightarrow> cqe_res c = - enobufs \<Longrightarrow> \<not> cqe_more c \<Longrightarrow>
    recv_step (cl, k) (cl, k\<lparr>kn_armed := False, kn_cq := kn_cq k @ [c]\<rparr>)"
| end_stream: "kn_armed k \<Longrightarrow> cqe_res c \<noteq> - enobufs \<Longrightarrow> sint (cqe_res c) \<le> 0 \<Longrightarrow> \<not> cqe_more c \<Longrightarrow>
    recv_step (cl, k) (cl, k\<lparr>kn_armed := False, kn_cq := kn_cq k @ [c]\<rparr>)"
| handle: "kn_cq k = c # cs \<Longrightarrow> recv_step (cl, k) (recv_complete c cl, k\<lparr>kn_cq := cs\<rparr>)"

inductive recv_reachable :: "recv \<Rightarrow> client \<times> kern \<Rightarrow> bool" for op where
  init: "recv_reachable op (receive_start op, kern_new)"
| step: "recv_reachable op s \<Longrightarrow> recv_step s s' \<Longrightarrow> recv_reachable op s'"

inductive_cases recv_stepE: "recv_step s s'"

section \<open>The ring of free slots\<close>

text \<open>\<open>ring_inv op h A\<close>: from index \<open>h\<close> to its tail the ring holds the slots \<open>A\<close>, each described in full.\<close>

definition ring_inv :: "recv \<Rightarrow> u16 \<Rightarrow> u16 list \<Rightarrow> bool" where
  "ring_inv op h A \<longleftrightarrow> length A = unat (rv_tail op - h) \<and> length A \<le> 256
     \<and> (\<forall>i < length A. front op (h + of_nat i) = \<lparr>b_addr = slot op (A ! i), b_len = 4096, b_bid = A ! i\<rparr>)"

lemma index_u16: "unat ((h :: u16) + of_nat i) mod 256 = (unat h + i) mod 256"
proof -
  have "unat (h + of_nat i) = (unat h + i) mod 2 ^ 16" by (simp add: unat_word_ariths unat_of_nat mod_simps)
  moreover have "(256 :: nat) dvd 2 ^ 16" by simp
  ultimately show ?thesis by (simp only: mod_mod_cancel)
qed

lemma ring_pop:
  assumes "ring_inv op h (b # A)"
  shows "front op h = \<lparr>b_addr = slot op b, b_len = 4096, b_bid = b\<rparr>" "ring_inv op (h + 1) A" "h \<noteq> rv_tail op"
proof -
  have len: "Suc (length A) = unat (rv_tail op - h)" "Suc (length A) \<le> 256"
    and f: "\<And>i. i < Suc (length A) \<Longrightarrow> front op (h + of_nat i) = \<lparr>b_addr = slot op ((b # A) ! i), b_len = 4096, b_bid = (b # A) ! i\<rparr>"
    using assms by (simp_all add: ring_inv_def)
  show "front op h = \<lparr>b_addr = slot op b, b_len = 4096, b_bid = b\<rparr>" using f [of 0] by simp
  show "h \<noteq> rv_tail op" using len(1) by auto
  have "unat (rv_tail op - (h + 1)) = unat ((rv_tail op - h) - 1)" by (simp add: algebra_simps)
  also have "\<dots> = unat (rv_tail op - h) - 1" using len(1) by (intro unat_minus_one) auto
  finally have "length A = unat (rv_tail op - (h + 1))" using len(1) by simp
  moreover have "front op (h + 1 + of_nat i) = \<lparr>b_addr = slot op (A ! i), b_len = 4096, b_bid = A ! i\<rparr>" if "i < length A" for i
    using f [of "Suc i"] that by (simp add: ac_simps)
  ultimately show "ring_inv op (h + 1) A" using len(2) by (simp add: ring_inv_def)
qed

lemma ring_empty: "ring_inv op h A \<Longrightarrow> A = [] \<longleftrightarrow> h = rv_tail op"
  using ring_pop(3) [of op h] by (cases A) (auto simp: ring_inv_def unsigned_eq_0_iff)

lemma replenish_eq:
  "replenish b op = op\<lparr>rv_bufs := (rv_bufs op)(unat (rv_tail op) mod 256 := \<lparr>b_addr = slot op b, b_len = 4096, b_bid = b\<rparr>),
     rv_tail := rv_tail op + 1\<rparr>"
proof -
  have "unat (ucast (rv_tail op) AND ring_mask :: u32) = unat (rv_tail op) mod 2 ^ 8"
  proof -
    have m: "ring_mask = 2 ^ 8 - 1" by (simp add: ring_mask_def nr_bufs_def)
    have "unat (ucast (rv_tail op) AND ring_mask :: u32) = take_bit 8 (unat (ucast (rv_tail op) :: u32))"
      unfolding m and_pow2 unsigned_take_bit_eq ..
    then show ?thesis by (simp add: take_bit_nat_def unsigned_ucast_eq mod_mod_cancel)
  qed
  moreover have "ucast (ucast (rv_tail op) + 1 :: u32) = rv_tail op + 1"
    using unsigned_less [of "rv_tail op", where 'a = nat] by (simp add: word_unat_eq_iff unsigned_ucast_eq take_bit_nat_def unat_word_ariths mod_mod_cancel)
  ultimately show ?thesis by (simp add: replenish_def set_buf_def Let_def buf_size_def slot_def)
qed

lemma ring_push:
  assumes "ring_inv op h A" "length A < 256"
  shows "ring_inv (replenish b op) h (A @ [b])"
proof -
  have len: "length A = unat (rv_tail op - h)" using assms(1) by (simp add: ring_inv_def)
  then have "of_nat (length A) = rv_tail op - h" by simp
  then have t: "rv_tail op = h + of_nat (length A)" by (simp add: algebra_simps)
  have t': "unat (rv_tail op) mod 256 = (unat h + length A) mod 256" unfolding t by (rule index_u16)
  have other: "unat (h + of_nat i) mod 256 \<noteq> unat (rv_tail op) mod 256" if "i < length A" for i
  proof
    assume "unat (h + of_nat i) mod 256 = unat (rv_tail op) mod 256"
    then have "(unat h + length A) mod 256 = (unat h + i) mod 256" unfolding index_u16 t' by (rule sym)
    then have "256 dvd (unat h + length A) - (unat h + i)" using that by (intro mod_eq_dvd_iff_nat [THEN iffD1]) simp_all
    then have "256 dvd length A - i" by simp
    then have "256 \<le> length A - i" using that by (intro dvd_imp_le) simp_all
    then show False using assms(2) by simp
  qed
  have sl: "slot (replenish b op) = slot op" by (intro ext) (simp add: slot_def replenish_eq)
  have "unat (rv_tail (replenish b op) - h) = unat ((rv_tail op - h) + 1)" by (simp add: replenish_eq algebra_simps)
  also have "\<dots> = Suc (length A)" using assms(2) len by (simp add: unat_word_ariths)
  finally have l: "length (A @ [b]) = unat (rv_tail (replenish b op) - h)" by simp
  have "front (replenish b op) (h + of_nat i) = \<lparr>b_addr = slot op ((A @ [b]) ! i), b_len = 4096, b_bid = (A @ [b]) ! i\<rparr>"
    if i: "i < Suc (length A)" for i
  proof (cases "i = length A")
    case True
    then show ?thesis by (simp add: front_def replenish_eq t [symmetric])
  next
    case False
    with i have lt: "i < length A" by simp
    with other [OF lt] assms(1) show ?thesis by (simp add: front_def replenish_eq ring_inv_def nth_append)
  qed
  with l assms(2) show ?thesis by (simp add: ring_inv_def sl)
qed

section \<open>Pending entries\<close>

text \<open>
  The slices that handling the entries \<open>cs\<close> will print, with the offset at \<open>off\<close>, as slot, start and length; and the
  order in which the entries use up the slots \<open>B\<close>, down to \<open>A\<close> with \<open>koff\<close> bytes of its first slot used.
\<close>

definition data_entry :: "cqe \<Rightarrow> bool" where
  "data_entry c \<longleftrightarrow> 0 < sint (cqe_res c)"

fun slices :: "u32 \<Rightarrow> cqe list \<Rightarrow> (u16 \<times> u32 \<times> u32) list" where
  "slices off [] = []"
| "slices off (c # cs) =
     (if data_entry c then (cqe_bid c, off, cqe_res c) # slices (if cqe_buf_more c then off + cqe_res c else 0) cs
      else slices off cs)"

fun packed :: "cqe list \<Rightarrow> u16 list \<Rightarrow> u32 \<Rightarrow> u16 list \<Rightarrow> u32 \<Rightarrow> bool" where
  "packed [] B off A koff \<longleftrightarrow> B = A \<and> off = koff"
| "packed (c # cs) B off A koff \<longleftrightarrow>
     (if data_entry c then B \<noteq> [] \<and> cqe_bid c = hd B \<and> unat off + unat (cqe_res c) \<le> 4096
        \<and> (if cqe_buf_more c then packed cs B (off + cqe_res c) A koff else packed cs (tl B) 0 A koff)
      else (cqe_res c = - enobufs \<longrightarrow> off = 0) \<and> packed cs B off A koff)"

definition place :: "u64 \<Rightarrow> u16 \<times> u32 \<times> u32 \<Rightarrow> u64 \<times> u32" where
  "place m = (\<lambda>(b, off, len). (m + ucast (ucast b * buf_size) + ucast off, len))"

lemma packed_suffix: "packed cs B off A koff \<Longrightarrow> \<exists>ys. B = ys @ A"
proof (induction cs arbitrary: B off)
  case (Cons c cs)
  show ?case
  proof (cases "data_entry c \<and> \<not> cqe_buf_more c")
    case True
    with Cons.prems Cons.IH [of "tl B" 0] obtain ys where "tl B = ys @ A" "B \<noteq> []" by auto
    then have "B = (hd B # ys) @ A" by (cases B) auto
    then show ?thesis by blast
  next
    case False
    with Cons.prems show ?thesis using Cons.IH by (auto split: if_splits)
  qed
qed simp

lemma packed_append: "packed cs B off A koff \<Longrightarrow> A = [] \<longrightarrow> koff = 0 \<Longrightarrow> packed cs (B @ xs) off (A @ xs) koff"
  by (induction cs arbitrary: B off) (auto split: if_splits)

lemma packed_fill:
  "packed cs B off (b # A) koff \<Longrightarrow> data_entry c \<Longrightarrow> cqe_bid c = b \<Longrightarrow> unat koff + unat (cqe_res c) \<le> 4096 \<Longrightarrow>
   packed (cs @ [c]) B off (if cqe_buf_more c then b # A else A) (if cqe_buf_more c then koff + cqe_res c else 0)"
  by (induction cs arbitrary: B off) (auto split: if_splits)

lemma packed_end:
  "packed cs B off A koff \<Longrightarrow> \<not> data_entry c \<Longrightarrow> cqe_res c = - enobufs \<longrightarrow> koff = 0 \<Longrightarrow> packed (cs @ [c]) B off A koff"
  by (induction cs arbitrary: B off) (auto split: if_splits)

lemma slices_fill:
  "packed cs B off A koff \<Longrightarrow> data_entry c \<Longrightarrow> slices off (cs @ [c]) = slices off cs @ [(cqe_bid c, koff, cqe_res c)]"
  by (induction cs arbitrary: B off) (auto split: if_splits)

lemma slices_end: "\<not> data_entry c \<Longrightarrow> slices off (cs @ [c]) = slices off cs"
  by (induction cs arbitrary: off) auto

text \<open>Unread slices lie one behind the other in their slots.\<close>

definition clear_of :: "u16 \<times> u32 \<times> u32 \<Rightarrow> u16 \<times> u32 \<times> u32 \<Rightarrow> bool" where
  "clear_of x y \<longleftrightarrow> fst x \<noteq> fst y \<or> unat (fst (snd x)) + unat (snd (snd x)) \<le> unat (fst (snd y))"

lemma slices_in:
  assumes "packed cs B off A koff" "x \<in> set (slices off cs)"
  shows "fst x \<in> set B \<and> (fst x = hd B \<and> distinct B \<longrightarrow> unat off \<le> unat (fst (snd x))) \<and> unat (fst (snd x)) + unat (snd (snd x)) \<le> 4096"
  using assms
proof (induction cs arbitrary: B off)
  case (Cons c cs)
  show ?case
  proof (cases "data_entry c")
    case True
    with Cons.prems(1) have c: "B \<noteq> []" "cqe_bid c = hd B" "unat off + unat (cqe_res c) \<le> 4096" by auto
    have add: "unat (off + cqe_res c) = unat off + unat (cqe_res c)" using c(3) by (simp add: unat_word_ariths)
    show ?thesis
    proof (cases "x = (cqe_bid c, off, cqe_res c)")
      case False
      show ?thesis
      proof (cases "cqe_buf_more c")
        case more: True
        with True Cons.prems False have "packed cs B (off + cqe_res c) A koff" "x \<in> set (slices (off + cqe_res c) cs)" by auto
        from Cons.IH [OF this] add show ?thesis by auto
      next
        case more: False
        with True Cons.prems False have "packed cs (tl B) 0 A koff" "x \<in> set (slices 0 cs)" by auto
        from Cons.IH [OF this] c(1) show ?thesis by (cases B) auto
      qed
    qed (use c in simp)
  next
    case False
    with Cons.prems have "packed cs B off A koff" "x \<in> set (slices off cs)" by (auto split: if_splits)
    from Cons.IH [OF this] show ?thesis .
  qed
qed simp

lemma slices_clear: "packed cs B off A koff \<Longrightarrow> distinct B \<Longrightarrow> sorted_wrt clear_of (slices off cs)"
proof (induction cs arbitrary: B off)
  case (Cons c cs)
  show ?case
  proof (cases "data_entry c")
    case True
    with Cons.prems have c: "B \<noteq> []" "cqe_bid c = hd B" "unat off + unat (cqe_res c) \<le> 4096" by auto
    have add: "unat (off + cqe_res c) = unat off + unat (cqe_res c)" using c(3) by (simp add: unat_word_ariths)
    show ?thesis
    proof (cases "cqe_buf_more c")
      case more: True
      with True Cons.prems have p: "packed cs B (off + cqe_res c) A koff" by auto
      have "clear_of (cqe_bid c, off, cqe_res c) x" if "x \<in> set (slices (off + cqe_res c) cs)" for x
        using slices_in [OF p that] Cons.prems(2) c(2) add by (auto simp: clear_of_def)
      with Cons.IH [OF p Cons.prems(2)] True more show ?thesis by simp
    next
      case more: False
      with True Cons.prems have p: "packed cs (tl B) 0 A koff" by auto
      have "hd B \<notin> set (tl B)" "distinct (tl B)" using Cons.prems(2) c(1) by (cases B; simp)+
      then have "clear_of (cqe_bid c, off, cqe_res c) x" if "x \<in> set (slices 0 cs)" for x
        using slices_in [OF p that] c(2) by (auto simp: clear_of_def)
      with Cons.IH [OF p \<open>distinct (tl B)\<close>] True more show ?thesis by simp
    qed
  next
    case False
    with Cons.prems Cons.IH [of B off] show ?thesis by (auto split: if_splits)
  qed
qed simp

section \<open>The invariant\<close>

definition recv_inv :: "u64 \<Rightarrow> client \<times> kern \<Rightarrow> bool" where
  "recv_inv m s \<longleftrightarrow> (case s of (cl, k) \<Rightarrow> rv_mem (cl_op cl) = m \<and> \<not> rv_pend (cl_op cl)
     \<and> (\<exists>A B. ring_inv (cl_op cl) (kn_head k) A \<and> distinct B \<and> length B = 256 \<and> set A \<subseteq> set B \<and> (\<forall>b \<in> set B. unat b < 256)
          \<and> (A = [] \<longrightarrow> kn_off k = 0) \<and> packed (kn_cq k) B (rv_cur (cl_op cl)) A (kn_off k))
     \<and> kn_log k = cl_out cl @ map (place m) (slices (rv_cur (cl_op cl)) (kn_cq k)))"

lemma recv_invE:
  assumes "recv_inv m (cl, k)"
  obtains A B where "rv_mem (cl_op cl) = m" "\<not> rv_pend (cl_op cl)" "ring_inv (cl_op cl) (kn_head k) A" "distinct B" "length B = 256"
    "set A \<subseteq> set B" "A = [] \<longrightarrow> kn_off k = 0" "packed (kn_cq k) B (rv_cur (cl_op cl)) A (kn_off k)"
    "kn_log k = cl_out cl @ map (place m) (slices (rv_cur (cl_op cl)) (kn_cq k))" "\<forall>b \<in> set B. unat b < 256"
  using assms unfolding recv_inv_def prod.case by (elim conjE exE) (rule that)

lemma recv_invI:
  assumes "rv_mem (cl_op cl) = m" "\<not> rv_pend (cl_op cl)" "ring_inv (cl_op cl) (kn_head k) A" "distinct B" "length B = 256"
    "set A \<subseteq> set B" "A = [] \<longrightarrow> kn_off k = 0" "packed (kn_cq k) B (rv_cur (cl_op cl)) A (kn_off k)"
    "kn_log k = cl_out cl @ map (place m) (slices (rv_cur (cl_op cl)) (kn_cq k))" "\<forall>b \<in> set B. unat b < 256"
  shows "recv_inv m (cl, k)"
  unfolding recv_inv_def prod.case by (intro conjI exI [of _ A] exI [of _ B]) (rule assms)+

lemma slot_place: "rv_mem op = m \<Longrightarrow> (slot op b + ucast off, len) = place m (b, off, len)"
  by (simp add: slot_def place_def)

lemma ring_inv_cong: "rv_bufs op' = rv_bufs op \<Longrightarrow> rv_tail op' = rv_tail op \<Longrightarrow> rv_mem op' = rv_mem op \<Longrightarrow> ring_inv op' h A = ring_inv op h A"
  by (simp add: ring_inv_def front_def slot_def)

lemma small_pos: "0 < (r :: s32) \<Longrightarrow> unat r \<le> 4096 \<Longrightarrow> 0 < sint r"
proof -
  assume r: "0 < r" "unat r \<le> 4096"
  have u: "uint r = int (unat r)" by (rule uint_nat)
  have "int (unat r) \<le> 4096" using r(2) by linarith
  moreover have "(4096 :: int) < 2 ^ 31" by simp
  ultimately have "uint r < 2 ^ 31" unfolding u by linarith
  moreover have "0 \<le> uint r" by simp
  then have "- 2147483648 \<le> uint r" by linarith
  ultimately have "sint r = uint r" unfolding sint_uint by (intro signed_take_bit_int_eq_self) simp_all
  then have "sint r = int (unat r)" using u by (rule trans)
  moreover have "0 < unat r" using r(1) by (simp add: word_less_nat_alt)
  ultimately show ?thesis by linarith
qed

lemma recv_inv_fill:
  assumes inv: "recv_inv m (cl, k)" and ne: "kn_head k \<noteq> rv_tail (cl_op cl)"
    and c: "cqe_bid c = b_bid (front (cl_op cl) (kn_head k))" "0 < cqe_res c"
      "unat (kn_off k) + unat (cqe_res c) \<le> unat (b_len (front (cl_op cl) (kn_head k)))"
  shows "recv_inv m (cl, k\<lparr>kn_head := (if cqe_buf_more c then kn_head k else kn_head k + 1),
      kn_off := (if cqe_buf_more c then kn_off k + cqe_res c else 0), kn_armed := a, kn_cq := kn_cq k @ [c],
      kn_log := kn_log k @ [(b_addr (front (cl_op cl) (kn_head k)) + ucast (kn_off k), cqe_res c)]\<rparr>)"
proof -
  from inv obtain A B where i: "rv_mem (cl_op cl) = m" "\<not> rv_pend (cl_op cl)" "ring_inv (cl_op cl) (kn_head k) A" "distinct B"
    "length B = 256" "set A \<subseteq> set B" "packed (kn_cq k) B (rv_cur (cl_op cl)) A (kn_off k)"
    "kn_log k = cl_out cl @ map (place m) (slices (rv_cur (cl_op cl)) (kn_cq k))" "\<forall>b \<in> set B. unat b < 256"
    by (rule recv_invE)
  from ring_empty [OF i(3)] ne obtain b A' where A: "A = b # A'" by (cases A) auto
  note f = ring_pop [OF i(3) [unfolded A]]
  have len: "unat (kn_off k) + unat (cqe_res c) \<le> 4096" and bid: "cqe_bid c = b" using c(1,3) f(1) by simp_all
  have d: "data_entry c" unfolding data_entry_def using small_pos [OF c(2)] len by simp
  have "(b_addr (front (cl_op cl) (kn_head k)) + ucast (kn_off k), cqe_res c) = place m (b, kn_off k, cqe_res c)"
    unfolding f(1) buf.select_convs by (rule slot_place [OF i(1)])
  with i bid f(2) packed_fill [OF i(7) [unfolded A] d bid len] slices_fill [OF i(7) d]
  show ?thesis
    by (intro recv_invI [where A = "if cqe_buf_more c then b # A' else A'" and B = B]) (auto simp: A)
qed

lemma recv_inv_end:
  assumes inv: "recv_inv m (cl, k)" and c: "sint (cqe_res c) \<le> 0" "cqe_res c = - enobufs \<longrightarrow> kn_head k = rv_tail (cl_op cl)"
  shows "recv_inv m (cl, k\<lparr>kn_armed := False, kn_cq := kn_cq k @ [c]\<rparr>)"
proof -
  from inv obtain A B where i: "rv_mem (cl_op cl) = m" "\<not> rv_pend (cl_op cl)" "ring_inv (cl_op cl) (kn_head k) A" "distinct B"
    "length B = 256" "set A \<subseteq> set B" "A = [] \<longrightarrow> kn_off k = 0" "packed (kn_cq k) B (rv_cur (cl_op cl)) A (kn_off k)"
    "kn_log k = cl_out cl @ map (place m) (slices (rv_cur (cl_op cl)) (kn_cq k))" "\<forall>b \<in> set B. unat b < 256"
    by (rule recv_invE)
  have d: "\<not> data_entry c" using c(1) by (simp add: data_entry_def)
  have "cqe_res c = - enobufs \<longrightarrow> kn_off k = 0" using c(2) i(7) ring_empty [OF i(3)] by blast
  with i packed_end [OF i(8) d] slices_end [OF d] show ?thesis by (intro recv_invI [where A = A and B = B]) auto
qed

text \<open>The effect of a data entry on the operation and what it prints.\<close>

lemma recv_complete_data:
  assumes d: "data_entry c" and p: "\<not> rv_pend (cl_op cl)" and m: "rv_mem (cl_op cl) = m"
  shows "cl_out (recv_complete c cl) = cl_out cl @ [place m (cqe_bid c, rv_cur (cl_op cl), cqe_res c)]"
    "rv_cur (cl_op (recv_complete c cl)) = (if cqe_buf_more c then rv_cur (cl_op cl) + cqe_res c else 0)"
    "\<not> rv_pend (cl_op (recv_complete c cl))" "rv_mem (cl_op (recv_complete c cl)) = m"
    "rv_live (cl_op (recv_complete c cl)) \<longleftrightarrow> cqe_more c \<and> rv_live (cl_op cl)"
    "cl_submits (recv_complete c cl) = cl_submits cl + (if cqe_more c \<and> rv_live (cl_op cl) then 0 else 1)"
    "cl_ended (recv_complete c cl) = cl_ended cl"
    "ring_inv (cl_op (recv_complete c cl)) h A = ring_inv (if cqe_buf_more c then cl_op cl else replenish (cqe_bid c) (cl_op cl)) h A"
proof -
  have s: "\<not> sint (cqe_res c) \<le> 0" using d by (simp add: data_entry_def)
  then have ne: "cqe_res c \<noteq> - enobufs" by (auto simp: enobufs_def)
  note defs = recv_complete_def recv_handle_def receive_await_def recv_suspend_def recv_resume_def Let_def replenish_eq
  show "cl_out (recv_complete c cl) = cl_out cl @ [place m (cqe_bid c, rv_cur (cl_op cl), cqe_res c)]"
    using s ne m by (auto simp: defs place_def slot_def split: prod.split)
  show "rv_cur (cl_op (recv_complete c cl)) = (if cqe_buf_more c then rv_cur (cl_op cl) + cqe_res c else 0)"
    "\<not> rv_pend (cl_op (recv_complete c cl))" "rv_mem (cl_op (recv_complete c cl)) = m"
    "rv_live (cl_op (recv_complete c cl)) \<longleftrightarrow> cqe_more c \<and> rv_live (cl_op cl)"
    "cl_submits (recv_complete c cl) = cl_submits cl + (if cqe_more c \<and> rv_live (cl_op cl) then 0 else 1)"
    "cl_ended (recv_complete c cl) = cl_ended cl"
    using s ne p m by (auto simp: defs split: prod.split)
  show "ring_inv (cl_op (recv_complete c cl)) h A = ring_inv (if cqe_buf_more c then cl_op cl else replenish (cqe_bid c) (cl_op cl)) h A"
    using s ne p by (intro ring_inv_cong) (auto simp: defs slot_def split: prod.split)
qed

lemma recv_inv_handle:
  assumes inv: "recv_inv m (cl, k)" and q: "kn_cq k = c # cs"
  shows "recv_inv m (recv_complete c cl, k\<lparr>kn_cq := cs\<rparr>)"
proof -
  from inv obtain A B where i: "rv_mem (cl_op cl) = m" "\<not> rv_pend (cl_op cl)" "ring_inv (cl_op cl) (kn_head k) A" "distinct B"
    "length B = 256" "set A \<subseteq> set B" "A = [] \<longrightarrow> kn_off k = 0" "packed (c # cs) B (rv_cur (cl_op cl)) A (kn_off k)"
    "kn_log k = cl_out cl @ map (place m) (slices (rv_cur (cl_op cl)) (c # cs))" "\<forall>b \<in> set B. unat b < 256"
    using q by (metis recv_invE)
  show ?thesis
  proof (cases "data_entry c")
    case True
    note e = recv_complete_data [OF True i(2,1)]
    from True i(8) have c: "B \<noteq> []" "cqe_bid c = hd B" by auto
    show ?thesis
    proof (cases "cqe_buf_more c")
      case more: True
      with True i e show ?thesis by (intro recv_invI [where A = A and B = B]) auto
    next
      case more: False
      define b where "b = cqe_bid c"
      have B: "B = b # tl B" using c by (simp add: b_def)
      have p: "packed cs (tl B) 0 A (kn_off k)" using i(8) True more by simp
      from B i(4) have b: "b \<notin> set (tl B)" "distinct (tl B)" by (metis distinct.simps(2))+
      obtain ys where ys: "tl B = ys @ A" using packed_suffix [OF p] by blast
      have small: "\<forall>x \<in> set (tl B @ [b]). unat x < 256"
        using i(10) B by (metis in_set_conv_decomp insert_iff list.simps(15) rotate1.simps(2) set_rotate1)
      from ys have "length A < 256" using arg_cong [OF B, of length] i(5) by simp
      then have "ring_inv (replenish b (cl_op cl)) (kn_head k) (A @ [b])" by (rule ring_push [OF i(3)])
      moreover have "packed cs (tl B @ [b]) 0 (A @ [b]) (kn_off k)" by (rule packed_append [OF p i(7)])
      moreover have "set (A @ [b]) \<subseteq> set (tl B @ [b])" using ys by auto
      moreover have "length (tl B @ [b]) = 256" using arg_cong [OF B, of length] i(5) by simp
      ultimately show ?thesis using True more i e b
        by (intro recv_invI [where A = "A @ [b]" and B = "tl B @ [b]"]) (use small in \<open>auto simp: b_def\<close>)
    qed
  next
    case False
    then have s: "sint (cqe_res c) \<le> 0" by (simp add: data_entry_def)
    have "packed cs B (rv_cur (cl_op cl)) A (kn_off k)" "cqe_res c = - enobufs \<longrightarrow> rv_cur (cl_op cl) = 0"
      using i(8) False by simp_all
    with i False s show ?thesis
      by (intro recv_invI [where A = A and B = B])
        (auto simp: recv_complete_def recv_handle_def ring_inv_def front_def slot_def)
  qed
qed

lemma recv_inv_arm: "recv_inv m (cl, k) \<Longrightarrow> recv_inv m (cl\<lparr>cl_op := snd (recv_submit (cl_op cl)), cl_submits := n\<rparr>, k\<lparr>kn_armed := a\<rparr>)"
  by (erule recv_invE, rule recv_invI) (simp_all add: recv_submit_def Let_def ring_inv_def front_def slot_def)

lemma recv_inv_step: "recv_step s s' \<Longrightarrow> recv_inv m s \<Longrightarrow> recv_inv m s'"
proof (induction rule: recv_step.induct)
  case (arm cl k)
  then show ?case using recv_inv_arm by simp
next
  case (fill k cl c)
  then show ?case using recv_inv_fill by blast
next
  case (empty k cl c)
  have "sint (cqe_res c) \<le> 0" using empty.hyps(3) by (simp add: enobufs_def)
  with empty show ?case using recv_inv_end by blast
next
  case (end_stream k cl c)
  then show ?case using recv_inv_end by blast
next
  case (handle k c cs cl)
  then show ?case using recv_inv_handle by blast
qed

lemma setup_loop_bufs:
  "rv_bufs (setup_loop i k op) j =
     (if i \<le> j \<and> j < i + k then \<lparr>b_addr = slot op (of_nat j), b_len = buf_size, b_bid = of_nat j\<rparr> else rv_bufs op j)
   \<and> rv_mem (setup_loop i k op) = rv_mem op \<and> rv_pend (setup_loop i k op) = rv_pend op
   \<and> rv_cur (setup_loop i k op) = rv_cur op \<and> rv_live (setup_loop i k op) = rv_live op"
proof (induction k arbitrary: i op)
  case (Suc k)
  have "slot (set_buf i b op) = slot op" for b by (intro ext) (simp add: slot_def set_buf_def)
  with Suc.IH [of "Suc i" "set_buf i (of_nat i) op"] show ?case by (auto simp: set_buf_def)
qed auto

lemma recv_inv_start:
  assumes "setup_ring (Inr m) ring register (recv_new bufs bgid fd) = Inr op"
  shows "recv_inv m (receive_start op, kern_new)" "\<not> rv_live op" "\<not> rv_pend op"
proof -
  let ?op1 = "(recv_new bufs bgid fd)\<lparr>rv_mem := m, rv_tail := 0\<rparr>"
  have op: "op = (setup_loop 0 256 ?op1)\<lparr>rv_tail := 256\<rparr>"
    using assms by (auto simp: setup_ring_def Let_def nr_bufs_def split: sum.splits if_splits)
  note l = setup_loop_bufs [of 0 256 ?op1]
  have f: "rv_mem op = m" "\<not> rv_pend op" "rv_cur op = 0" "\<not> rv_live op" using l by (auto simp: op recv_new_def)
  then show "\<not> rv_live op" "\<not> rv_pend op" by simp_all
  have cl: "cl_op (receive_start op) = op" "cl_out (receive_start op) = []"
    using f(2) by (simp_all add: receive_start_def receive_await_def recv_suspend_def)
  let ?A = "map of_nat [0..<256] :: u16 list"
  have u: "unat (of_nat i :: u16) = i" if "i < 256" for i using that by (simp add: unat_of_nat)
  have "slot op = slot ?op1" by (intro ext) (simp add: slot_def f(1))
  then have ring: "ring_inv op 0 ?A"
    using l by (auto simp: ring_inv_def front_def op u buf_size_def)
  have "distinct ?A" unfolding distinct_map by (auto intro!: inj_onI) (metis u)
  with f cl ring show "recv_inv m (receive_start op, kern_new)"
    by (intro recv_invI [where A = ?A and B = ?A]) (auto simp: kern_new_def u)
qed

lemma recv_inv_reachable:
  assumes "setup_ring (Inr m) ring register (recv_new bufs bgid fd) = Inr op"
  shows "recv_reachable op s \<Longrightarrow> recv_inv m s"
  by (induction rule: recv_reachable.induct) (auto intro: recv_inv_start [OF assms] recv_inv_step)

section \<open>Requests\<close>

text \<open>The one request of the operation is with the scheduler, with the kernel or in a final entry, until the stream ends.\<close>

definition flow_inv :: "client \<times> kern \<Rightarrow> bool" where
  "flow_inv s \<longleftrightarrow> (case s of (cl, k) \<Rightarrow> cl_submits cl \<le> 1
     \<and> (cl_submits cl = 1 \<longrightarrow> \<not> kn_armed k \<and> kn_cq k = [])
     \<and> (kn_armed k \<longrightarrow> (\<forall>c \<in> set (kn_cq k). cqe_more c))
     \<and> (kn_armed k \<or> kn_cq k \<noteq> [] \<longrightarrow> rv_live (cl_op cl))
     \<and> (\<forall>c \<in> set (butlast (kn_cq k)). cqe_more c) \<and> (\<not> kn_armed k \<and> kn_cq k \<noteq> [] \<longrightarrow> \<not> cqe_more (last (kn_cq k)))
     \<and> (\<forall>c \<in> set (kn_cq k). cqe_more c \<longrightarrow> data_entry c)
     \<and> \<not> rv_pend (cl_op cl)
     \<and> (cl_ended cl \<longleftrightarrow> cl_submits cl = 0 \<and> \<not> kn_armed k \<and> kn_cq k = []))"

lemma recv_complete_other:
  assumes "\<not> data_entry c"
  shows "recv_complete c cl = (if cqe_res c = - enobufs
    then cl\<lparr>cl_op := (cl_op cl)\<lparr>rv_live := False, rv_cur := 0\<rparr>, cl_submits := cl_submits cl + 1\<rparr> else cl\<lparr>cl_ended := True\<rparr>)"
  using assms by (simp add: recv_complete_def recv_handle_def data_entry_def)

lemma flow_handle:
  assumes inv: "flow_inv (cl, k)" and q: "kn_cq k = c # cs"
  shows "flow_inv (recv_complete c cl, k\<lparr>kn_cq := cs\<rparr>)"
proof -
  have i: "cl_submits cl = 0" "rv_live (cl_op cl)" "\<not> rv_pend (cl_op cl)" "\<not> cl_ended cl"
    "kn_armed k \<Longrightarrow> \<forall>x \<in> set (c # cs). cqe_more x" "\<forall>x \<in> set (butlast (c # cs)). cqe_more x"
    "\<not> kn_armed k \<Longrightarrow> \<not> cqe_more (last (c # cs))" "\<forall>x \<in> set (c # cs). cqe_more x \<longrightarrow> data_entry x"
    using inv q by (auto simp: flow_inv_def)
  show ?thesis
  proof (cases "cqe_more c")
    case True
    then have d: "data_entry c" using i(8) by simp
    note e = recv_complete_data [OF d i(3) refl]
    have "kn_armed k \<or> cs \<noteq> []" using i(7) True by auto
    moreover have "\<forall>x \<in> set (butlast cs). cqe_more x" using i(6) by (auto split: if_splits)
    moreover have "\<not> kn_armed k \<Longrightarrow> cs \<noteq> [] \<Longrightarrow> \<not> cqe_more (last cs)" using i(7) by (auto split: if_splits)
    ultimately show ?thesis using e(3,5,6,7) i True by (auto simp: flow_inv_def)
  next
    case False
    then have cs: "cs = []" "\<not> kn_armed k" using i(5,6) by (auto split: if_splits)
    show ?thesis
    proof (cases "data_entry c")
      case True
      note e = recv_complete_data [OF True i(3) refl]
      show ?thesis using e(3,5,6,7) i False cs by (simp add: flow_inv_def)
    next
      case d: False
      show ?thesis unfolding recv_complete_other [OF d] using i cs by (simp add: flow_inv_def)
    qed
  qed
qed

lemma fill_data:
  assumes "recv_inv m (cl, k)" "kn_head k \<noteq> rv_tail (cl_op cl)" "0 < cqe_res c"
    "unat (kn_off k) + unat (cqe_res c) \<le> unat (b_len (front (cl_op cl) (kn_head k)))"
  shows "data_entry c"
proof -
  from assms(1) obtain A where r: "ring_inv (cl_op cl) (kn_head k) A" by (rule recv_invE)
  with ring_empty [OF r] assms(2) obtain b A' where "A = b # A'" by (cases A) auto
  with ring_pop(1) [of "cl_op cl" "kn_head k" b A'] r have "b_len (front (cl_op cl) (kn_head k)) = 4096" by simp
  with small_pos [OF assms(3)] assms(4) show ?thesis by (simp add: data_entry_def)
qed

lemma flow_step: "recv_step s s' \<Longrightarrow> recv_inv m s \<Longrightarrow> flow_inv s \<Longrightarrow> flow_inv s'"
proof (induction rule: recv_step.induct)
  case (arm cl k)
  then show ?case by (auto simp: flow_inv_def recv_submit_def Let_def)
next
  case (fill k cl c)
  have "data_entry c" by (rule fill_data) (use fill in auto)
  with fill.prems(2) fill.hyps(1) show ?case by (auto simp: flow_inv_def)
next
  case (empty k cl c)
  then show ?case by (auto simp: flow_inv_def)
next
  case (end_stream k cl c)
  then show ?case by (auto simp: flow_inv_def)
next
  case (handle k c cs cl)
  then show ?case using flow_handle by blast
qed

lemma flow_start: "\<not> rv_live op \<Longrightarrow> \<not> rv_pend op \<Longrightarrow> flow_inv (receive_start op, kern_new)"
  by (simp add: flow_inv_def receive_start_def receive_await_def recv_suspend_def kern_new_def)

lemma flow_reachable:
  assumes "setup_ring (Inr m) ring register (recv_new bufs bgid fd) = Inr op"
  shows "recv_reachable op s \<Longrightarrow> flow_inv s"
proof (induction rule: recv_reachable.induct)
  case init
  show ?case by (rule flow_start) (use recv_inv_start [OF assms] in simp_all)
next
  case (step s s')
  then show ?case using flow_step recv_inv_reachable [OF assms] by blast
qed

section \<open>Addresses\<close>

lemma place_unat:
  assumes "unat b < 256" "unat off + unat l \<le> 4096" "unat m + 256 * 4096 < 2 ^ 64"
  shows "unat (fst (place m (b, off, l))) = unat m + 4096 * unat b + unat off"
proof -
  have u: "unat (ucast b :: u32) = unat b" "unat (ucast off :: u64) = unat off"
    using assms(1) unat_u32_bound [of off] by (simp_all add: unsigned_ucast_eq take_bit_nat_def)
  have p: "unat (ucast b * buf_size) = 4096 * unat b"
    using assms(1) by (simp add: buf_size_def unat_word_ariths u mult.commute)
  then have "unat (ucast (ucast b * buf_size) :: u64) = 4096 * unat b"
    using assms(1) by (simp add: unsigned_ucast_eq take_bit_nat_def)
  moreover have "unat m + 4096 * unat b + unat off < 2 ^ 64" using assms by simp
  ultimately show ?thesis using u by (simp add: place_def unat_word_ariths)
qed

lemma slots_apart: "(b :: u16) \<noteq> b' \<Longrightarrow> 4096 * unat b + 4096 \<le> 4096 * unat b' \<or> 4096 * unat b' + 4096 \<le> 4096 * unat b"
  using linorder_less_linear [of "unat b" "unat b'"] by (auto simp: word_unat_eq_iff)

section \<open>Schedules\<close>

text \<open>An executable choice of steps; \<open>V_Fill len pk f\<close> is a reception with the given flags.\<close>

datatype vcmd = V_Arm | V_Fill u32 bool bool | V_Empty | V_End s32 | V_Handle

definition fill_entry :: "u16 \<Rightarrow> u32 \<Rightarrow> bool \<Rightarrow> bool \<Rightarrow> cqe" where
  "fill_entry b len pk f = \<lparr>cqe_user_data = 0, cqe_res = len,
     cqe_flags = push_bit 16 (ucast b) OR (if pk then 16 else 0) OR (if f then 2 else 0)\<rparr>"

definition end_entry :: "s32 \<Rightarrow> cqe" where
  "end_entry r = \<lparr>cqe_user_data = 0, cqe_res = r, cqe_flags = 0\<rparr>"

text \<open>A step, and whether its conditions held.\<close>

fun vmove :: "vcmd \<Rightarrow> client \<times> kern \<Rightarrow> (client \<times> kern) option" where
  "vmove V_Arm (cl, k) = (if 0 < cl_submits cl then
     Some (cl\<lparr>cl_op := snd (recv_submit (cl_op cl)), cl_submits := cl_submits cl - 1\<rparr>, k\<lparr>kn_armed := True\<rparr>) else None)"
| "vmove (V_Fill len pk f) (cl, k) = (let b = front (cl_op cl) (kn_head k); c = fill_entry (b_bid b) len pk f in
     if kn_armed k \<and> kn_head k \<noteq> rv_tail (cl_op cl) \<and> cqe_bid c = b_bid b \<and> 0 < len \<and> unat (kn_off k) + unat len \<le> unat (b_len b)
       \<and> cqe_buf_more c = pk \<and> cqe_more c = f \<and> (pk \<longrightarrow> unat (kn_off k) + unat len < unat (b_len b))
     then Some (cl, k\<lparr>kn_head := (if pk then kn_head k else kn_head k + 1), kn_off := (if pk then kn_off k + len else 0),
       kn_armed := f, kn_cq := kn_cq k @ [c], kn_log := kn_log k @ [(b_addr b + ucast (kn_off k), len)]\<rparr>)
     else None)"
| "vmove V_Empty (cl, k) = (if kn_armed k \<and> kn_head k = rv_tail (cl_op cl)
     then Some (cl, k\<lparr>kn_armed := False, kn_cq := kn_cq k @ [end_entry (- enobufs)]\<rparr>) else None)"
| "vmove (V_End r) (cl, k) = (if kn_armed k \<and> r \<noteq> - enobufs \<and> sint r \<le> 0
     then Some (cl, k\<lparr>kn_armed := False, kn_cq := kn_cq k @ [end_entry r]\<rparr>) else None)"
| "vmove V_Handle (cl, k) = (case kn_cq k of [] \<Rightarrow> None | c # cs \<Rightarrow> Some (recv_complete c cl, k\<lparr>kn_cq := cs\<rparr>))"

lemma vmove_step: "vmove x s = Some s' \<Longrightarrow> recv_step s s'"
proof (cases s)
  case (Pair cl k)
  assume v: "vmove x s = Some s'"
  have e: "\<not> cqe_more (end_entry r)" "cqe_res (end_entry r) = r" for r by (simp_all add: cqe_more_def end_entry_def)
  show ?thesis
  proof (cases x)
    case V_Arm
    with v Pair recv_step.arm [of cl k] show ?thesis by (auto split: if_splits)
  next
    case (V_Fill len pk f)
    define b where "b = front (cl_op cl) (kn_head k)"
    define c where "c = fill_entry (b_bid b) len pk f"
    have r: "cqe_res c = len" by (simp add: c_def fill_entry_def)
    from v Pair V_Fill have g: "kn_armed k" "kn_head k \<noteq> rv_tail (cl_op cl)" "cqe_bid c = b_bid b" "0 < cqe_res c"
      "unat (kn_off k) + unat (cqe_res c) \<le> unat (b_len b)" "cqe_buf_more c = pk" "cqe_more c = f"
      "cqe_buf_more c \<longrightarrow> unat (kn_off k) + unat (cqe_res c) < unat (b_len b)"
      and s': "s' = (cl, k\<lparr>kn_head := (if pk then kn_head k else kn_head k + 1), kn_off := (if pk then kn_off k + len else 0),
       kn_armed := f, kn_cq := kn_cq k @ [c], kn_log := kn_log k @ [(b_addr b + ucast (kn_off k), len)]\<rparr>)"
      by (auto simp: Let_def b_def c_def r [unfolded c_def b_def] split: if_splits)
    from recv_step.fill [OF g(1,2), of c] g(3-8) show ?thesis unfolding s' Pair b_def [symmetric] r by simp
  next
    case V_Empty
    with v Pair e show ?thesis by (auto split: if_splits intro: recv_step.empty)
  next
    case (V_End r)
    with v Pair e [of r] recv_step.end_stream [of k "end_entry r" cl] show ?thesis by (auto split: if_splits)
  next
    case V_Handle
    with v Pair show ?thesis by (auto split: list.splits intro: recv_step.handle)
  qed
qed

fun vrun :: "vcmd list \<Rightarrow> client \<times> kern \<Rightarrow> (client \<times> kern) option" where
  "vrun [] s = Some s"
| "vrun (x # xs) s = Option.bind (vmove x s) (vrun xs)"

lemma vrun_reachable: "vrun xs s = Some s' \<Longrightarrow> recv_reachable op s \<Longrightarrow> recv_reachable op s'"
proof (induction xs arbitrary: s)
  case (Cons x xs)
  then obtain s1 where s1: "vmove x s = Some s1" "vrun xs s1 = Some s'"
    by (auto simp: Option.bind_eq_Some_conv)
  from Cons.IH [OF s1(2) recv_reachable.step [OF Cons.prems(2) vmove_step [OF s1(1)]]] show ?case .
qed simp

definition demo_recv :: "s32 + recv" where
  "demo_recv = setup_ring (Inr 1048576) (Inr 8192) (\<lambda>_. 0) (recv_new (\<lambda>_. \<lparr>b_addr = 0, b_len = 0, b_bid = 0\<rparr>) 3 7)"

definition vrun_of :: "vcmd list \<Rightarrow> (client \<times> kern \<Rightarrow> bool) \<Rightarrow> bool" where
  "vrun_of xs P = (case demo_recv of Inl _ \<Rightarrow> False | Inr op \<Rightarrow>
     (case vrun xs (receive_start op, kern_new) of None \<Rightarrow> False | Some s \<Rightarrow> P s))"

lemma vrun_ofD:
  assumes "vrun_of xs P"
  obtains op cl k where "demo_recv = Inr op" "recv_reachable op (cl, k)" "P (cl, k)"
proof -
  from assms obtain op cl k where s: "demo_recv = Inr op" "vrun xs (receive_start op, kern_new) = Some (cl, k)" "P (cl, k)"
    by (auto simp: vrun_of_def split: sum.splits option.splits)
  from vrun_reachable [OF s(2) recv_reachable.init] s show thesis by (intro that)
qed

text \<open>Two receptions fill the first slot, a third ends the multishot in the second slot; the program handles two.\<close>

definition demo_receptions :: "vcmd list" where
  "demo_receptions = [V_Arm, V_Fill 1000 True True, V_Fill 3096 False True, V_Handle, V_Fill 10 True False, V_Handle]"

section \<open>Properties\<close>

text \<open>
  C28: the coroutine prints exactly the bytes that the kernel wrote, slice by slice at the kernel's addresses and in its order:
  the printed slices are a prefix of the written ones, and all of them when no entry is pending, although the program
  tracks the position in a slot only through \<open>__cur_offset_\<close>, handles entries late and hands slots back one wait later.
\<close>

theorem receive_prints_written:
  assumes "setup_ring (Inr m) ring register (recv_new bufs bgid fd) = Inr op" "recv_reachable op (cl, k)"
  shows "\<exists>ws. kn_log k = cl_out cl @ ws \<and> length ws \<le> length (kn_cq k)"
proof -
  have "length (slices off cs) \<le> length cs" for off cs by (induction off cs rule: slices.induct) auto
  then show ?thesis
    using recv_inv_reachable [OF assms] by (auto simp: recv_inv_def)
qed

theorem receive_prints_written_witness:
  "\<exists>(cl :: client) (k :: kern) ws. kn_log k = cl_out cl @ ws \<and> length ws \<le> 1 \<and> length (cl_out cl) = 2 \<and> length (kn_log k) = 3"
proof -
  have "vrun_of demo_receptions (\<lambda>(cl, k). length (cl_out cl) = 2 \<and> length (kn_log k) = 3 \<and> length (kn_cq k) = 1)"
    by code_simp
  then obtain op and cl :: client and k :: kern where s: "demo_recv = Inr op" "recv_reachable op (cl, k)" "length (cl_out cl) = 2"
    "length (kn_log k) = 3" "length (kn_cq k) = 1" by (elim vrun_ofD) auto
  from receive_prints_written [OF s(1) [unfolded demo_recv_def] s(2)] s(3-5) show ?thesis by auto
qed

text \<open>
  C29: the kernel never writes where an unread slice is: the written and not yet printed slices are pairwise disjoint ranges
  of memory inside the pool, so that a slot is back in the ring only after its last slice has been printed.
\<close>

theorem receive_unread_disjoint:
  assumes "setup_ring (Inr m) ring register (recv_new bufs bgid fd) = Inr op" "recv_reachable op (cl, k)"
    and "unat m + 256 * 4096 < 2 ^ 64"
  shows "sorted_wrt (\<lambda>x y. unat (fst x) + unat (snd x) \<le> unat (fst y) \<or> unat (fst y) + unat (snd y) \<le> unat (fst x))
      (drop (length (cl_out cl)) (kn_log k))
    \<and> (\<forall>x \<in> set (drop (length (cl_out cl)) (kn_log k)). unat m \<le> unat (fst x) \<and> unat (fst x) + unat (snd x) \<le> unat m + 256 * 4096)"
proof -
  from recv_inv_reachable [OF assms(1,2)] obtain A B where i: "distinct B" "packed (kn_cq k) B (rv_cur (cl_op cl)) A (kn_off k)"
    "kn_log k = cl_out cl @ map (place m) (slices (rv_cur (cl_op cl)) (kn_cq k))" "\<forall>b \<in> set B. unat b < 256"
    by (rule recv_invE)
  let ?S = "slices (rv_cur (cl_op cl)) (kn_cq k)"
  have pl: "unat (fst (place m x)) = unat m + 4096 * unat (fst x) + unat (fst (snd x))" "snd (place m x) = snd (snd x)"
    "unat (fst x) < 256" "unat (fst (snd x)) + unat (snd (snd x)) \<le> 4096" if "x \<in> set ?S" for x
  proof -
    from slices_in [OF i(2) that] i(4) show b: "unat (fst x) < 256" "unat (fst (snd x)) + unat (snd (snd x)) \<le> 4096" by auto
    show "snd (place m x) = snd (snd x)" by (simp add: place_def split: prod.split)
    show "unat (fst (place m x)) = unat m + 4096 * unat (fst x) + unat (fst (snd x))"
      using place_unat [of "fst x" "fst (snd x)" "snd (snd x)" m] b assms(3) by simp
  qed
  have "sorted_wrt clear_of ?S" by (rule slices_clear [OF i(2,1)])
  then have "sorted_wrt (\<lambda>x y. unat (fst (place m x)) + unat (snd (place m x)) \<le> unat (fst (place m y))
      \<or> unat (fst (place m y)) + unat (snd (place m y)) \<le> unat (fst (place m x))) ?S"
  proof (rule sorted_wrt_mono_rel [rotated])
    fix x y assume xy: "x \<in> set ?S" "y \<in> set ?S" "clear_of x y"
    show "unat (fst (place m x)) + unat (snd (place m x)) \<le> unat (fst (place m y))
      \<or> unat (fst (place m y)) + unat (snd (place m y)) \<le> unat (fst (place m x))"
      using pl [OF xy(1)] pl [OF xy(2)] xy(3) slots_apart [of "fst x" "fst y"]
      unfolding clear_of_def by (cases "fst x = fst y") auto
  qed
  moreover have "unat m \<le> unat (fst (place m x)) \<and> unat (fst (place m x)) + unat (snd (place m x)) \<le> unat m + 256 * 4096"
    if "x \<in> set ?S" for x using pl [OF that] by simp
  ultimately show ?thesis by (simp add: i(3) sorted_wrt_map)
qed

theorem receive_unread_disjoint_witness:
  "\<exists>(cl :: client) (k :: kern). length (drop (length (cl_out cl)) (kn_log k)) = 1
    \<and> (\<forall>x \<in> set (drop (length (cl_out cl)) (kn_log k)). 1048576 \<le> unat (fst x) \<and> unat (fst x) + unat (snd x) \<le> 2097152)"
proof -
  have "vrun_of demo_receptions (\<lambda>(cl, k). length (drop (length (cl_out cl)) (kn_log k)) = 1)"
    by code_simp
  then obtain op and cl :: client and k :: kern where s: "demo_recv = Inr op" "recv_reachable op (cl, k)"
    "length (drop (length (cl_out cl)) (kn_log k)) = 1" by (elim vrun_ofD) auto
  have "unat (1048576 :: u64) + 256 * 4096 < 2 ^ 64" by simp
  from receive_unread_disjoint [OF s(1) [unfolded demo_recv_def] s(2) this] s(3)
  show ?thesis by (intro exI [of _ cl] exI [of _ k]) simp
qed



text \<open>
  every accepted connection gets one receiver, in the order of the entries, and the operation is submitted again once
  for each entry that ends its multishot; but the first entry with an error, of whatever kind, ends the program with it.
\<close>

theorem accept_spawns_each:
  "accept_run cs a = (case find (\<lambda>c. sint (cqe_res c) < 0) cs of
     Some c \<Rightarrow> Inl (- cqe_res c)
   | None \<Rightarrow> Inr (a\<lparr>ac_spawned := ac_spawned a @ map cqe_res cs,
                     ac_submits := ac_submits a + length (filter (\<lambda>c. \<not> cqe_more c) cs)\<rparr>))"
  by (induction cs arbitrary: a) (auto simp: accept_complete_def Let_def split: option.split)

end
