(* ===== verification/Object_Storage.thy ===== *)
theory Object_Storage
  imports Prelude
begin

text \<open>
  \<open>__aligned_storage.hpp\<close> and \<open>__base_offset.hpp\<close>: raw storage for one object whose lifetime the user controls, and the object
  a member belongs to. The storage holds the object while it is alive; using or destroying an object that is not alive is
  undefined. The specialization for references keeps a pointer, the one for \<open>void\<close> nothing.
\<close>

section \<open>Storage\<close>

type_synonym 'a storage_of = "'a option"

definition as_new :: "'a storage_of" where
  "as_new = None"

definition as_construct :: "'a \<Rightarrow> 'a storage_of \<Rightarrow> 'a storage_of" where
  "as_construct v s = Some v"

definition as_destroy :: "'a storage_of \<Rightarrow> 'a storage_of ub" where
  "as_destroy s = (case s of None \<Rightarrow> None | Some v \<Rightarrow> Some None)"

definition as_get :: "'a storage_of \<Rightarrow> 'a ub" where
  "as_get s = s"

definition as_set :: "'a \<Rightarrow> 'a storage_of \<Rightarrow> 'a storage_of ub" where
  "as_set v s = (case s of None \<Rightarrow> None | Some w \<Rightarrow> Some (Some v))"

text \<open>\<open>__aligned_storage<_Ref>\<close>: constructing binds the reference, destroying does nothing.\<close>

definition ar_new :: "'r ptr" where
  "ar_new = nullptr"

definition ar_construct :: "'r \<Rightarrow> 'r ptr \<Rightarrow> 'r \<times> 'r ptr" where
  "ar_construct r s = (r, Some r)"

definition ar_destroy :: "'r ptr \<Rightarrow> 'r ptr" where
  "ar_destroy s = s"

definition ar_get :: "'r ptr \<Rightarrow> 'r ub" where
  "ar_get s = deref s"

definition ar_arrow :: "'r ptr \<Rightarrow> 'r ptr" where
  "ar_arrow s = s"

text \<open>An object can be used from its construction to its destruction, once; a reference outlives its destruction.\<close>

lemma storage_lifetime:
  "as_get (as_construct v s) = Some v" "as_get as_new = None" "as_destroy as_new = None"
  "as_destroy (as_construct v s) = Some s' \<Longrightarrow> as_get s' = None \<and> as_destroy s' = None"
  "ar_get (ar_destroy (snd (ar_construct r t))) = Some r"
  by (auto simp: as_get_def as_construct_def as_new_def as_destroy_def ar_get_def ar_destroy_def ar_construct_def)

section \<open>The object of a member\<close>

text \<open>\<open>offset\<close> is what \<open>__compa_abi_offset\<close> computes: the address of the member of an object at address 0.\<close>

definition compa_abi_offset :: "(u64 \<Rightarrow> u64) \<Rightarrow> u64" where
  "compa_abi_offset member = (let bp = 0; mp = member bp in mp - bp)"

definition base_offset :: "u64 \<Rightarrow> (u64 \<Rightarrow> u64) \<Rightarrow> u64" where
  "base_offset mp member = mp - compa_abi_offset member"

lemma base_offset_member: "(\<And>p. member p = p + c) \<Longrightarrow> base_offset (member p) member = p"
  by (simp add: base_offset_def compa_abi_offset_def)

end
