(* ===== verification/Coroutine.thy ===== *)
theory Coroutine
  imports Frame_Allocator Object_Storage
begin

text \<open>
  \<open>__task.hpp\<close>, \<open>__task_facade.hpp\<close> and \<open>__spawn.hpp\<close>: where coroutine frames live (\<open>operator new\<close> and
  \<open>operator delete\<close> of the promise, on the thread's \<open>__allocator\<close>), how a task is resumed, and how a promise hands
  its result to the awaiting coroutine. What a coroutine does between two suspensions is the parameter \<open>body\<close>, a function
  on the thread's state that may be undefined; the address of a new \<open>__allocator\<close> object is the parameter \<open>a\<close>.
\<close>

section \<open>State\<close>

record thread =
  th_tls :: "nat ptr"
  th_allocs :: "nat \<Rightarrow> falloc option"
  th_slot :: "(nat, nat ptr) field"
  th_facade :: "nat \<Rightarrow> nat ptr option"
  th_callback :: "nat ptr"

definition thread_new :: thread where
  "thread_new = \<lparr>th_tls = nullptr, th_allocs = (\<lambda>_. None), th_slot = (\<lambda>_. nullptr), th_facade = (\<lambda>_. None), th_callback = nullptr\<rparr>"

section \<open>Frames\<close>

text \<open>
  The pointer overload of \<open>__round_up\<close> on a flat address is rounding up (\<open>round_up_align\<close>, \<open>round_up_correct\<close>).
\<close>

definition alloc_address :: "nat \<Rightarrow> u64 \<Rightarrow> nat" where
  "alloc_address fr n = align_up (fr + unat n) 8"

definition allocate_size :: "u64 \<Rightarrow> u64" where
  "allocate_size n = round_up n 8 + 8"

definition co_new :: "heap_new \<Rightarrow> nat \<Rightarrow> u64 \<Rightarrow> thread \<Rightarrow> (nat \<times> thread) ub" where
  "co_new new a n s =
     (let top = (th_tls s = nullptr);
          s1 = (if top then s\<lparr>th_allocs := (th_allocs s)(a \<mapsto> falloc_new (\<lambda>_. nullptr) (\<lambda>_. 0) (\<lambda>_. nullptr) (\<lambda>_. 0)), th_tls := Some a\<rparr>
                else s)
      in do {
        pa \<leftarrow> th_tls s1;
        al \<leftarrow> th_allocs s1 pa;
        (r, al') \<leftarrow> push_stack_frame new (allocate_size n) al;
        Some (r, s1\<lparr>th_allocs := (th_allocs s1)(pa \<mapsto> al'),
                    th_slot := (th_slot s1)(alloc_address r n := (if top then Some pa else nullptr))\<rparr>)
      })"

definition co_delete :: "nat \<Rightarrow> u64 \<Rightarrow> thread \<Rightarrow> thread ub" where
  "co_delete r n s = (case th_slot s (alloc_address r n) of
       Some a \<Rightarrow> do {
         al \<leftarrow> th_allocs s a;
         cs \<leftarrow> falloc_destroy (pop_stack_frame r al);
         Some (s\<lparr>th_tls := nullptr, th_allocs := (th_allocs s)(a := None)\<rparr>)
       }
     | None \<Rightarrow> do {
         a \<leftarrow> th_tls s;
         al \<leftarrow> th_allocs s a;
         Some (s\<lparr>th_allocs := (th_allocs s)(a \<mapsto> pop_stack_frame r al)\<rparr>)
       })"

section \<open>Resuming\<close>

text \<open>
  \<open>th_facade\<close> holds \<open>__prev_alloc_\<close> of the live facades; \<open>th_callback\<close> the argument of the registered callback,
  and \<open>run\<close> is what the callbacks do.
\<close>

definition facade_register :: "nat \<Rightarrow> thread \<Rightarrow> thread" where
  "facade_register arg s = s\<lparr>th_callback := Some arg\<rparr>"

definition facade_execute :: "nat \<Rightarrow> (thread \<Rightarrow> thread ub) \<Rightarrow> (nat \<Rightarrow> thread \<Rightarrow> thread ub) \<Rightarrow> thread \<Rightarrow> thread ub" where
  "facade_execute f body run s = do {
     _ \<leftarrow> th_facade s f;
     s1 \<leftarrow> body (s\<lparr>th_facade := (th_facade s)(f \<mapsto> th_tls s), th_tls := nullptr\<rparr>);
     prev \<leftarrow> th_facade s1 f;
     let s2 = s1\<lparr>th_facade := (th_facade s1)(f \<mapsto> nullptr), th_tls := prev\<rparr>;
     (case th_callback s2 of None \<Rightarrow> Some s2 | Some arg \<Rightarrow> run arg (s2\<lparr>th_callback := nullptr\<rparr>))
   }"

section \<open>Promises\<close>

text \<open>The result of a task of a value type; reading a result that is not there, or destroying the promise, is undefined.\<close>

datatype ('e, 'v) storage = Sg_None | Sg_Error 'e | Sg_Result 'v

definition return_value :: "'v \<Rightarrow> ('e, 'v) storage \<Rightarrow> ('e, 'v) storage" where
  "return_value v s = Sg_Result v"

definition set_exception :: "'e \<Rightarrow> ('e, 'v) storage \<Rightarrow> ('e, 'v) storage" where
  "set_exception e s = Sg_Error e"

fun storage_result :: "('e, 'v) storage \<Rightarrow> 'v ub" where
  "storage_result (Sg_Result v) = Some v"
| "storage_result _ = None"

fun throw_uncaught :: "('e, 'v) storage \<Rightarrow> 'e + unit" where
  "throw_uncaught (Sg_Error e) = Inl e"
| "throw_uncaught _ = Inr ()"

fun storage_destroy :: "('e, 'v) storage \<Rightarrow> unit ub" where
  "storage_destroy Sg_None = None"
| "storage_destroy (Sg_Error e) = Some ()"
| "storage_destroy (Sg_Result v) = Some ()"

text \<open>The specialization for \<open>void\<close>, and what \<open>await_resume\<close> gives: the rethrown exception or the value.\<close>

definition void_throw_uncaught :: "'e ptr \<Rightarrow> 'e + unit" where
  "void_throw_uncaught ex = (case ex of Some e \<Rightarrow> Inl e | None \<Rightarrow> Inr ())"

definition await_resume :: "('e, 'v) storage \<Rightarrow> ('e + 'v) ub" where
  "await_resume s = (case throw_uncaught s of Inl e \<Rightarrow> Some (Inl e) | Inr u \<Rightarrow> map_option Inr (storage_result s))"

text \<open>
  Control: the continuation (\<open>None\<close> is \<open>noop_coroutine\<close>) and the storage of the forwarding callback (its parent, while it is alive). Awaiting and
  the final suspension return the coroutine that runs next.
\<close>

record 'h promise =
  pr_continuation :: "'h option"
  pr_fwd :: "'h storage_of"

definition promise_new :: "'h promise" where
  "promise_new = \<lparr>pr_continuation = None, pr_fwd = as_new\<rparr>"

definition task_await :: "'h \<Rightarrow> 'h \<Rightarrow> 'h promise \<Rightarrow> 'h \<times> 'h promise" where
  "task_await child parent p = (child, p\<lparr>pr_continuation := Some parent, pr_fwd := as_construct parent (pr_fwd p)\<rparr>)"

definition final_suspend :: "'h promise \<Rightarrow> ('h option \<times> 'h promise) ub" where
  "final_suspend p = do { fwd \<leftarrow> as_destroy (pr_fwd p); Some (pr_continuation p, p\<lparr>pr_fwd := fwd\<rparr>) }"

text \<open>The end of the body: \<open>co_return v\<close>, or an exception caught by \<open>unhandled_exception\<close>.\<close>

definition body_end :: "'e + 'v \<Rightarrow> ('e, 'v) storage \<Rightarrow> ('e, 'v) storage" where
  "body_end r s = (case r of Inl e \<Rightarrow> set_exception e s | Inr v \<Rightarrow> return_value v s)"

definition spawn_promise :: "'h \<Rightarrow> 'h \<Rightarrow> 'h promise \<Rightarrow> 'h \<times> 'h promise" where
  "spawn_promise spawned child p = (child, p\<lparr>pr_continuation := Some spawned\<rparr>)"

text \<open>
  The handle \<open>__task\<close> owns its coroutine; null owns none. Moving returns the new handle and what is left of the old one;
  destroying returns the coroutines that are destroyed. \<open>co_await\<close> moves the handle into the awaiter, which suspends the
  parent and returns the coroutine to run; a null handle there is undefined.
\<close>

definition task_move :: "'h ptr \<Rightarrow> 'h ptr \<times> 'h ptr" where
  "task_move other = (other, nullptr)"

definition task_destroy :: "'h ptr \<Rightarrow> 'h list" where
  "task_destroy t = (case t of None \<Rightarrow> [] | Some h \<Rightarrow> [h])"

definition task_co_await :: "'h ptr \<Rightarrow> 'h ptr \<times> 'h ptr" where
  "task_co_await self = (case task_move self of (x, self') \<Rightarrow> (fst (task_move x), self'))"

definition awaiter_suspend :: "'h ptr \<Rightarrow> 'h \<Rightarrow> ('h \<Rightarrow> 'h promise) \<Rightarrow> ('h \<times> ('h \<Rightarrow> 'h promise)) ub" where
  "awaiter_suspend child parent ps = (case child of None \<Rightarrow> None
     | Some h \<Rightarrow> (case task_await h parent (ps h) of (n, p) \<Rightarrow> Some (n, ps(h := p))))"

text \<open>
  A coroutine is destroyed once, by the awaiter and not by the handle that was awaited; awaiting the same handle again is undefined.
\<close>

lemma co_await_owns_once:
  assumes "task_co_await (Some h) = (child, rest)"
  shows "task_destroy child @ task_destroy rest = [h] \<and> (\<exists>ps'. awaiter_suspend child parent ps = Some (h, ps') \<and> map_option fst (final_suspend (ps' h)) = Some (Some parent))
    \<and> awaiter_suspend (fst (task_co_await rest)) parent ps = None"
  using assms by (auto simp: task_co_await_def task_move_def task_destroy_def awaiter_suspend_def task_await_def final_suspend_def as_construct_def as_destroy_def)

text \<open>
  Awaiting a task resumes the awaiting coroutine after the task's final suspension, with the value it returned or the
  exception it ended with; then its promise can be destroyed. Before, it cannot: destroying a task of a value type that has
  not run to its end reaches \<open>__builtin_unreachable\<close>.
\<close>

lemma task_delivers:
  assumes "task_await child parent p = (next, p')"
  shows "next = child \<and> map_option fst (final_suspend p') = Some (Some parent) \<and> await_resume (body_end r s) = Some r
    \<and> storage_destroy (body_end r s) = Some () \<and> storage_destroy Sg_None = None"
  using assms by (cases r) (auto simp: task_await_def final_suspend_def as_construct_def as_destroy_def body_end_def set_exception_def return_value_def await_resume_def)

text \<open>
  A spawned task is not awaited: its continuation is set, its forwarding callback never constructed, and its final suspension
  destroys a callback that is not alive.
\<close>

lemma spawned_final_undefined:
  "final_suspend (snd (spawn_promise spawned child promise_new)) = None"
  by (simp add: spawn_promise_def final_suspend_def promise_new_def as_destroy_def as_new_def)

section \<open>The slot behind a frame\<close>

lemma allocate_size_ok:
  assumes "unat n \<le> 2 ^ 59"
  shows "unat (allocate_size n) = align_up (unat n) 8 + 8" "unat (allocate_size n) \<le> 2 ^ 60"
proof -
  have r: "unat (round_up n 8) = align_up (unat n) 8" using round_up_align [of 3 n] assms by simp
  have "align_up (unat n) 8 < unat n + 8" by (rule align_up_less) simp
  with assms r show "unat (allocate_size n) = align_up (unat n) 8 + 8" "unat (allocate_size n) \<le> 2 ^ 60"
    by (simp_all add: allocate_size_def unat_word_ariths)
qed

lemma align_up_shift: "8 dvd r \<Longrightarrow> align_up (r + n) 8 = r + align_up n 8"
proof -
  assume "8 dvd r"
  then obtain k where r: "r = 8 * k" by (rule dvdE)
  have "(7 + (8 * k + n)) div 8 = ((7 + n) + k * 8) div 8" by (simp add: algebra_simps)
  also have "\<dots> = k + (7 + n) div 8" by simp
  finally show ?thesis by (simp add: align_up_def r)
qed

text \<open>The slot lies inside the frame's allocation, behind the coroutine's own bytes.\<close>

lemma slot_in_frame:
  assumes "8 dvd r" "unat n \<le> 2 ^ 59"
  shows "r + unat n \<le> alloc_address r n \<and> alloc_address r n + 8 = r + unat (allocate_size n) \<and> 8 dvd alloc_address r n"
  using assms align_up_ge [of 8 "unat n"] by (simp add: alloc_address_def align_up_shift allocate_size_ok)

section \<open>Nesting\<close>

definition extent :: "nat \<times> u64 \<Rightarrow> nat \<times> nat" where
  "extent f = (fst f - 16, unat (frame_size (allocate_size (snd f))))"

definition co_slot :: "thread \<Rightarrow> nat \<times> u64 \<Rightarrow> nat ptr" where
  "co_slot s f = th_slot s (alloc_address (fst f) (snd f))"

text \<open>
  The live frames of the thread, newest first, each with its address and size: none and no allocator; or frames in one
  allocator, which the oldest of them owns.
\<close>

definition frame_wf :: "nat \<times> u64 \<Rightarrow> bool" where
  "frame_wf f \<longleftrightarrow> 16 \<le> fst f \<and> 16 dvd fst f \<and> unat (snd f) \<le> 2 ^ 59"

definition co_ok :: "thread \<Rightarrow> (nat \<times> u64) list \<Rightarrow> bool" where
  "co_ok s st \<longleftrightarrow> (case th_tls s of
       None \<Rightarrow> st = []
     | Some a \<Rightarrow> st \<noteq> [] \<and> list_all frame_wf st \<and> co_slot s (last st) = Some a \<and> list_all (\<lambda>f. co_slot s f = nullptr) (butlast st)
        \<and> (\<exists>al cs. th_allocs s a = Some al \<and> falloc_ok al cs (map extent st)))"

lemma slot_bounds:
  assumes "frame_wf f"
  shows "fst (extent f) + 16 \<le> alloc_address (fst f) (snd f)" "alloc_address (fst f) (snd f) < fst (extent f) + snd (extent f)"
proof -
  have f: "8 dvd fst f" "unat (snd f) \<le> 2 ^ 59" "16 \<le> fst f"
    using assms by (auto simp: frame_wf_def intro: dvd_trans [of 8 16])
  note s = slot_in_frame [OF f(1,2)] and a = allocate_size_ok [OF f(2)]
  have "unat (allocate_size (snd f)) + 16 \<le> unat (frame_size (allocate_size (snd f)))" by (rule frame_size_ok(4) [OF a(2)])
  with s have l: "alloc_address (fst f) (snd f) + 24 \<le> fst f + unat (frame_size (allocate_size (snd f)))"
    "fst f + unat (snd f) \<le> alloc_address (fst f) (snd f)" by linarith+
  show "fst (extent f) + 16 \<le> alloc_address (fst f) (snd f)" using l(2) f(3) by (simp add: extent_def)
  show "alloc_address (fst f) (snd f) < fst (extent f) + snd (extent f)" unfolding extent_def fst_conv snd_conv using l(1) f(3) by linarith
qed

lemma apart_slots:
  assumes "frame_wf f" "frame_wf g" "apart (extent f) (extent g)"
  shows "alloc_address (fst f) (snd f) \<noteq> alloc_address (fst g) (snd g)"
  using slot_bounds [OF assms(1)] slot_bounds [OF assms(2)] assms(3) unfolding apart_def by auto

lemma co_new_ok:
  assumes ok: "co_ok s st" and new: "new_ok new" and n: "unat n \<le> 2 ^ 59"
  obtains r s' where "co_new new a n s = Some (r, s')" "16 \<le> r" "16 dvd r"
    "co_ok s' ((r, n) # st)" "th_facade s' = th_facade s" "th_callback s' = th_callback s"
    "th_tls s' = Some (case th_tls s of None \<Rightarrow> a | Some b \<Rightarrow> b)"
proof -
  have sz: "unat (allocate_size n) \<le> 2 ^ 60" by (rule allocate_size_ok [OF n])
  define top where "top = (th_tls s = None)"
  define pa where "pa = (case th_tls s of None \<Rightarrow> a | Some b \<Rightarrow> b)"
  define s1 where "s1 = (if top then s\<lparr>th_allocs := (th_allocs s)(a \<mapsto> falloc_new (\<lambda>_. nullptr) (\<lambda>_. 0) (\<lambda>_. nullptr) (\<lambda>_. 0)),
    th_tls := Some a\<rparr> else s)"
  have tls: "th_tls s1 = Some pa" by (auto simp: s1_def top_def pa_def split: option.split)
  obtain al cs where al: "th_allocs s1 pa = Some al" "falloc_ok al cs (map extent st)"
  proof (cases "th_tls s")
    case None
    then have "st = []" using ok by (simp add: co_ok_def)
    with None falloc_ok_new show ?thesis
      by (intro that [of "falloc_new (\<lambda>_. nullptr) (\<lambda>_. 0) (\<lambda>_. nullptr) (\<lambda>_. 0)" "[]"]) (simp_all add: s1_def top_def pa_def)
  next
    case (Some b)
    with ok that show ?thesis by (auto simp: s1_def top_def pa_def co_ok_def)
  qed
  from push_frame_ok [OF al(2) new sz] obtain q al' ys where p: "push_stack_frame new (allocate_size n) al = Some (q + 16, al')"
    "falloc_ok al' (cs @ ys) ((q, unat (frame_size (allocate_size n))) # map extent st)" "16 dvd q"
    "\<forall>f \<in> set (map extent st). apart (q, unat (frame_size (allocate_size n))) f" by blast
  let ?r = "q + 16"
  define s' where "s' = s1\<lparr>th_allocs := (th_allocs s1)(pa \<mapsto> al'),
    th_slot := (th_slot s1)(alloc_address ?r n := (if top then Some pa else nullptr))\<rparr>"
  have run: "co_new new a n s = Some (?r, s')"
    using tls al(1) p(1) by (simp add: co_new_def top_def [symmetric] s1_def [symmetric] s'_def Let_def)
  have "co_ok s' ((?r, n) # st)"
  proof -
    have wf: "frame_wf (?r, n)" using n p(3) by (simp add: frame_wf_def)
    have ext: "extent (?r, n) = (q, unat (frame_size (allocate_size n)))" by (simp add: extent_def)
    have slot: "co_slot s' f = co_slot s f" if f: "f \<in> set st" "frame_wf f" for f
    proof -
      have "alloc_address (fst f) (snd f) \<noteq> alloc_address ?r n"
        using apart_slots [OF wf f(2)] p(4) f(1) ext by auto
      then show ?thesis by (simp add: co_slot_def s'_def s1_def)
    qed
    have new_slot: "co_slot s' (?r, n) = (if top then Some pa else nullptr)" by (simp add: co_slot_def s'_def)
    show ?thesis
    proof (cases "th_tls s")
      case None
      then have "st = []" using ok by (simp add: co_ok_def)
      with None wf new_slot p(2) tls show ?thesis by (auto simp: co_ok_def s'_def top_def ext)
    next
      case (Some c)
      with ok have o: "st \<noteq> []" "list_all frame_wf st" "co_slot s (last st) = Some c"
        "list_all (\<lambda>f. co_slot s f = nullptr) (butlast st)" by (simp_all add: co_ok_def)
      have "list_all (\<lambda>f. co_slot s' f = nullptr) (butlast st)"
        unfolding list_all_iff
      proof
        fix f assume f: "f \<in> set (butlast st)"
        with o(2) have "f \<in> set st" "frame_wf f" by (auto simp: list_all_iff dest: in_set_butlastD)
        with slot [of f] o(4) f show "co_slot s' f = nullptr" by (simp add: list_all_iff)
      qed
      moreover have "co_slot s' (last st) = Some c" using o slot [of "last st"] by (auto simp: list_all_iff)
      ultimately show ?thesis using Some o wf new_slot p(2) tls by (auto simp: co_ok_def s'_def top_def ext pa_def)
    qed
  qed
  with run p(3) tls show thesis
    by (intro that [of ?r s']) (auto simp: s'_def s1_def pa_def [symmetric])
qed

lemma co_delete_ok:
  assumes ok: "co_ok s ((r, n) # st)"
  obtains s' where "co_delete r n s = Some s'" "co_ok s' st" "th_tls s' = (if st = [] then nullptr else th_tls s)"
    "th_facade s' = th_facade s" "th_callback s' = th_callback s"
proof -
  obtain a al cs where a: "th_tls s = Some a" "th_allocs s a = Some al" "falloc_ok al cs (map extent ((r, n) # st))"
    "frame_wf (r, n)" "list_all frame_wf st" "co_slot s (last ((r, n) # st)) = Some a"
    "list_all (\<lambda>f. co_slot s f = nullptr) (butlast ((r, n) # st))"
    using ok by (auto simp: co_ok_def split: option.splits)
  have "falloc_ok al cs ((r - 16, unat (frame_size (allocate_size n))) # map extent st)" using a(3) by (simp add: extent_def)
  from pop_frame_ok [OF this] have pop: "falloc_ok (pop_stack_frame r al) cs (map extent st)" using a(4) by (simp add: frame_wf_def)
  show thesis
  proof (cases "st = []")
    case True
    then have "th_slot s (alloc_address r n) = Some a" using a(6) by (simp add: co_slot_def)
    moreover obtain ds where "falloc_destroy (pop_stack_frame r al) = Some ds"
      using falloc_destroy_ok [OF pop] by blast
    ultimately have "co_delete r n s = Some (s\<lparr>th_tls := nullptr, th_allocs := (th_allocs s)(a := None)\<rparr>)"
      using a(2) by (simp add: co_delete_def)
    then show thesis by (rule that) (use True a(1) in \<open>simp_all add: co_ok_def\<close>)
  next
    case False
    then have "th_slot s (alloc_address r n) = nullptr" using a(7) by (simp add: co_slot_def)
    then have "co_delete r n s = Some (s\<lparr>th_allocs := (th_allocs s)(a \<mapsto> pop_stack_frame r al)\<rparr>)"
      using a(1,2) by (simp add: co_delete_def)
    moreover have "co_ok (s\<lparr>th_allocs := (th_allocs s)(a \<mapsto> pop_stack_frame r al)\<rparr>) st"
      using False a(1,5,6,7) pop by (auto simp: co_ok_def co_slot_def)
    ultimately show thesis by (rule that) (use False in simp_all)
  qed
qed

section \<open>Calls\<close>

text \<open>
  A coroutine that runs to its end within one resumption: its frame is created, it awaits the coroutines it calls one
  after the other, and its frame is destroyed.
\<close>

datatype call = Call u64 "call list"

fun call_ok :: "call \<Rightarrow> bool" where
  "call_ok (Call n cs) \<longleftrightarrow> unat n \<le> 2 ^ 59 \<and> list_all call_ok cs"

fun run_call :: "heap_new \<Rightarrow> nat \<Rightarrow> call \<Rightarrow> thread \<Rightarrow> thread ub"
  and run_calls :: "heap_new \<Rightarrow> nat \<Rightarrow> call list \<Rightarrow> thread \<Rightarrow> thread ub" where
  "run_call new a (Call n cs) s = do {
     (r, s1) \<leftarrow> co_new new a n s;
     s2 \<leftarrow> run_calls new a cs s1;
     co_delete r n s2
   }"
| "run_calls new a [] s = Some s"
| "run_calls new a (c # cs) s = Option.bind (run_call new a c s) (run_calls new a cs)"

definition keeps :: "thread \<Rightarrow> thread \<Rightarrow> bool" where
  "keeps s s' \<longleftrightarrow> th_tls s' = th_tls s \<and> th_facade s' = th_facade s \<and> th_callback s' = th_callback s"

lemma run_calls_ok:
  assumes "\<And>c s. c \<in> set cs \<Longrightarrow> call_ok c \<Longrightarrow> co_ok s st \<Longrightarrow> \<exists>s'. run_call new a c s = Some s' \<and> co_ok s' st \<and> keeps s s'"
  shows "list_all call_ok cs \<Longrightarrow> co_ok s st \<Longrightarrow> \<exists>s'. run_calls new a cs s = Some s' \<and> co_ok s' st \<and> keeps s s'"
  using assms
proof (induction cs arbitrary: s)
  case Nil
  then show ?case by (simp add: keeps_def)
next
  case (Cons c cs)
  from Cons.prems(1,2) Cons.prems(3) [of c s] obtain s1 where s1: "run_call new a c s = Some s1" "co_ok s1 st" "keeps s s1" by auto
  have "\<exists>s'. run_calls new a cs s1 = Some s' \<and> co_ok s' st \<and> keeps s1 s'"
    by (rule Cons.IH [OF _ s1(2)]) (use Cons.prems(1,3) in simp_all)
  with s1 show ?case by (auto simp: keeps_def)
qed

lemma run_call_ok:
  assumes new: "new_ok new"
  shows "call_ok c \<Longrightarrow> co_ok s st \<Longrightarrow> \<exists>s'. run_call new a c s = Some s' \<and> co_ok s' st \<and> keeps s s'"
proof (induction c arbitrary: s st)
  case (Call n cs)
  from Call.prems have n: "unat n \<le> 2 ^ 59" "list_all call_ok cs" by simp_all
  obtain r s1 where s1: "co_new new a n s = Some (r, s1)" "co_ok s1 ((r, n) # st)" "th_facade s1 = th_facade s"
    "th_callback s1 = th_callback s" "th_tls s1 = Some (case th_tls s of None \<Rightarrow> a | Some b \<Rightarrow> b)"
    using co_new_ok [OF Call.prems(2) new n(1)] by metis
  obtain s2 where s2: "run_calls new a cs s1 = Some s2" "co_ok s2 ((r, n) # st)" "keeps s1 s2"
    using run_calls_ok [of cs "(r, n) # st" new a s1, OF Call.IH n(2) s1(2)] by blast
  obtain s3 where s3: "co_delete r n s2 = Some s3" "co_ok s3 st" "th_tls s3 = (if st = [] then nullptr else th_tls s2)"
    "th_facade s3 = th_facade s2" "th_callback s3 = th_callback s2"
    using co_delete_ok [OF s2(2)] by metis
  have "th_tls s3 = th_tls s"
    using s3(3) s2(3) s1(5) Call.prems(2) by (auto simp: keeps_def co_ok_def split: option.splits)
  with s1 s2 s3 show ?case by (simp add: keeps_def)
qed

lemma resumed_start: "co_ok (s\<lparr>th_facade := f, th_tls := nullptr\<rparr>) []"
  by (simp add: co_ok_def)

text \<open>A facade that its own coroutine destroys is read after its end.\<close>

lemma facade_destroyed_undefined:
  assumes "body (s\<lparr>th_facade := (th_facade s)(f \<mapsto> th_tls s), th_tls := nullptr\<rparr>) = Some s1" "th_facade s1 f = None"
  shows "facade_execute f body run s = None"
  using assms by (simp add: facade_execute_def Option.bind_eq_None_conv split: option.split)

section \<open>Properties\<close>



text \<open>
  a coroutine that was created inside another one and is destroyed in a later resumption, as when it awaited an
  operation, is undefined behaviour: its slot is null, so that \<open>operator delete\<close> pops the frame from the
  thread's allocator, but \<open>_M_do_execute\<close> has set that to null for the resumption.
\<close>

theorem resumed_delete_undefined:
  assumes "co_ok s ((r, n) # st)" "st \<noteq> []"
  shows "facade_execute f (co_delete r n) run s = None"
proof -
  have "th_slot s (alloc_address r n) = nullptr"
    using assms by (auto simp: co_ok_def co_slot_def split: option.splits)
  then show ?thesis by (simp add: facade_execute_def co_delete_def Option.bind_eq_None_conv)
qed

theorem resumed_delete_undefined_witness:
  "\<exists>s r r0. co_ok s [(r, 30), (r0, 100)] \<and> co_delete r 30 s \<noteq> None \<and> facade_execute 8 (co_delete r 30) (\<lambda>_. Some) s = None"
proof -
  have t: "co_ok thread_new []" by (simp add: co_ok_def thread_new_def)
  have n: "unat (100 :: u64) \<le> 2 ^ 59" "unat (30 :: u64) \<le> 2 ^ 59" by simp_all
  obtain r0 s0 where s0: "co_ok s0 [(r0, 100)]" by (rule co_new_ok [OF t bump_new_ok n(1), of 64])
  obtain r s where s: "co_ok s [(r, 30), (r0, 100)]" by (rule co_new_ok [OF s0 bump_new_ok n(2), of 64])
  obtain s' where "co_delete r 30 s = Some s'" by (rule co_delete_ok [OF s])
  with s resumed_delete_undefined [OF s] show ?thesis by blast
qed

end
