(* ===== verification/Ring_Setup.thy ===== *)
theory Ring_Setup
  imports Io_Ring
begin

text \<open>
  \<open>__file_descriptor.hpp\<close>, \<open>__memory_mapped_region.hpp\<close>, \<open>__throw_error_code_if.hpp\<close> and the construction of
  \<open>__scheduler_base\<close> and \<open>__scheduler\<close> in \<open>__scheduler.hpp\<close>. What the system calls return is the parameter
  \<open>sys\<close>. Every call that acquires or releases a resource is an event; a step of the constructor returns the error it
  throws or the object, with the events. A constructor that throws destroys the members it has constructed.
\<close>

section \<open>Handles\<close>

datatype event = Open s32 | Close s32 | Map u64 u64 | Unmap u64 u64

definition throw_error_code_if :: "bool \<Rightarrow> s32 \<Rightarrow> s32 + unit" where
  "throw_error_code_if c ec = (if c then Inl ec else Inr ())"

text \<open>A file descriptor; \<open>-1\<close> is none. Moving returns the new object and what is left of the source.\<close>

definition fd_move :: "s32 \<Rightarrow> s32 \<times> s32" where
  "fd_move other = (other, - 1)"

definition fd_destroy :: "s32 \<Rightarrow> event list" where
  "fd_destroy fd = (if fd \<noteq> - 1 then [Close fd] else [])"

definition fd_assign :: "s32 \<Rightarrow> s32 \<Rightarrow> event list \<times> s32 \<times> s32" where
  "fd_assign self other = (if self \<noteq> - 1 then [Close self] else [], other, - 1)"

record region =
  mm_data :: u64
  mm_size :: u64

definition region_none :: region where
  "region_none = \<lparr>mm_data = 0, mm_size = 0\<rparr>"

definition region_new :: "u64 \<Rightarrow> u64 \<Rightarrow> region" where
  "region_new p n = (let r = \<lparr>mm_data = p, mm_size = n\<rparr> in if mm_data r = - 1 then r\<lparr>mm_data := 0\<rparr> else r)"

definition region_destroy :: "region \<Rightarrow> event list" where
  "region_destroy r = (if mm_data r \<noteq> 0 then [Unmap (mm_data r) (mm_size r)] else [])"

definition region_move :: "region \<Rightarrow> region \<times> region" where
  "region_move other = (other, region_none)"

definition region_assign :: "region \<Rightarrow> region \<Rightarrow> event list \<times> region \<times> region" where
  "region_assign self other = (if mm_data self \<noteq> 0 then [Unmap (mm_data self) (mm_size self)] else [], other, region_none)"

definition region_bool :: "region \<Rightarrow> bool" where
  "region_bool r \<longleftrightarrow> mm_data r \<noteq> 0"

section \<open>System calls\<close>

record offsets =
  off_head :: u32
  off_tail :: u32
  off_ring_mask :: u32
  off_array :: u32

record uring_params =
  up_sq_entries :: u32
  up_cq_entries :: u32
  up_flags :: u32
  up_features :: u32
  up_sq_off :: offsets
  up_cq_off :: offsets

text \<open>\<open>off_array\<close> of the completion ring is \<open>cq_off.cqes\<close>. A call that fails returns -1 and sets \<open>errno\<close>.\<close>

record syscalls =
  sys_setup :: "u32 \<Rightarrow> uring_params \<Rightarrow> s32 \<times> uring_params"
  sys_eventfd :: s32
  sys_mmap :: "s32 \<Rightarrow> u64 \<Rightarrow> u64 \<Rightarrow> u64"
  sys_register :: "s32 \<Rightarrow> s32 \<Rightarrow> s32"
  sys_errno :: s32

definition offsets_zero :: offsets where
  "offsets_zero = \<lparr>off_head = 0, off_tail = 0, off_ring_mask = 0, off_array = 0\<rparr>"

definition init_params :: "u32 \<Rightarrow> uring_params" where
  "init_params flags = (let p = \<lparr>up_sq_entries = 0, up_cq_entries = 0, up_flags = 0, up_features = 0,
       up_sq_off = offsets_zero, up_cq_off = offsets_zero\<rparr>;
     p1 = p\<lparr>up_flags := flags\<rparr>; p2 = p1\<lparr>up_flags := up_flags p1 OR 8192\<rparr>; p3 = p2\<lparr>up_flags := up_flags p2 OR 4096\<rparr>
     in p3\<lparr>up_features := up_features p3 OR 1\<rparr>)"

definition io_uring_setup :: "syscalls \<Rightarrow> u32 \<Rightarrow> uring_params \<Rightarrow> s32 + s32 \<times> uring_params" where
  "io_uring_setup sys n p = (case sys_setup sys n p of (rc, p') \<Rightarrow>
     (case throw_error_code_if (sint rc < 0) (- rc) of Inl e \<Rightarrow> Inl e | Inr _ \<Rightarrow> Inr (rc, p')))"

definition map_region :: "syscalls \<Rightarrow> s32 \<Rightarrow> u64 \<Rightarrow> u64 \<Rightarrow> s32 + region" where
  "map_region sys fd off n = (let p = sys_mmap sys fd off n in
     (case throw_error_code_if (p = - 1) (sys_errno sys) of Inl e \<Rightarrow> Inl e | Inr _ \<Rightarrow> Inr (region_new p n)))"

definition register_eventfd_async :: "syscalls \<Rightarrow> s32 \<Rightarrow> s32 \<Rightarrow> s32 + unit" where
  "register_eventfd_async sys rfd efd = throw_error_code_if (sint (sys_register sys rfd efd) < 0) (- sys_errno sys)"

text \<open>The wrappers of \<open>io_uring_enter\<close> and \<open>io_uring_register\<close> give the error as a negative number.\<close>

definition syscall_result :: "s32 \<Rightarrow> s32 \<Rightarrow> s32" where
  "syscall_result rc errno = (if rc = - 1 then - errno else rc)"

section \<open>Construction\<close>

record base =
  bs_sq :: region
  bs_cq :: region
  bs_sqe :: region
  bs_params :: uring_params
  bs_ringfd :: s32
  bs_eventfd :: s32

text \<open>The members are destroyed in the reverse order of their declaration.\<close>

definition base_destroy :: "base \<Rightarrow> event list" where
  "base_destroy b = fd_destroy (bs_eventfd b) @ fd_destroy (bs_ringfd b) @ region_destroy (bs_sqe b) @ region_destroy (bs_cq b)
     @ region_destroy (bs_sq b)"

definition base_throw :: "s32 \<Rightarrow> event list \<Rightarrow> base \<Rightarrow> (s32 + base) \<times> event list" where
  "base_throw e ev b = (Inl e, ev @ base_destroy b)"

definition ring_sizes :: "uring_params \<Rightarrow> u64 \<times> u64 \<times> u64" where
  "ring_sizes p = (let n_sq = ucast (off_array (up_sq_off p)) + ucast (up_sq_entries p) * 4;
       n_cq = ucast (off_array (up_cq_off p)) + ucast (up_cq_entries p) * 16;
       n_sqe = ucast (up_sq_entries p) * 64
     in if up_features p AND 1 \<noteq> 0
        then (let n = ucast (umax (ucast n_sq) (ucast n_cq)) in (n, n, n_sqe))
        else (n_sq, n_cq, n_sqe))"

definition map_member :: "syscalls \<Rightarrow> base \<Rightarrow> event list \<Rightarrow> u64 \<Rightarrow> u64 \<Rightarrow> (region \<Rightarrow> base)
    \<Rightarrow> (base \<Rightarrow> event list \<Rightarrow> (s32 + base) \<times> event list) \<Rightarrow> region \<Rightarrow> (s32 + base) \<times> event list" where
  "map_member sys b ev off n upd k old = (case map_region sys (bs_ringfd b) off n of
       Inl e \<Rightarrow> base_throw e ev b
     | Inr r \<Rightarrow> (case region_assign old r of (ev', r', _) \<Rightarrow> k (upd r') (ev @ Map (mm_data r) (mm_size r) # ev')))"

definition base_register :: "syscalls \<Rightarrow> base \<Rightarrow> event list \<Rightarrow> (s32 + base) \<times> event list" where
  "base_register sys b ev = (case register_eventfd_async sys (bs_ringfd b) (bs_eventfd b) of
     Inl e \<Rightarrow> base_throw e ev b | Inr _ \<Rightarrow> (Inr b, ev))"

definition base_map :: "syscalls \<Rightarrow> base \<Rightarrow> event list \<Rightarrow> (s32 + base) \<times> event list" where
  "base_map sys b ev = (case ring_sizes (bs_params b) of (n_sq, n_cq, n_sqe) \<Rightarrow>
     map_member sys b ev 0 n_sq (\<lambda>r. b\<lparr>bs_sq := r\<rparr>) (\<lambda>b ev.
       map_member sys b ev 268435456 n_sqe (\<lambda>r. b\<lparr>bs_sqe := r\<rparr>) (\<lambda>b ev.
         if up_features (bs_params b) AND 1 = 0
         then map_member sys b ev 134217728 n_cq (\<lambda>r. b\<lparr>bs_cq := r\<rparr>) (base_register sys) (bs_cq b)
         else base_register sys b ev) (bs_sqe b)) (bs_sq b))"

definition base_new :: "syscalls \<Rightarrow> u32 \<Rightarrow> u32 \<Rightarrow> (s32 + base) \<times> event list" where
  "base_new sys n flags = (case io_uring_setup sys n (init_params flags) of
       Inl e \<Rightarrow> (Inl e, [])
     | Inr (rfd, p) \<Rightarrow>
        (let efd = sys_eventfd sys;
             b = \<lparr>bs_sq = region_none, bs_cq = region_none, bs_sqe = region_none, bs_params = p, bs_ringfd = rfd, bs_eventfd = efd\<rparr>;
             ev = Open rfd # (if efd = - 1 then [] else [Open efd])
         in if bs_ringfd b = - 1 then base_throw (sys_errno sys) ev b
            else if bs_eventfd b = - 1 then base_throw (sys_errno sys) ev b
            else base_map sys b ev))"

text \<open>The rings: where each field of the shared memory is, as the address of its region plus its offset.\<close>

record sq_view =
  sv_head :: u64
  sv_tail :: u64
  sv_array :: u64
  sv_sqe :: u64
  sv_mask :: u64
  sv_n_slot :: u32

record cq_view =
  cv_head :: u64
  cv_tail :: u64
  cv_cqe :: u64
  cv_mask :: u64

definition at_offset_as :: "u64 \<Rightarrow> u32 \<Rightarrow> u64" where
  "at_offset_as base offset = base + ucast offset"

definition sq_view_new :: "region \<Rightarrow> region \<Rightarrow> uring_params \<Rightarrow> sq_view" where
  "sq_view_new sq sqe p =
     \<lparr>sv_head = at_offset_as (mm_data sq) (off_head (up_sq_off p)), sv_tail = at_offset_as (mm_data sq) (off_tail (up_sq_off p)),
      sv_array = at_offset_as (mm_data sq) (off_array (up_sq_off p)), sv_sqe = mm_data sqe,
      sv_mask = at_offset_as (mm_data sq) (off_ring_mask (up_sq_off p)), sv_n_slot = up_sq_entries p\<rparr>"

definition cq_view_new :: "region \<Rightarrow> uring_params \<Rightarrow> cq_view" where
  "cq_view_new cqe p =
     \<lparr>cv_head = at_offset_as (mm_data cqe) (off_head (up_cq_off p)), cv_tail = at_offset_as (mm_data cqe) (off_tail (up_cq_off p)),
      cv_cqe = at_offset_as (mm_data cqe) (off_array (up_cq_off p)), cv_mask = at_offset_as (mm_data cqe) (off_ring_mask (up_cq_off p))\<rparr>"

definition scheduler_views :: "base \<Rightarrow> cq_view \<times> sq_view" where
  "scheduler_views b = (cq_view_new (if region_bool (bs_cq b) then bs_cq b else bs_sq b) (bs_params b),
     sq_view_new (bs_sq b) (bs_sqe b) (bs_params b))"

section \<open>Balance of resources\<close>

datatype resource = Fd s32 | Mem u64 u64

fun acquired :: "event list \<Rightarrow> resource multiset" where
  "acquired [] = {#}"
| "acquired (Open fd # ev) = {#Fd fd#} + acquired ev"
| "acquired (Map p n # ev) = {#Mem p n#} + acquired ev"
| "acquired (_ # ev) = acquired ev"

fun released :: "event list \<Rightarrow> resource multiset" where
  "released [] = {#}"
| "released (Close fd # ev) = {#Fd fd#} + released ev"
| "released (Unmap p n # ev) = {#Mem p n#} + released ev"
| "released (_ # ev) = released ev"

lemma acquired_append [simp]: "acquired (ev @ ev') = acquired ev + acquired ev'"
  by (induction ev rule: acquired.induct) auto

lemma released_append [simp]: "released (ev @ ev') = released ev + released ev'"
  by (induction ev rule: released.induct) auto

lemma destroy_events [simp]:
  "acquired (fd_destroy fd) = {#}" "acquired (region_destroy r) = {#}" "acquired (base_destroy b) = {#}"
  "released (fd_destroy fd) = (if fd = - 1 then {#} else {#Fd fd#})"
  "released (region_destroy r) = (if mm_data r = 0 then {#} else {#Mem (mm_data r) (mm_size r)#})"
  by (simp_all add: fd_destroy_def region_destroy_def base_destroy_def)

definition balanced :: "event list \<Rightarrow> base \<Rightarrow> bool" where
  "balanced ev b \<longleftrightarrow> acquired ev = released ev + released (base_destroy b)"

definition outcome_ok :: "(s32 + base) \<times> event list \<Rightarrow> bool" where
  "outcome_ok res \<longleftrightarrow> (case res of (Inl e, ev) \<Rightarrow> acquired ev = released ev | (Inr b, ev) \<Rightarrow> balanced ev b)"

lemma throw_ok: "balanced ev b \<Longrightarrow> outcome_ok (base_throw e ev b)"
  by (simp add: outcome_ok_def balanced_def base_throw_def)

lemma map_region_cases:
  assumes "\<And>fd off n. sys_mmap sys fd off n \<noteq> 0"
  obtains e where "map_region sys fd off n = Inl e"
  | p where "map_region sys fd off n = Inr \<lparr>mm_data = p, mm_size = n\<rparr>" "p \<noteq> 0"
  using assms [of fd off n] by (cases "sys_mmap sys fd off n = - 1") (auto simp: map_region_def throw_error_code_if_def region_new_def Let_def)

lemma map_member_ok:
  assumes mm: "\<And>fd off n. sys_mmap sys fd off n \<noteq> 0" and bal: "balanced ev b" and old: "old = region_none"
    and upd: "\<And>r. released (base_destroy (upd r)) = released (base_destroy b) + released (region_destroy r)"
    and k: "\<And>r ev. balanced ev (upd r) \<Longrightarrow> outcome_ok (k (upd r) ev)"
  shows "outcome_ok (map_member sys b ev off n upd k old)"
proof (cases rule: map_region_cases [where sys = sys and fd = "bs_ringfd b" and off = off and n = n, OF mm])
  case (1 e)
  then show ?thesis using throw_ok [OF bal] by (simp add: map_member_def)
next
  case (2 p)
  let ?r = "\<lparr>mm_data = p, mm_size = n\<rparr>"
  have "balanced (ev @ [Map p n]) (upd ?r)" using bal 2(2) by (simp add: balanced_def upd)
  from k [OF this] show ?thesis using 2 old by (simp add: map_member_def region_assign_def region_none_def)
qed

lemma base_register_ok: "balanced ev b \<Longrightarrow> outcome_ok (base_register sys b ev)"
  using throw_ok [of ev b] by (auto simp: outcome_ok_def base_register_def split: sum.split)

lemma base_map_ok:
  assumes mm: "\<And>fd off n. sys_mmap sys fd off n \<noteq> 0" and bal: "balanced ev b"
    and none: "bs_sq b = region_none" "bs_sqe b = region_none" "bs_cq b = region_none"
  shows "outcome_ok (base_map sys b ev)"
  unfolding base_map_def using bal none
  by (auto simp: base_destroy_def region_none_def split: prod.split intro!: map_member_ok [OF mm] base_register_ok)

lemma setup_fd: "io_uring_setup sys n p = Inr (rfd, p') \<Longrightarrow> rfd \<noteq> - 1"
  by (auto simp: io_uring_setup_def throw_error_code_if_def split: prod.splits if_splits)

lemma base_new_ok:
  assumes mm: "\<And>fd off n. sys_mmap sys fd off n \<noteq> 0"
  shows "outcome_ok (base_new sys n flags)"
proof (cases "io_uring_setup sys n (init_params flags)")
  case (Inl e)
  then show ?thesis by (simp add: base_new_def outcome_ok_def)
next
  case (Inr x)
  obtain rfd p where x: "x = (rfd, p)" by fastforce
  let ?b = "\<lparr>bs_sq = region_none, bs_cq = region_none, bs_sqe = region_none, bs_params = p, bs_ringfd = rfd, bs_eventfd = sys_eventfd sys\<rparr>"
  let ?ev = "Open rfd # (if sys_eventfd sys = - 1 then [] else [Open (sys_eventfd sys)])"
  have r: "rfd \<noteq> - 1" using setup_fd Inr x by blast
  have bal: "balanced ?ev ?b" using r by (simp add: balanced_def base_destroy_def region_none_def)
  have "outcome_ok (base_map sys ?b ?ev)" by (rule base_map_ok [OF mm bal]) simp_all
  with throw_ok [OF bal] Inr x r show ?thesis by (cases "sys_eventfd sys = - 1") (simp_all add: base_new_def Let_def)
qed

section \<open>Sizes\<close>

lemma map_member_Inr:
  assumes "map_member sys b ev off n upd k old = (Inr b', ev')" "old = region_none" "\<And>fd off n. sys_mmap sys fd off n \<noteq> 0"
  obtains p ev1 where "p \<noteq> 0" "k (upd \<lparr>mm_data = p, mm_size = n\<rparr>) ev1 = (Inr b', ev')"
proof (cases rule: map_region_cases [where sys = sys and fd = "bs_ringfd b" and off = off and n = n, OF assms(3)])
  case (1 e)
  then show ?thesis using assms(1) by (simp add: map_member_def base_throw_def)
next
  case (2 p)
  then show ?thesis using assms(1,2) that by (auto simp: map_member_def region_assign_def region_none_def)
qed

lemma base_map_Inr:
  assumes m: "base_map sys b ev = (Inr b', ev')" and mm: "\<And>fd off n. sys_mmap sys fd off n \<noteq> 0"
    and none: "bs_sq b = region_none" "bs_sqe b = region_none" "bs_cq b = region_none"
    and sz: "ring_sizes (bs_params b) = (n_sq, n_cq, n_sqe)"
  shows "\<exists>q1 q2 q3. q1 \<noteq> 0 \<and> q2 \<noteq> 0 \<and> q3 \<noteq> 0 \<and> bs_params b' = bs_params b \<and> bs_sq b' = \<lparr>mm_data = q1, mm_size = n_sq\<rparr>
    \<and> bs_sqe b' = \<lparr>mm_data = q2, mm_size = n_sqe\<rparr>
    \<and> bs_cq b' = (if up_features (bs_params b) AND 1 = 0 then \<lparr>mm_data = q3, mm_size = n_cq\<rparr> else region_none)"
proof -
  define K2 where "K2 = (\<lambda>b ev. if up_features (bs_params b) AND 1 = 0
    then map_member sys b ev 134217728 n_cq (\<lambda>r. b\<lparr>bs_cq := r\<rparr>) (base_register sys) (bs_cq b) else base_register sys b ev)"
  define K1 where "K1 = (\<lambda>b ev. map_member sys b ev 268435456 n_sqe (\<lambda>r. b\<lparr>bs_sqe := r\<rparr>) K2 (bs_sqe b))"
  have "map_member sys b ev 0 n_sq (\<lambda>r. b\<lparr>bs_sq := r\<rparr>) K1 (bs_sq b) = (Inr b', ev')"
    using m by (simp add: base_map_def sz K1_def K2_def)
  from map_member_Inr [OF this none(1) mm] obtain q1 ev1 where
    q1: "q1 \<noteq> 0" "K1 (b\<lparr>bs_sq := \<lparr>mm_data = q1, mm_size = n_sq\<rparr>\<rparr>) ev1 = (Inr b', ev')" by auto
  define b1 where "b1 = b\<lparr>bs_sq := \<lparr>mm_data = q1, mm_size = n_sq\<rparr>\<rparr>"
  have b1: "bs_sqe b1 = region_none" "bs_cq b1 = region_none" "bs_params b1 = bs_params b" "bs_sq b1 = \<lparr>mm_data = q1, mm_size = n_sq\<rparr>"
    using none by (simp_all add: b1_def)
  from map_member_Inr [OF q1(2) [folded b1_def, unfolded K1_def] b1(1) mm] obtain q2 ev2 where
    q2: "q2 \<noteq> 0" "K2 (b1\<lparr>bs_sqe := \<lparr>mm_data = q2, mm_size = n_sqe\<rparr>\<rparr>) ev2 = (Inr b', ev')" by auto
  define b2 where "b2 = b1\<lparr>bs_sqe := \<lparr>mm_data = q2, mm_size = n_sqe\<rparr>\<rparr>"
  have b2: "bs_sqe b2 = \<lparr>mm_data = q2, mm_size = n_sqe\<rparr>" "bs_cq b2 = region_none" "bs_params b2 = bs_params b"
    "bs_sq b2 = \<lparr>mm_data = q1, mm_size = n_sq\<rparr>"
    using b1 by (simp_all add: b2_def)
  have reg: "base_register sys c ev = (Inr b', ev') \<Longrightarrow> b' = c" for c ev ev'
    by (auto simp: base_register_def base_throw_def split: sum.splits)
  show ?thesis
  proof (cases "up_features (bs_params b) AND 1 = 0")
    case True
    with q2(2) have "map_member sys b2 ev2 134217728 n_cq (\<lambda>r. b2\<lparr>bs_cq := r\<rparr>) (base_register sys) (bs_cq b2) = (Inr b', ev')"
      by (simp add: K2_def b2_def [symmetric] b2(3))
    from map_member_Inr [OF this b2(2) mm] obtain q3 ev3 where
      q3: "q3 \<noteq> 0" "base_register sys (b2\<lparr>bs_cq := \<lparr>mm_data = q3, mm_size = n_cq\<rparr>\<rparr>) ev3 = (Inr b', ev')" by auto
    from reg [OF q3(2)] q1(1) q2(1) q3(1) b2 True show ?thesis
      by (intro exI [of _ q1] exI [of _ q2] exI [of _ q3]) simp
  next
    case False
    with q2(2) have "b' = b2" by (intro reg [of _ ev2]) (simp add: K2_def b2_def [symmetric] b2(3))
    with q1(1) q2(1) b2 False show ?thesis by (intro exI [of _ q1] exI [of _ q2] exI [of _ 1]) simp
  qed
qed

text \<open>A constructed base maps the submission ring, the entries and, unless the kernel offers one mapping, the completion ring.\<close>

lemma base_new_regions:
  assumes new: "base_new sys n flags = (Inr b, ev)" and mm: "\<And>fd off n. sys_mmap sys fd off n \<noteq> 0"
  shows "region_bool (bs_sq b)" "region_bool (bs_sqe b)"
    "mm_size (bs_sq b) = fst (ring_sizes (bs_params b))" "mm_size (bs_sqe b) = snd (snd (ring_sizes (bs_params b)))"
    "region_bool (bs_cq b) \<longleftrightarrow> up_features (bs_params b) AND 1 = 0"
    "region_bool (bs_cq b) \<Longrightarrow> mm_size (bs_cq b) = fst (snd (ring_sizes (bs_params b)))"
proof -
  obtain rfd p where x: "io_uring_setup sys n (init_params flags) = Inr (rfd, p)"
    using new by (auto simp: base_new_def split: sum.splits)
  let ?b = "\<lparr>bs_sq = region_none, bs_cq = region_none, bs_sqe = region_none, bs_params = p, bs_ringfd = rfd, bs_eventfd = sys_eventfd sys\<rparr>"
  obtain ev0 where m: "base_map sys ?b ev0 = (Inr b, ev)"
    using new x by (auto simp: base_new_def base_throw_def Let_def split: if_splits)
  obtain n_sq n_cq n_sqe where sz: "ring_sizes p = (n_sq, n_cq, n_sqe)" by (cases "ring_sizes p")
  have "ring_sizes (bs_params ?b) = (n_sq, n_cq, n_sqe)" using sz by simp
  from base_map_Inr [OF m mm _ _ _ this] obtain q1 q2 q3 where q: "q1 \<noteq> 0" "q2 \<noteq> 0" "q3 \<noteq> 0" "bs_params b = p"
    "bs_sq b = \<lparr>mm_data = q1, mm_size = n_sq\<rparr>" "bs_sqe b = \<lparr>mm_data = q2, mm_size = n_sqe\<rparr>"
    "bs_cq b = (if up_features p AND 1 = 0 then \<lparr>mm_data = q3, mm_size = n_cq\<rparr> else region_none)" by auto
  then show "region_bool (bs_sq b)" "region_bool (bs_sqe b)"
    "mm_size (bs_sq b) = fst (ring_sizes (bs_params b))" "mm_size (bs_sqe b) = snd (snd (ring_sizes (bs_params b)))"
    "region_bool (bs_cq b) \<longleftrightarrow> up_features (bs_params b) AND 1 = 0"
    "region_bool (bs_cq b) \<Longrightarrow> mm_size (bs_cq b) = fst (snd (ring_sizes (bs_params b)))"
    by (auto simp: region_bool_def region_none_def sz)
qed

lemma ring_sizes_cover:
  assumes "unat (off_array (up_sq_off p)) + 4 * unat (up_sq_entries p) < 2 ^ 32"
    "unat (off_array (up_cq_off p)) + 16 * unat (up_cq_entries p) < 2 ^ 32"
  shows "unat (off_array (up_sq_off p)) + 4 * unat (up_sq_entries p) \<le> unat (fst (ring_sizes p))"
    "unat (off_array (up_cq_off p)) + 16 * unat (up_cq_entries p) \<le> unat (fst (snd (ring_sizes p)))"
    "unat (snd (snd (ring_sizes p))) = 64 * unat (up_sq_entries p)"
    "up_features p AND 1 \<noteq> 0 \<Longrightarrow> fst (snd (ring_sizes p)) = fst (ring_sizes p)"
proof -
  have c: "unat (ucast w :: u64) = unat w" for w :: u32
    using unat_u32_bound [of w] by (simp add: unsigned_ucast_eq take_bit_nat_def)
  have d: "unat (ucast v :: u32) = unat v" if "unat v < 2 ^ 32" for v :: u64
    using that by (simp add: unsigned_ucast_eq take_bit_nat_def)
  let ?sq = "ucast (off_array (up_sq_off p)) + ucast (up_sq_entries p) * 4 :: u64"
  let ?cq = "ucast (off_array (up_cq_off p)) + ucast (up_cq_entries p) * 16 :: u64"
  have sq: "unat ?sq = unat (off_array (up_sq_off p)) + 4 * unat (up_sq_entries p)"
    using assms(1) by (simp add: unat_word_ariths c mult.commute)
  have cq: "unat ?cq = unat (off_array (up_cq_off p)) + 16 * unat (up_cq_entries p)"
    using assms(2) by (simp add: unat_word_ariths c mult.commute)
  have mx: "unat (ucast (umax (ucast ?sq) (ucast ?cq)) :: u64) = max (unat ?sq) (unat ?cq)"
    using assms sq cq by (simp add: c umax_def d word_less_nat_alt max_def)
  show "unat (off_array (up_sq_off p)) + 4 * unat (up_sq_entries p) \<le> unat (fst (ring_sizes p))"
    "unat (off_array (up_cq_off p)) + 16 * unat (up_cq_entries p) \<le> unat (fst (snd (ring_sizes p)))"
    using sq cq mx by (simp_all add: ring_sizes_def Let_def)
  show "unat (snd (snd (ring_sizes p))) = 64 * unat (up_sq_entries p)"
    using unat_u32_bound [of "up_sq_entries p"] by (simp add: ring_sizes_def Let_def unat_word_ariths c mult.commute)
  show "up_features p AND 1 \<noteq> 0 \<Longrightarrow> fst (snd (ring_sizes p)) = fst (ring_sizes p)" by (simp add: ring_sizes_def Let_def)
qed

section \<open>Properties\<close>

text \<open>
  C33: construction leaks nothing, whichever of its system calls fails: the descriptors and mappings acquired are exactly those
  released when it throws, and those that destroying the scheduler releases when it succeeds, each once.
\<close>

theorem setup_releases_all:
  assumes "\<And>fd off n. sys_mmap sys fd off n \<noteq> 0"
  shows "case base_new sys n flags of
      (Inl e, ev) \<Rightarrow> acquired ev = released ev
    | (Inr b, ev) \<Rightarrow> acquired ev = released (ev @ base_destroy b)"
  using base_new_ok [OF assms, of n flags] by (auto simp: outcome_ok_def balanced_def split: prod.splits sum.splits)

text \<open>A kernel that gives rings of 8 and 16 entries in two mappings, and whose registration returns \<open>rc\<close>.\<close>

definition demo_sys :: "s32 \<Rightarrow> syscalls" where
  "demo_sys rc = \<lparr>sys_setup = (\<lambda>n p. (3, p\<lparr>up_sq_entries := 8, up_cq_entries := 16, up_features := 0,
       up_sq_off := offsets_zero\<lparr>off_array := 64\<rparr>, up_cq_off := offsets_zero\<lparr>off_array := 128\<rparr>\<rparr>)),
     sys_eventfd = 4, sys_mmap = (\<lambda>fd off n. if off = 0 then 65536 else off), sys_register = (\<lambda>rfd efd. rc), sys_errno = 12\<rparr>"

lemma demo_sys_mmap: "sys_mmap (demo_sys rc) fd off n \<noteq> 0"
  by (simp add: demo_sys_def)

theorem setup_releases_all_witness:
  "\<exists>e ev. base_new (demo_sys (- 1)) 8 0 = (Inl e, ev) \<and> acquired ev = released ev \<and> length ev = 10"
proof -
  have "case base_new (demo_sys (- 1)) 8 0 of (Inl e, ev) \<Rightarrow> length ev = 10 | (Inr b, ev) \<Rightarrow> False" by code_simp
  then obtain e ev where e: "base_new (demo_sys (- 1)) 8 0 = (Inl e, ev)" "length ev = 10"
    by (auto split: prod.splits sum.splits)
  from setup_releases_all [OF demo_sys_mmap, of "- 1" 8 0] e show ?thesis by auto
qed

text \<open>
  C34: the mapped regions cover the rings: every entry of the submission array, of the entries and of the completion queue lies
  in the region the scheduler's views address it in, whether the kernel offers one mapping for both rings or two. (The
  sizes are compared as 32-bit numbers by \<open>__umax\<close>; they must fit.)
\<close>

theorem setup_covers_rings:
  assumes "base_new sys n flags = (Inr b, ev)" "\<And>fd off n. sys_mmap sys fd off n \<noteq> 0"
    and "unat (off_array (up_sq_off (bs_params b))) + 4 * unat (up_sq_entries (bs_params b)) < 2 ^ 32"
    and "unat (off_array (up_cq_off (bs_params b))) + 16 * unat (up_cq_entries (bs_params b)) < 2 ^ 32"
  shows "let cq = (if region_bool (bs_cq b) then bs_cq b else bs_sq b); p = bs_params b; (cv, sv) = scheduler_views b in
      sv_array sv = mm_data (bs_sq b) + ucast (off_array (up_sq_off p)) \<and> sv_sqe sv = mm_data (bs_sqe b)
    \<and> cv_cqe cv = mm_data cq + ucast (off_array (up_cq_off p))
    \<and> (\<forall>i < unat (up_sq_entries p). unat (off_array (up_sq_off p)) + 4 * i + 4 \<le> unat (mm_size (bs_sq b)) \<and> 64 * i + 64 \<le> unat (mm_size (bs_sqe b)))
    \<and> (\<forall>i < unat (up_cq_entries p). unat (off_array (up_cq_off p)) + 16 * i + 16 \<le> unat (mm_size cq))"
proof -
  note r = base_new_regions [OF assms(1,2)] and s = ring_sizes_cover [OF assms(3,4)]
  have cq: "mm_size (if region_bool (bs_cq b) then bs_cq b else bs_sq b) = fst (snd (ring_sizes (bs_params b)))"
    using r(3,5,6) s(4) by auto
  have "unat (off_array (up_sq_off (bs_params b))) + 4 * i + 4 \<le> unat (mm_size (bs_sq b))" "64 * i + 64 \<le> unat (mm_size (bs_sqe b))"
    if "i < unat (up_sq_entries (bs_params b))" for i using that r(3,4) s(1,3) by simp_all
  moreover have "unat (off_array (up_cq_off (bs_params b))) + 16 * i + 16 \<le> unat (fst (snd (ring_sizes (bs_params b))))"
    if "i < unat (up_cq_entries (bs_params b))" for i using that s(2) by simp
  ultimately show ?thesis unfolding Let_def cq by (simp add: scheduler_views_def sq_view_new_def cq_view_new_def at_offset_as_def)
qed

theorem setup_covers_rings_witness:
  "\<exists>b. fst (base_new (demo_sys 0) 8 0) = Inr b \<and> (\<forall>i < 16. 128 + 16 * i + 16 \<le> unat (mm_size (bs_cq b)))"
proof -
  have "case base_new (demo_sys 0) 8 0 of (Inl e, ev) \<Rightarrow> False | (Inr b, ev) \<Rightarrow> region_bool (bs_cq b)
      \<and> off_array (up_sq_off (bs_params b)) = 64 \<and> off_array (up_cq_off (bs_params b)) = 128
      \<and> up_sq_entries (bs_params b) = 8 \<and> up_cq_entries (bs_params b) = 16" by code_simp
  then obtain b ev where b: "base_new (demo_sys 0) 8 0 = (Inr b, ev)" "region_bool (bs_cq b)"
    "off_array (up_sq_off (bs_params b)) = 64" "off_array (up_cq_off (bs_params b)) = 128"
    "up_sq_entries (bs_params b) = 8" "up_cq_entries (bs_params b) = 16" by (auto split: prod.splits sum.splits)
  from setup_covers_rings [OF b(1) demo_sys_mmap] b show ?thesis by (auto simp: Let_def)
qed

end
