(* ===== verification/Run_Loop.thy ===== *)
theory Run_Loop
  imports Io_Ring
begin

text \<open>
  The run loop of \<open>__scheduler\<close> in \<open>__scheduler.hpp\<close>: one round completes what the kernel has published, submits from the
  private queue, and enters the kernel. The scheduler's state extends the state of the operations with the two rings and the
  two counters (\<open>std::ptrdiff_t\<close>, here integers). Parameters of a round are the loads of the kernel's tail, the answers of
  \<open>_M_stop_requested\<close>, the kernel, and what \<open>_M_accept_remote_request\<close> does; \<open>drain\<close> is the timer half of
  \<open>_M_io_uring_submit\<close> (theory \<open>Timers\<close>).
\<close>

section \<open>State and operations\<close>

record sched = io +
  sc_sq :: sq_ring
  sc_cq :: cq_ring
  sc_cq_entries :: u32
  sc_total :: int
  sc_newly :: int

definition eintr :: s32 where "eintr = 4"
definition etime :: s32 where "etime = 62"

definition sched_submit ::
  "('z sched_ext) submit_fn \<Rightarrow> ('z sched_ext) complete_fn \<Rightarrow> (bool \<Rightarrow> 'z sched_scheme \<Rightarrow> 'z sched_scheme ub) \<Rightarrow> bool
     \<Rightarrow> 'z sched_scheme \<Rightarrow> 'z sched_scheme ub" where
  "sched_submit sub com drain stop s = do {
     let mx = sc_cq_entries s - word_of_int (sc_total s);
     (n, ring, s1) \<leftarrow> sq_submit sub com mx stop (sc_sq s) s;
     drain stop (s1\<lparr>sc_sq := ring, sc_total := sc_total s1 + int (unat n), sc_newly := sc_newly s1 + int (unat n)\<rparr>)
   }"

definition run_some ::
  "('z sched_ext) submit_fn \<Rightarrow> ('z sched_ext) complete_fn \<Rightarrow> (bool \<Rightarrow> 'z sched_scheme \<Rightarrow> 'z sched_scheme ub) \<Rightarrow> (nat \<Rightarrow> u32) \<Rightarrow> bool
     \<Rightarrow> 'z sched_scheme \<Rightarrow> 'z sched_scheme ub" where
  "run_some sub com drain ld stop s = do {
     (n, ring, s1) \<leftarrow> cq_complete ld com (sc_cq s) s;
     sched_submit sub com drain stop (s1\<lparr>sc_cq := ring, sc_total := sc_total s1 - int (unat n)\<rparr>)
   }"

text \<open>A submission of the scheduler's own thread goes to the front: the newest operation is published first.\<close>

definition sched_push :: "u64 \<Rightarrow> 'z sched_scheme \<Rightarrow> 'z sched_scheme ub" where
  "sched_push op s = do {
     (nx, q) \<leftarrow> iq_push_front (io_next s) (Some op) (io_pending s);
     Some (s\<lparr>io_next := nx, io_pending := q\<rparr>)
   }"

text \<open>What \<open>_M_io_uring_enter\<close> does with the result of the system call: throw, or count the entries that were consumed.\<close>

definition enter_error :: "s32 \<Rightarrow> bool" where
  "enter_error rc \<longleftrightarrow> sint rc < 0 \<and> rc \<noteq> - eintr \<and> rc \<noteq> - etime"

definition enter_result :: "s32 \<Rightarrow> 'z sched_scheme \<Rightarrow> s32 + 'z sched_scheme" where
  "enter_result rc s =
     (if enter_error rc then Inl (- rc)
      else if - rc = etime then Inr (s\<lparr>sc_newly := 0\<rparr>)
      else if - rc \<noteq> eintr then Inr (s\<lparr>sc_newly := sc_newly s - sint rc\<rparr>)
      else Inr s)"

text \<open>
  One round. The kernel's answer is \<open>None\<close> when the state is not \<open>_S_run\<close> and the system call is skipped.
\<close>

record 'z round =
  rd_ld :: "nat \<Rightarrow> u32"
  rd_stop :: bool
  rd_exit_stop :: bool
  rd_kernel :: "'z sched_scheme \<Rightarrow> (s32 \<times> 'z sched_scheme) option"
  rd_accept :: "'z sched_scheme \<Rightarrow> 'z sched_scheme"

definition loop_exit :: "bool \<Rightarrow> 'z sched_scheme \<Rightarrow> bool" where
  "loop_exit stop s \<longleftrightarrow> sc_total s = 0 \<or> sc_total s = 1 \<and> stop"

fun run_loop ::
  "('z sched_ext) submit_fn \<Rightarrow> ('z sched_ext) complete_fn \<Rightarrow> (bool \<Rightarrow> 'z sched_scheme \<Rightarrow> 'z sched_scheme ub) \<Rightarrow> 'z round list
     \<Rightarrow> 'z sched_scheme \<Rightarrow> (s32 + bool \<times> 'z sched_scheme) ub" where
  "run_loop sub com drain [] s = Some (Inr (False, s))"
| "run_loop sub com drain (r # rs) s = do {
     s1 \<leftarrow> run_some sub com drain (rd_ld r) (rd_stop r) s;
     if loop_exit (rd_exit_stop r) s1 then Some (Inr (True, s1))
     else (case rd_kernel r s1 of
         None \<Rightarrow> run_loop sub com drain rs (rd_accept r s1)
       | Some (rc, s2) \<Rightarrow> (case enter_result rc s2 of
           Inl e \<Rightarrow> Some (Inl e)
         | Inr s3 \<Rightarrow> run_loop sub com drain rs (rd_accept r s3)))
   }"

text \<open>
  The end of \<open>_M_run_until_stop\<close> after the remote queues are closed: stop what is queued, wait for the rest, and
  \<open>assert\<close> that all of it has completed. A failed assertion is undefined, an error of the system call is thrown.
\<close>

definition run_finish ::
  "('z sched_ext) submit_fn \<Rightarrow> ('z sched_ext) complete_fn \<Rightarrow> (bool \<Rightarrow> 'z sched_scheme \<Rightarrow> 'z sched_scheme ub)
     \<Rightarrow> ('z sched_scheme \<Rightarrow> s32 \<times> 'z sched_scheme) \<Rightarrow> (nat \<Rightarrow> u32) \<Rightarrow> 'z sched_scheme \<Rightarrow> (s32 + 'z sched_scheme) ub" where
  "run_finish sub com drain kn ld s = do {
     s1 \<leftarrow> sched_submit sub com drain True s;
     let (rc, s2) = kn s1;
     if enter_error rc then Some (Inl (- rc))
     else do {
       (m, ring, s3) \<leftarrow> cq_complete ld com (sc_cq s2) s2;
       _ \<leftarrow> assert_c (sc_total s3 = int (unat m));
       Some (Inr (s3\<lparr>sc_cq := ring\<rparr>))
     }
   }"

section \<open>The invariant of the counters\<close>

text \<open>
  \<open>__n_total_submit_\<close> never exceeds the completion queue, and \<open>__n_newly_submit_\<close> is the number of entries that are
  published and not consumed.
\<close>

definition sched_inv :: "nat \<Rightarrow> 'z sched_scheme \<Rightarrow> bool" where
  "sched_inv k s \<longleftrightarrow> k < 32 \<and> sq_mask (sc_sq s) = 2 ^ k - 1 \<and> sq_nslot (sc_sq s) = 2 ^ k
     \<and> unat (sq_tail (sc_sq s) - sq_head (sc_sq s)) \<le> 2 ^ k \<and> sc_newly s = int (unat (sq_tail (sc_sq s) - sq_head (sc_sq s)))
     \<and> 0 \<le> sc_total s \<and> sc_total s \<le> int (unat (sc_cq_entries s))"

text \<open>The clients' functions leave the scheduler's own fields alone.\<close>

definition own :: "'z sched_scheme \<Rightarrow> sq_ring \<times> cq_ring \<times> u32 \<times> int \<times> int" where
  "own s = (sc_sq s, sc_cq s, sc_cq_entries s, sc_total s, sc_newly s)"

definition own_frame :: "('z sched_ext) submit_fn \<Rightarrow> ('z sched_ext) complete_fn \<Rightarrow> bool" where
  "own_frame sub com \<longleftrightarrow> (\<forall>op x s. own (snd (sub op x s)) = own s) \<and> (\<forall>op c s. own (com op c s) = own s)"

lemma own_upd [simp]: "own (s\<lparr>n_ops := f\<rparr>) = own s" "own (s\<lparr>io_pending := q\<rparr>) = own s"
  by (simp_all add: own_def)

lemma ioring_complete_own:
  assumes "\<And>op c s. own (virt op c s) = own s"
  shows "own (snd (ioring_complete virt op c s)) = own s"
  using assms by (auto simp: ioring_complete_def n_ops_sub_def Let_def)

lemma manage_own:
  assumes "own_frame sub com"
  shows "own (manage_complete com op c s) = own s" "own (snd (manage_submit sub op x s)) = own s"
proof -
  have c: "own (com op c s) = own s" "own (snd (sub op x s)) = own s" for op c s x using assms by (simp_all add: own_frame_def)
  then have "own (manual_stop com op s) = own s" for op s by (simp add: manual_stop_def ioring_complete_own)
  with c show "own (manage_complete com op c s) = own s" "own (snd (manage_submit sub op x s)) = own s"
    by (simp_all add: manage_complete_def manage_submit_def stop_complete_def n_ops_sub_def split: task_kind.split)
qed

lemma complete_all_own:
  assumes "own_frame sub com"
  shows "own (complete_all (manage_complete com) cs s) = own s"
  by (induction cs arbitrary: s) (simp_all add: ioring_complete_own manage_own [OF assms])

lemma sq_loop_own:
  assumes fr: "own_frame sub com" and run: "sq_loop sub com mx stop r tail ring s = Some (r', tail', ring', s')"
  shows "own s' = own s \<and> sq_mask ring' = sq_mask ring \<and> sq_nslot ring' = sq_nslot ring \<and> sq_head ring' = sq_head ring
    \<and> (r \<le> mx \<longrightarrow> r' \<le> mx) \<and> tail' - r' = tail - r"
proof -
  let ?P = "\<lambda>sub' com' (mx :: u32) (stop :: bool) (r :: u32) (tail :: u32) (ring :: sq_ring) s (y :: u32 \<times> u32 \<times> sq_ring \<times> _).
    sub' = sub \<longrightarrow> com' = com \<longrightarrow> own (snd (snd (snd y))) = own s
      \<and> sq_mask (fst (snd (snd y))) = sq_mask ring \<and> sq_nslot (fst (snd (snd y))) = sq_nslot ring \<and> sq_head (fst (snd (snd y))) = sq_head ring \<and> (r \<le> mx \<longrightarrow> fst y \<le> mx) \<and> fst (snd y) - fst y = tail - r"
  have step: "?P sub' com' mx stop r tail ring s y"
    if IH: "\<And>sub' com' mx stop r tail ring s y. loop sub' com' mx stop r tail ring s = Some y \<Longrightarrow> ?P sub' com' mx stop r tail ring s y"
      and body: "(if iq_empty (io_pending s) \<or> \<not> r < mx then Some (r, tail, ring, s)
      else Option.bind (iq_pop_front (io_next s) (io_pending s)) (\<lambda>(p, q). Option.bind (deref p) (\<lambda>op.
        let m = tail AND sq_mask ring;
            (x, s1) = ioring_submit sub' op (sq_sqes ring m) (s\<lparr>io_pending := q\<rparr>);
            stop1 = (stop \<and> sqe_opcode x \<noteq> op_async_cancel)
        in if stop1
           then loop sub' com' mx stop1 r tail (ring\<lparr>sq_sqes := (sq_sqes ring)(m := x)\<rparr>)
                  (manual_stop (manage_complete com') op s1)
           else loop sub' com' mx stop1 (r + 1) (tail + 1)
                  (ring\<lparr>sq_sqes := (sq_sqes ring)(m := x\<lparr>sqe_user_data := op\<rparr>), sq_array := (sq_array ring)(m := m)\<rparr>)
                  s1))) = Some y"
    for loop sub' com' mx stop r tail ring s y
  proof (intro impI)
    assume eq: "sub' = sub" "com' = com"
    show "own (snd (snd (snd y))) = own s \<and> sq_mask (fst (snd (snd y))) = sq_mask ring \<and> sq_nslot (fst (snd (snd y))) = sq_nslot ring \<and> sq_head (fst (snd (snd y))) = sq_head ring \<and> (r \<le> mx \<longrightarrow> fst y \<le> mx) \<and> fst (snd y) - fst y = tail - r"
    proof (cases "iq_empty (io_pending s) \<or> \<not> r < mx")
      case True
      then have "y = (r, tail, ring, s)" using body by simp
      then show ?thesis by simp
    next
      case False
      with body obtain p q op where q: "iq_pop_front (io_next s) (io_pending s) = Some (p, q)" "deref p = Some op"
        by (auto simp: Option.bind_eq_Some_conv)
      define m where "m = tail AND sq_mask ring"
      obtain x s1 where x: "ioring_submit sub op (sq_sqes ring m) (s\<lparr>io_pending := q\<rparr>) = (x, s1)" by fastforce
      have "own (snd (ioring_submit sub op (sq_sqes ring m) (s\<lparr>io_pending := q\<rparr>))) = own s"
        by (simp add: ioring_submit_def manage_own [OF fr])
      then have s1: "own s1 = own s" using x by simp
      have stop: "own (manual_stop (manage_complete com) op s1) = own s1"
        by (simp add: manual_stop_def ioring_complete_own manage_own [OF fr])
      show ?thesis
      proof (cases "stop \<and> sqe_opcode x \<noteq> op_async_cancel")
        case True
        then have "loop sub com mx True r tail (ring\<lparr>sq_sqes := (sq_sqes ring)(m := x)\<rparr>) (manual_stop (manage_complete com) op s1) = Some y"
          using body False q x by (simp add: eq m_def [symmetric] Let_def)
        from IH [OF this] s1 stop show ?thesis by simp
      next
        case no: False
        then have "loop sub com mx False (r + 1) (tail + 1)
             (ring\<lparr>sq_sqes := (sq_sqes ring)(m := x\<lparr>sqe_user_data := op\<rparr>), sq_array := (sq_array ring)(m := m)\<rparr>) s1 = Some y"
          using body False q x by (auto simp: eq m_def [symmetric] Let_def)
        from IH [OF this] s1 False inc_le [of r mx] show ?thesis by (simp add: algebra_simps)
      qed
    qed
  qed
  have "?P sub com mx stop r tail ring s (r', tail', ring', s')"
    by (rule sq_loop.raw_induct [where P = ?P, OF step run])
  then show ?thesis by simp
qed

lemma sq_submit_own:
  assumes "own_frame sub com" "sq_submit sub com mx stop ring s = Some (n, ring', s')"
  shows "own s' = own s \<and> sq_mask ring' = sq_mask ring \<and> sq_nslot ring' = sq_nslot ring \<and> sq_head ring' = sq_head ring
    \<and> n \<le> umin mx (sq_nslot ring - (sq_tail ring - sq_head ring)) \<and> sq_tail ring' = sq_tail ring + n"
proof -
  from assms(2) obtain t1 r1 where
    l: "sq_loop sub com (umin mx (sq_nslot ring - (sq_tail ring - sq_head ring))) stop 0 (sq_tail ring) ring s = Some (n, t1, r1, s')"
    and r': "ring' = r1\<lparr>sq_tail := t1\<rparr>"
    by (auto simp: sq_submit_def Let_def Option.bind_eq_Some_conv)
  from sq_loop_own [OF assms(1) l] show ?thesis by (auto simp: r' algebra_simps)
qed

lemma cq_loop_own:
  assumes fr: "own_frame sub com" and run: "cq_loop ld com ring i head n s = Some (n', head', s')"
  shows "own s' = own s"
proof -
  let ?P = "\<lambda>(ld :: nat \<Rightarrow> u32) com' (ring :: cq_ring) (i :: nat) (head :: u32) (n :: u32) s (y :: u32 \<times> u32 \<times> _).
    com' = com \<longrightarrow> own (snd (snd y)) = own s"
  have step: "?P ld com' ring i head n s y"
    if IH: "\<And>ld com' ring i head n s y. loop ld com' ring i head n s = Some y \<Longrightarrow> ?P ld com' ring i head n s y"
      and body: "(if head = ld i then Some (n, head, s)
      else let c = cq_cqes ring (head AND cq_mask ring);
               (k, st1) = ioring_complete (manage_complete com') (cqe_user_data c) c s
           in loop ld com' ring (Suc i) (head + 1) (n + k) st1) = Some y"
    for loop ld com' ring i head n s y
  proof
    assume eq: "com' = com"
    let ?c = "cq_cqes ring (head AND cq_mask ring)"
    obtain m s1 where m: "ioring_complete (manage_complete com) (cqe_user_data ?c) ?c s = (m, s1)" by fastforce
    have "own (snd (ioring_complete (manage_complete com) (cqe_user_data ?c) ?c s)) = own s"
      by (simp add: ioring_complete_own manage_own [OF fr])
    with m have s1: "own s1 = own s" by simp
    show "own (snd (snd y)) = own s"
    proof (cases "head = ld i")
      case True
      then show ?thesis using body by auto
    next
      case False
      then have "loop ld com ring (Suc i) (head + 1) (n + m) s1 = Some y" using body m by (simp add: eq Let_def)
      from IH [OF this] s1 show ?thesis by simp
    qed
  qed
  have "?P ld com ring i head n s (n', head', s')" by (rule cq_loop.raw_induct [where P = ?P, OF step run])
  then show ?thesis by simp
qed

lemma cq_complete_own:
  assumes "own_frame sub com" "cq_complete ld com ring s = Some (n, ring', s')"
  shows "own s' = own s"
  using assms(2) by (auto simp: cq_complete_def Option.bind_eq_Some_conv dest: cq_loop_own [OF assms(1)])

section \<open>Rounds\<close>

definition drain_frame :: "(bool \<Rightarrow> 'z sched_scheme \<Rightarrow> 'z sched_scheme ub) \<Rightarrow> bool" where
  "drain_frame drain \<longleftrightarrow> (\<forall>b s s'. drain b s = Some s' \<longrightarrow> own s' = own s)"

definition drain_ok :: "(bool \<Rightarrow> 'z sched_scheme \<Rightarrow> 'z sched_scheme ub) \<Rightarrow> bool" where
  "drain_ok drain \<longleftrightarrow> (\<forall>b s. \<exists>s'. drain b s = Some s' \<and> own s' = own s \<and> io_pending s' = io_pending s \<and> io_next s' = io_next s)"

lemma ownD: "own s' = own s \<Longrightarrow> sc_sq s' = sc_sq s" "own s' = own s \<Longrightarrow> sc_cq s' = sc_cq s"
  "own s' = own s \<Longrightarrow> sc_cq_entries s' = sc_cq_entries s" "own s' = own s \<Longrightarrow> sc_total s' = sc_total s"
  "own s' = own s \<Longrightarrow> sc_newly s' = sc_newly s"
  by (simp_all add: own_def)

lemma room_for:
  assumes "0 \<le> t" "t \<le> int (unat (c :: u32))"
  shows "unat (c - word_of_int t) = unat c - nat t"
proof -
  have b: "nat t < 2 ^ 32" using assms unat_u32_bound [of c] by linarith
  have "word_of_int t = (of_nat (nat t) :: u32)" using assms(1) by simp
  moreover have "unat (of_nat (nat t) :: u32) = nat t" using b by (simp only: unat_of_nat) simp
  moreover have "(of_nat (nat t) :: u32) \<le> c" using assms calculation(2) by (simp add: word_le_nat_alt nat_le_iff)
  ultimately show ?thesis by (simp only: unat_sub)
qed

text \<open>Every round keeps the invariant, with a stop requested or not, whatever the operations do.\<close>

lemma sched_submit_inv:
  assumes inv: "sched_inv k s" and fr: "own_frame sub com" "drain_frame drain" and run: "sched_submit sub com drain stop s = Some s'"
  shows "sched_inv k s'"
proof -
  let ?mx = "sc_cq_entries s - word_of_int (sc_total s)" and ?d = "sq_tail (sc_sq s) - sq_head (sc_sq s)"
  from run obtain n ring s1 where r: "sq_submit sub com ?mx stop (sc_sq s) s = Some (n, ring, s1)"
    "drain stop (s1\<lparr>sc_sq := ring, sc_total := sc_total s1 + int (unat n), sc_newly := sc_newly s1 + int (unat n)\<rparr>) = Some s'"
    by (auto simp: sched_submit_def Let_def Option.bind_eq_Some_conv)
  have o: "own s1 = own s" and g: "sq_mask ring = sq_mask (sc_sq s)" "sq_nslot ring = sq_nslot (sc_sq s)" "sq_head ring = sq_head (sc_sq s)"
    "n \<le> umin ?mx (sq_nslot (sc_sq s) - ?d)" "sq_tail ring = sq_tail (sc_sq s) + n"
    using sq_submit_own [OF fr(1) r(1)] by simp_all
  have "own s' = own (s1\<lparr>sc_sq := ring, sc_total := sc_total s1 + int (unat n), sc_newly := sc_newly s1 + int (unat n)\<rparr>)"
    using fr(2) r(2) by (simp add: drain_frame_def)
  then have f: "sc_sq s' = ring" "sc_total s' = sc_total s + int (unat n)" "sc_newly s' = sc_newly s + int (unat n)"
    "sc_cq_entries s' = sc_cq_entries s"
    using ownD [OF o] ownD by fastforce+
  have i: "k < 32" "sq_mask (sc_sq s) = 2 ^ k - 1" "sq_nslot (sc_sq s) = 2 ^ k" "unat ?d \<le> 2 ^ k" "sc_newly s = int (unat ?d)"
    "0 \<le> sc_total s" "sc_total s \<le> int (unat (sc_cq_entries s))"
    using inv by (simp_all add: sched_inv_def)
  have p: "(2::nat) ^ k < 2 ^ 32" using i(1) by (intro power_strict_increasing) auto
  have n2: "unat (2 ^ k :: u32) = 2 ^ k" using i(1) by simp
  have le: "n \<le> ?mx" "n \<le> sq_nslot (sc_sq s) - ?d" using g(4) by (auto simp: umin_def split: if_splits)
  have n: "unat n \<le> unat (sc_cq_entries s) - nat (sc_total s)" using le(1) room_for [OF i(6,7)] by (simp add: word_le_nat_alt)
  have "?d \<le> sq_nslot (sc_sq s)" using i(3,4) n2 by (simp add: word_le_nat_alt)
  then have m: "unat n \<le> 2 ^ k - unat ?d" using le(2) i(3) n2 by (simp add: word_le_nat_alt unat_sub)
  have "unat (sq_tail ring - sq_head ring) = unat (?d + n)" by (simp add: g algebra_simps)
  also have "\<dots> = unat ?d + unat n" using m i(4) p by (subst unat_add_lem [THEN iffD1]) simp_all
  finally have d: "unat (sq_tail ring - sq_head ring) = unat ?d + unat n" .
  have "0 \<le> sc_total s + int (unat n) \<and> sc_total s + int (unat n) \<le> int (unat (sc_cq_entries s))" using i(6,7) n by linarith
  moreover have "unat ?d + unat n \<le> 2 ^ k" using i(4) m by linarith
  moreover have "sc_newly s + int (unat n) = int (unat ?d + unat n)" using i(5) by linarith
  ultimately show ?thesis unfolding sched_inv_def f g(1,2) d using i(1-3) by blast
qed

lemma sched_submit_ok:
  assumes inv: "sched_inv k s" and fr: "submit_frame sub" "own_frame sub com" "drain_ok drain"
    and q: "iq_repr (io_next s) (io_pending s) xs"
  defines "n \<equiv> min (length xs) (min (unat (sc_cq_entries s) - nat (sc_total s)) (2 ^ k - nat (sc_newly s)))"
  shows "\<exists>s'. sched_submit sub com drain False s = Some s' \<and> sched_inv k s' \<and> iq_repr (io_next s') (io_pending s') (drop n xs)
    \<and> entries (sc_sq s') (sq_tail (sc_sq s)) (take n xs) \<and> sc_total s' = sc_total s + int n \<and> sc_newly s' = sc_newly s + int n
    \<and> sc_cq s' = sc_cq s \<and> sc_cq_entries s' = sc_cq_entries s"
proof -
  have i: "k < 32" "sq_mask (sc_sq s) = 2 ^ k - 1" "sq_nslot (sc_sq s) = 2 ^ k"
    "unat (sq_tail (sc_sq s) - sq_head (sc_sq s)) \<le> 2 ^ k" "sc_newly s = int (unat (sq_tail (sc_sq s) - sq_head (sc_sq s)))"
    "0 \<le> sc_total s" "sc_total s \<le> int (unat (sc_cq_entries s))"
    using inv by (simp_all add: sched_inv_def)
  let ?mx = "sc_cq_entries s - word_of_int (sc_total s)"
  have mx: "unat ?mx = unat (sc_cq_entries s) - nat (sc_total s)" by (rule room_for [OF i(6,7)])
  have n': "n = min (length xs) (min (unat ?mx) (2 ^ k - unat (sq_tail (sc_sq s) - sq_head (sc_sq s))))"
    using mx i(5) by (simp add: n_def)
  from sq_submit_ok [OF fr(1) i(2,3,1,4) q, of com ?mx, folded n'] obtain ring s1 where
    r: "sq_submit sub com ?mx False (sc_sq s) s = Some (of_nat n, ring, s1)" "iq_repr (io_next s1) (io_pending s1) (drop n xs)"
      "entries ring (sq_tail (sc_sq s)) (take n xs)"
      "unat (sq_tail ring - sq_head ring) = unat (sq_tail (sc_sq s) - sq_head (sc_sq s)) + n"
    unfolding n' by blast
  have own1: "own s1 = own s" and ring: "sq_mask ring = sq_mask (sc_sq s)" "sq_nslot ring = sq_nslot (sc_sq s)"
    using sq_submit_own [OF fr(2) r(1)] by simp_all
  have nb: "n \<le> unat (sc_cq_entries s) - nat (sc_total s)" "n \<le> 2 ^ k - nat (sc_newly s)" by (simp_all add: n_def)
  have "n < 2 ^ 32" using nb(1) unat_u32_bound [of "sc_cq_entries s"] by linarith
  then have un: "unat (of_nat n :: u32) = n" by (simp only: unat_of_nat) simp
  let ?s2 = "s1\<lparr>sc_sq := ring, sc_total := sc_total s1 + int (unat (of_nat n :: u32)), sc_newly := sc_newly s1 + int (unat (of_nat n :: u32))\<rparr>"
  obtain s' where s': "drain False ?s2 = Some s'" "own s' = own ?s2" "io_pending s' = io_pending s1" "io_next s' = io_next s1"
    using fr(3) unfolding drain_ok_def by fastforce
  have run: "sched_submit sub com drain False s = Some s'"
    using r(1) s'(1) by (simp add: sched_submit_def Let_def)
  have f: "sc_sq s' = ring" "sc_total s' = sc_total s + int n" "sc_newly s' = sc_newly s + int n" "sc_cq s' = sc_cq s"
    "sc_cq_entries s' = sc_cq_entries s"
    using ownD [OF s'(2)] ownD [OF own1] un by simp_all
  have tot: "0 \<le> sc_total s + int n \<and> sc_total s + int n \<le> int (unat (sc_cq_entries s))" using i(6,7) nb(1) by linarith
  have "unat (sq_tail (sc_sq s) - sq_head (sc_sq s)) + n \<le> 2 ^ k" using i(4,5) nb(2) by linarith
  moreover have "sc_newly s + int n = int (unat (sq_tail ring - sq_head ring))" using i(5) r(4) by linarith
  ultimately have "sched_inv k s'" unfolding sched_inv_def f ring r(4) using i(1-3) tot by blast
  with run r(2,3) s'(3,4) f show ?thesis by auto
qed

lemma run_some_ok:
  assumes inv: "sched_inv k s" and fr: "submit_frame sub" "own_frame sub com" "drain_ok drain"
    and ld: "\<And>i. i \<le> j \<Longrightarrow> ld i = cq_head (sc_cq s) + of_nat (f i)" "\<And>i. i < j \<Longrightarrow> i < f i" "f j = j" "\<And>i. i \<le> j \<Longrightarrow> f i < 2 ^ 32"
  defines "cs \<equiv> map (cq_at (sc_cq s)) [0..<j]"
  defines "d \<equiv> length (filter final cs)" and "s1 \<equiv> complete_all (manage_complete com) cs s"
  assumes fin: "int d \<le> sc_total s" and q: "iq_repr (io_next s1) (io_pending s1) xs"
  defines "n \<equiv> min (length xs) (min (unat (sc_cq_entries s) - nat (sc_total s - int d)) (2 ^ k - nat (sc_newly s)))"
  shows "\<exists>s'. run_some sub com drain ld False s = Some s' \<and> sched_inv k s' \<and> iq_repr (io_next s') (io_pending s') (drop n xs)
    \<and> entries (sc_sq s') (sq_tail (sc_sq s)) (take n xs) \<and> sc_total s' = sc_total s - int d + int n \<and> sc_newly s' = sc_newly s + int n"
proof -
  let ?ring = "(sc_cq s)\<lparr>cq_head := cq_head (sc_cq s) + of_nat j\<rparr>"
  have j: "j < 2 ^ 32" using ld(3,4) by (metis order_refl)
  have "d \<le> j" unfolding d_def cs_def by (metis length_filter_le length_map diff_zero length_upt)
  then have ud: "unat (of_nat d :: u32) = d" using j by (simp only: unat_of_nat) simp
  have c: "cq_complete ld com (sc_cq s) s = Some (of_nat d, ?ring, s1)"
    unfolding s1_def cs_def d_def by (rule cq_complete_runs [OF ld])
  have o: "own s1 = own s" unfolding s1_def by (rule complete_all_own [OF fr(2)])
  let ?s2 = "s1\<lparr>sc_cq := ?ring, sc_total := sc_total s1 - int (unat (of_nat d :: u32))\<rparr>"
  have f: "sc_sq ?s2 = sc_sq s" "sc_total ?s2 = sc_total s - int d" "sc_newly ?s2 = sc_newly s" "sc_cq_entries ?s2 = sc_cq_entries s"
    using ownD [OF o] ud by simp_all
  have inv2: "sched_inv k ?s2" using inv fin unfolding sched_inv_def f by auto
  have q2: "iq_repr (io_next ?s2) (io_pending ?s2) xs" using q by simp
  have run: "run_some sub com drain ld False s = sched_submit sub com drain False ?s2" using c by (simp add: run_some_def)
  from sched_submit_ok [OF inv2 fr q2] show ?thesis unfolding run f n_def by auto
qed

lemma sched_push_ok:
  assumes "iq_repr (io_next s) (io_pending s) xs" "op \<notin> set xs" "sched_inv k s"
  shows "\<exists>s'. sched_push op s = Some s' \<and> iq_repr (io_next s') (io_pending s') (op # xs) \<and> sched_inv k s'"
  using iq_push_front_refines [OF assms(1,2)] assms(3) by (auto simp: sched_push_def sched_inv_def)

section \<open>The kernel's answer\<close>

text \<open>
  What the kernel documents of \<open>io_uring_enter\<close>: it consumes some of the entries it is asked to; it returns their number, or
  an error when it has consumed none, and a timeout only when there were none to consume. It changes nothing else of the
  scheduler's own fields.
\<close>

definition kernel_ok :: "'z sched_scheme \<Rightarrow> s32 \<Rightarrow> 'z sched_scheme \<Rightarrow> bool" where
  "kernel_ok s rc s' \<longleftrightarrow> (\<exists>c. int c \<le> sc_newly s \<and> sc_sq s' = (sc_sq s)\<lparr>sq_head := sq_head (sc_sq s) + of_nat c\<rparr>
     \<and> sc_cq_entries s' = sc_cq_entries s \<and> sc_total s' = sc_total s \<and> sc_newly s' = sc_newly s
     \<and> (if sint rc < 0 then c = 0 else sint rc = int c) \<and> (rc = - etime \<longrightarrow> sc_newly s = 0))"

lemma enter_result_ok:
  assumes inv: "sched_inv k s" and kn: "kernel_ok s rc s1" and r: "enter_result rc s1 = Inr s'"
  shows "sched_inv k s'"
proof -
  from kn obtain c where c: "int c \<le> sc_newly s" "sc_sq s1 = (sc_sq s)\<lparr>sq_head := sq_head (sc_sq s) + of_nat c\<rparr>"
    "sc_cq_entries s1 = sc_cq_entries s" "sc_total s1 = sc_total s" "sc_newly s1 = sc_newly s"
    "if sint rc < 0 then c = 0 else sint rc = int c" "rc = - etime \<Longrightarrow> sc_newly s = 0"
    unfolding kernel_ok_def by blast
  let ?u = "unat (sq_tail (sc_sq s) - sq_head (sc_sq s))"
  have i: "sc_newly s = int ?u" "?u \<le> 2 ^ k" "k < 32" using inv by (simp_all add: sched_inv_def)
  have cu: "c \<le> ?u" using c(1) i(1) by linarith
  have cb: "unat (of_nat c :: u32) = c"
    using cu unat_u32_bound [of "sq_tail (sc_sq s) - sq_head (sc_sq s)"] by (simp only: unat_of_nat) simp
  have "unat (sq_tail (sc_sq s) - (sq_head (sc_sq s) + of_nat c)) = unat ((sq_tail (sc_sq s) - sq_head (sc_sq s)) - of_nat c)"
    by (simp add: algebra_simps)
  also have "\<dots> = ?u - c" using cu cb by (simp add: unat_sub word_le_nat_alt)
  finally have dist: "unat (sq_tail (sc_sq s) - (sq_head (sc_sq s) + of_nat c)) = ?u - c" .
  have rc: "enter_error rc \<or> rc = - etime \<or> rc = - eintr \<or> 0 \<le> sint rc" by (auto simp: enter_error_def)
  have neg: "sint (- etime) < 0" "sint (- eintr) < 0" by (simp_all add: etime_def eintr_def)
  have newly: "sc_newly s' = int (?u - c) \<and> sc_sq s' = sc_sq s1 \<and> sc_total s' = sc_total s1 \<and> sc_cq_entries s' = sc_cq_entries s1"
  proof (cases "rc = - etime")
    case True
    then have "s' = s1\<lparr>sc_newly := 0\<rparr>" using r neg by (auto simp: enter_result_def enter_error_def)
    moreover have "?u = 0" using c(7) [OF True] i(1) by linarith
    ultimately show ?thesis by simp
  next
    case t: False
    then have t': "- rc \<noteq> etime" by (metis minus_minus)
    show ?thesis
    proof (cases "rc = - eintr")
      case True
      then have "s' = s1" "c = 0" using r neg t' c(6) by (auto simp: enter_result_def enter_error_def)
      then show ?thesis using c(5) i(1) by simp
    next
      case False
      then have e: "- rc \<noteq> eintr" by (metis minus_minus)
      have ne: "\<not> enter_error rc" using r by (auto simp: enter_result_def)
      then have "0 \<le> sint rc" using rc t False by blast
      moreover have "s' = s1\<lparr>sc_newly := sc_newly s1 - sint rc\<rparr>" using r ne t' e by (simp add: enter_result_def)
      ultimately show ?thesis using c(5,6) i(1) cu by simp
    qed
  qed
  show ?thesis using inv newly c(2-4) dist i(2) unfolding sched_inv_def by auto
qed

lemma run_some_inv:
  assumes inv: "sched_inv k s" and fr: "own_frame sub com" "drain_frame drain"
    and cq: "\<And>n ring s1. cq_complete ld com (sc_cq s) s = Some (n, ring, s1) \<Longrightarrow> int (unat n) \<le> sc_total s"
    and run: "run_some sub com drain ld stop s = Some s'"
  shows "sched_inv k s'"
proof -
  from run obtain n ring s1 where c: "cq_complete ld com (sc_cq s) s = Some (n, ring, s1)"
    and r: "sched_submit sub com drain stop (s1\<lparr>sc_cq := ring, sc_total := sc_total s1 - int (unat n)\<rparr>) = Some s'"
    by (auto simp: run_some_def Option.bind_eq_Some_conv)
  let ?s = "s1\<lparr>sc_cq := ring, sc_total := sc_total s1 - int (unat n)\<rparr>"
  have f: "sc_sq ?s = sc_sq s" "sc_total ?s = sc_total s - int (unat n)" "sc_newly ?s = sc_newly s" "sc_cq_entries ?s = sc_cq_entries s"
    using ownD [OF cq_complete_own [OF fr(1) c]] by simp_all
  have "0 \<le> sc_total s - int (unat n)" using cq [OF c] by linarith
  then have "sched_inv k ?s" using inv unfolding sched_inv_def f by linarith
  from sched_submit_inv [OF this fr r] show ?thesis .
qed

text \<open>
  What a run relies on, round by round: the kernel publishes no more final entries than operations are in flight, answers
  \<open>io_uring_enter\<close> as documented, and accepting remote requests leaves the scheduler's counters alone.
\<close>

fun rounds_ok ::
  "('z sched_ext) submit_fn \<Rightarrow> ('z sched_ext) complete_fn \<Rightarrow> (bool \<Rightarrow> 'z sched_scheme \<Rightarrow> 'z sched_scheme ub) \<Rightarrow> 'z round list
     \<Rightarrow> 'z sched_scheme \<Rightarrow> bool" where
  "rounds_ok sub com drain [] s \<longleftrightarrow> True"
| "rounds_ok sub com drain (r # rs) s \<longleftrightarrow>
     (\<forall>n ring s1. cq_complete (rd_ld r) com (sc_cq s) s = Some (n, ring, s1) \<longrightarrow> int (unat n) \<le> sc_total s)
     \<and> (\<forall>t. own (rd_accept r t) = own t)
     \<and> (case run_some sub com drain (rd_ld r) (rd_stop r) s of None \<Rightarrow> True
        | Some s1 \<Rightarrow> (case rd_kernel r s1 of None \<Rightarrow> rounds_ok sub com drain rs (rd_accept r s1)
            | Some (rc, s2) \<Rightarrow> kernel_ok s1 rc s2 \<and> (case enter_result rc s2 of Inl e \<Rightarrow> True
                | Inr s3 \<Rightarrow> rounds_ok sub com drain rs (rd_accept r s3))))"

lemma sched_inv_own: "own s' = own s \<Longrightarrow> sched_inv k s' = sched_inv k s"
  by (simp add: own_def sched_inv_def)

lemma run_loop_inv:
  assumes fr: "own_frame sub com" "drain_frame drain"
  shows "sched_inv k s \<Longrightarrow> rounds_ok sub com drain rs s \<Longrightarrow> run_loop sub com drain rs s = Some (Inr (b, s')) \<Longrightarrow> sched_inv k s'"
proof (induction rs arbitrary: s)
  case Nil
  then show ?case by simp
next
  case (Cons r rs)
  from Cons.prems(3) obtain s1 where s1: "run_some sub com drain (rd_ld r) (rd_stop r) s = Some s1"
    by (auto simp: Option.bind_eq_Some_conv)
  have cq: "cq_complete (rd_ld r) com (sc_cq s) s = Some (n, ring, t) \<Longrightarrow> int (unat n) \<le> sc_total s" for n ring t
    using Cons.prems(2) by simp
  have acc: "sched_inv k (rd_accept r t) = sched_inv k t" for t using Cons.prems(2) by (intro sched_inv_own) simp
  have i1: "sched_inv k s1" by (rule run_some_inv [OF Cons.prems(1) fr cq s1])
  show ?case
  proof (cases "loop_exit (rd_exit_stop r) s1")
    case True
    then show ?thesis using Cons.prems(3) s1 i1 by simp
  next
    case go: False
    show ?thesis
    proof (cases "rd_kernel r s1")
      case None
      then show ?thesis using Cons.IH [of "rd_accept r s1"] Cons.prems(2,3) s1 go i1 acc by simp
    next
      case (Some p)
      obtain rc s2 where p: "p = (rc, s2)" by (cases p)
      show ?thesis
      proof (cases "enter_result rc s2")
        case (Inl e)
        then show ?thesis using Cons.prems(3) s1 go Some p by simp
      next
        case (Inr s3)
        have "sched_inv k s3" using Cons.prems(2) s1 Some p by (intro enter_result_ok [OF i1 _ Inr]) simp
        then show ?thesis using Cons.IH [of "rd_accept r s3"] Cons.prems(2,3) s1 go Some p Inr acc by simp
      qed
    qed
  qed
qed

text \<open>
  What the scheduler asks of the operations it runs and of the timer requests it drains: that they leave the scheduler's own
  fields alone. Under this contract every run keeps the counters.
\<close>

locale ring_client =
  fixes sub :: "('z sched_ext) submit_fn"
    and com :: "('z sched_ext) complete_fn"
    and drain :: "bool \<Rightarrow> 'z sched_scheme \<Rightarrow> 'z sched_scheme ub"
  assumes sub_law: "own (snd (sub op x s)) = own s"
    and com_law: "own (com op c s) = own s"
    and drain_law: "drain b s = Some s' \<Longrightarrow> own s' = own s"
begin

lemma frames: "own_frame sub com" "drain_frame drain"
  using sub_law com_law drain_law by (auto simp: own_frame_def drain_frame_def)

lemma run_keeps:
  "sched_inv k s \<Longrightarrow> rounds_ok sub com drain rs s \<Longrightarrow> run_loop sub com drain rs s = Some (Inr (b, s')) \<Longrightarrow> sched_inv k s'"
  by (rule run_loop_inv [OF frames])

lemma submit_keeps: "sched_inv k s \<Longrightarrow> sched_submit sub com drain stop s = Some s' \<Longrightarrow> sched_inv k s'"
  by (rule sched_submit_inv [OF _ frames])

end

text \<open>An interrupted wait at the end, with an operation still in flight, fails the assertion.\<close>

lemma finish_interrupted_undefined:
  assumes "own_frame sub com" "drain_frame drain" "sched_submit sub com drain True s = Some s1"
    and "kn s1 = (- eintr, s1)" "ld 0 = cq_head (sc_cq s1)" "sc_total s1 \<noteq> 0"
  shows "run_finish sub com drain kn ld s = None"
proof -
  have "cq_complete ld com (sc_cq s1) s1 = Some (0, sc_cq s1, s1)"
    using cq_complete_runs [of 0 ld "sc_cq s1" "\<lambda>_. 0" com s1] assms(5) by (simp add: complete_all.simps)
  moreover have "\<not> enter_error (- eintr)" by (simp add: enter_error_def)
  ultimately show ?thesis using assms(3,4,6) by (simp add: run_finish_def assert_c_def)
qed

section \<open>Properties\<close>

definition demo_start :: "bool \<Rightarrow> sched" where
  "demo_start b = \<lparr>n_ops = (\<lambda>_. 0), kind = (\<lambda>_. Operation), io_next = [10 \<mapsto> 20], io_pending = io_pending demo_io,
     sc_sq = demo_sq, sc_cq = \<lparr>cq_head = 0, cq_cqes = (\<lambda>_. \<lparr>cqe_user_data = 10, cqe_res = 0, cqe_flags = 0\<rparr>), cq_mask = 7\<rparr>,
     sc_cq_entries = 8, sc_total = 3, sc_newly = 2\<rparr>"

definition demo_rsub :: "unit sched_ext submit_fn" where
  "demo_rsub op x s = (x\<lparr>sqe_opcode := 27\<rparr>, s)"

definition demo_rcom :: "unit sched_ext complete_fn" where
  "demo_rcom op c s = s"

lemma demo_run_frame:
  "submit_frame demo_rsub" "own_frame demo_rsub demo_rcom" "drain_ok (\<lambda>_. Some :: sched \<Rightarrow> sched ub)"
  "drain_frame (\<lambda>_. Some :: sched \<Rightarrow> sched ub)" "sched_inv 2 (demo_start b)"
  "iq_repr (io_next (demo_start b)) (io_pending (demo_start b)) [10, 20]"
  by (simp_all add: submit_frame_def own_frame_def drain_ok_def drain_frame_def sched_inv_def demo_start_def demo_rsub_def
      demo_rcom_def demo_sq_def demo_io_def queue_frame_def iq_repr_def last_ptr_def)

lemma demo_complete_queue:
  "io_next (complete_all (manage_complete demo_rcom) cs s) = io_next s \<and> io_pending (complete_all (manage_complete demo_rcom) cs s) = io_pending s"
  by (induction cs arbitrary: s)
    (auto simp: complete_all.simps ioring_complete_def manage_complete_def stop_complete_def manual_stop_def demo_rcom_def n_ops_sub_def
      Let_def split: task_kind.splits)

text \<open>
  C14: one pass of \<open>_M_run_some\<close> without a stop completes every entry the kernel has published, in ring order, takes the final
  ones off \<open>__n_total_submit_\<close>, and then moves as many queued operations into the submission ring, in order, as the ring and
  the completion queue have room for: never more operations are in flight than completion entries, and the counters stay the
  number of operations in flight and the number of entries the kernel has yet to consume.
\<close>

theorem run_some_moves:
  assumes "sched_inv k s" "submit_frame sub" "own_frame sub com" "drain_ok drain"
    and "\<And>i. i \<le> j \<Longrightarrow> ld i = cq_head (sc_cq s) + of_nat (f i)" "\<And>i. i < j \<Longrightarrow> i < f i" "f j = j" "\<And>i. i \<le> j \<Longrightarrow> f i < 2 ^ 32"
  defines "cs \<equiv> map (cq_at (sc_cq s)) [0..<j]"
  defines "d \<equiv> length (filter final cs)" and "s1 \<equiv> complete_all (manage_complete com) cs s"
  assumes "int d \<le> sc_total s" and "iq_repr (io_next s1) (io_pending s1) xs"
  defines "n \<equiv> min (length xs) (min (unat (sc_cq_entries s) - nat (sc_total s - int d)) (2 ^ k - nat (sc_newly s)))"
  shows "\<exists>s'. run_some sub com drain ld False s = Some s' \<and> sched_inv k s' \<and> iq_repr (io_next s') (io_pending s') (drop n xs)
    \<and> entries (sc_sq s') (sq_tail (sc_sq s)) (take n xs) \<and> sc_total s' = sc_total s - int d + int n \<and> sc_newly s' = sc_newly s + int n"
  unfolding n_def d_def cs_def
  by (rule run_some_ok [OF assms(1-4), where f = f]) (use assms(5-8,12,13) in \<open>simp_all add: d_def cs_def s1_def\<close>)

theorem run_some_moves_witness:
  "\<exists>s'. run_some demo_rsub demo_rcom (\<lambda>_. Some) (\<lambda>i. 2) False (demo_start True) = Some s' \<and> sc_total s' = 3 \<and> sc_newly s' = 4
     \<and> iq_empty (io_pending s')"
proof -
  let ?s = "demo_start True" and ?cs = "map (cq_at (sc_cq (demo_start True))) [0..<2]"
  let ?t = "complete_all (manage_complete demo_rcom) ?cs ?s"
  have ld: "(2 :: u32) = cq_head (sc_cq ?s) + of_nat 2" by (simp add: demo_start_def)
  have d: "length (filter final ?cs) = 2" by code_simp
  have ops: "n_ops ?s 10 = 0" "sc_total ?s = 3" "sc_newly ?s = 2" "sc_cq_entries ?s = 8" by (simp_all add: demo_start_def)
  have "sc_total ?s = 3" by (simp add: demo_start_def)
  have t: "iq_repr (io_next ?t) (io_pending ?t) [10, 20]"
    using demo_run_frame(6) [of True] by (simp add: demo_complete_queue)
  show ?thesis
    using run_some_moves [OF demo_run_frame(5,1-3), where b1 = True and j = 2 and f = "\<lambda>_. 2" and ld = "\<lambda>_. 2", unfolded d, OF ld _ _ _ _ t] ops
    by (auto simp: iq_repr_def iq_empty_def)
qed

text \<open>
  C15: over a whole run, for any sequence of rounds and with a stop requested or not, \<open>__n_total_submit_\<close> stays between 0 and
  the size of the completion queue and \<open>__n_newly_submit_\<close> stays the distance of the submission ring's indices, also across
  interrupted and timed-out calls, provided the kernel answers as documented: the ring is never overfilled and the kernel is
  never asked to take entries that are not there.
\<close>

theorem run_keeps_counters:
  assumes "own_frame sub com" "drain_frame drain" "sched_inv k s" "rounds_ok sub com drain rs s"
    and "run_loop sub com drain rs s = Some (Inr (b, s'))"
  shows "sched_inv k s'"
  by (rule run_loop_inv [OF assms])

definition demo_round :: "unit round" where
  "demo_round = \<lparr>rd_ld = (\<lambda>_. 0), rd_stop = False, rd_exit_stop = False,
     rd_kernel = (\<lambda>s. Some (4, s\<lparr>sc_sq := (sc_sq s)\<lparr>sq_head := sq_head (sc_sq s) + 4\<rparr>\<rparr>)), rd_accept = (\<lambda>s. s)\<rparr>"

theorem run_keeps_counters_witness:
  "\<exists>s'. run_loop demo_rsub demo_rcom (\<lambda>_. Some) [demo_round] (demo_start False) = Some (Inr (False, s')) \<and> sc_newly s' = 0
     \<and> sc_total s' = 5 \<and> sched_inv 2 s'"
proof -
  let ?s = "demo_start False"
  have ld: "(0 :: u32) = cq_head (sc_cq ?s)" by (simp add: demo_start_def)
  obtain s1 where s1: "run_some demo_rsub demo_rcom (\<lambda>_. Some) (\<lambda>_. 0) False ?s = Some s1" "sched_inv 2 s1" "sc_total s1 = 5" "sc_newly s1 = 4"
    using run_some_ok [OF demo_run_frame(5,1-3), of 0 "\<lambda>_. 0" False "\<lambda>_. 0" "[10, 20]"] demo_run_frame(6) [of False] ld
    by (auto simp: complete_all.simps demo_start_def)
  have cq: "cq_complete (\<lambda>_. 0) demo_rcom (sc_cq ?s) ?s = Some (0, sc_cq ?s, ?s)"
    using cq_complete_runs [of 0 "\<lambda>_. 0" "sc_cq ?s" "\<lambda>_. 0" demo_rcom ?s] ld by (simp add: complete_all.simps)
  let ?s2 = "s1\<lparr>sc_sq := (sc_sq s1)\<lparr>sq_head := sq_head (sc_sq s1) + 4\<rparr>\<rparr>" and ?s3 = "s1\<lparr>sc_sq := (sc_sq s1)\<lparr>sq_head := sq_head (sc_sq s1) + 4\<rparr>, sc_newly := 0\<rparr>"
  have k: "kernel_ok s1 4 ?s2" unfolding kernel_ok_def using s1(4) by (intro exI [of _ 4]) (simp add: etime_def)
  have e: "enter_result 4 ?s2 = Inr ?s3" using s1(4) by (simp add: enter_result_def enter_error_def etime_def eintr_def)
  have ok: "rounds_ok demo_rsub demo_rcom (\<lambda>_. Some) [demo_round] ?s"
    using cq s1 k e by (simp add: demo_round_def demo_start_def)
  have run: "run_loop demo_rsub demo_rcom (\<lambda>_. Some) [demo_round] ?s = Some (Inr (False, ?s3))"
    using s1 e by (simp add: demo_round_def loop_exit_def)
  from run_keeps_counters [OF demo_run_frame(2,4,5) ok run] run s1(3) show ?thesis by auto
qed

end
