(* ===== verification/Accept_Remote.thy ===== *)
theory Accept_Remote
  imports Segment_Array Intrusive_Queue
begin

text \<open>
  How the scheduler takes what other threads have submitted: \<open>__remote_task_queue::_M_pop_swap_reversed\<close> and
  \<open>_M_accept_remote_request\<close> in \<open>__scheduler.hpp\<close>. Each submitting thread has an atomic queue of its own, registered once in a
  segment array; the scheduler folds over the array, takes each queue with one exchange, and appends it to its private queue.
  The tasks of all queues share one link field. An exchange takes what the queue holds at that moment: the interleaving of the
  exchange with the pushes is the matter of \<open>Atomic_Queue\<close>.
\<close>

section \<open>State and operations\<close>

record 'n tasks =
  tk_next :: "'n nexts"
  tk_heads :: "nat \<Rightarrow> 'n ptr"

text \<open>\<open>queue->_M_pop_swap_reversed ()\<close>: exchange the head with null and reverse the chain.\<close>

definition take_reversed :: "nat \<Rightarrow> 'n tasks \<Rightarrow> ('n tasks \<times> 'n iqueue) ub" where
  "take_reversed a s = do {
     (nx, q) \<leftarrow> iq_create_reversed (tk_next s) (tk_heads s a);
     Some (s\<lparr>tk_next := nx, tk_heads := (tk_heads s)(a := nullptr)\<rparr>, q)
   }"

definition fold_append :: "('n tasks \<times> 'n iqueue) ub \<Rightarrow> nat \<Rightarrow> ('n tasks \<times> 'n iqueue) ub" where
  "fold_append acc a = do {
     (s, q) \<leftarrow> acc;
     (s1, q1) \<leftarrow> take_reversed a s;
     (nx, q2) \<leftarrow> iq_append (tk_next s1) q q1;
     Some (s1\<lparr>tk_next := nx\<rparr>, q2)
   }"

definition remote_pop_reversed :: "nat segs \<Rightarrow> 'n tasks \<Rightarrow> ('n tasks \<times> 'n iqueue) ub" where
  "remote_pop_reversed arr s = Option.bind (fold_inplace fold_append (Some (s, iq_new)) arr) (\<lambda>r. r)"

record 'n acceptor_state = "'n tasks" +
  io_remote :: "nat segs"
  dr_remote :: "nat segs"
  io_pend :: "'n iqueue"
  dr_pend :: "'n iqueue"

definition tasks_of :: "('n, 'z) tasks_scheme \<Rightarrow> 'n tasks" where
  "tasks_of s = \<lparr>tk_next = tk_next s, tk_heads = tk_heads s\<rparr>"

lemma tasks_of_simps [simp]: "tk_next (tasks_of s) = tk_next s" "tk_heads (tasks_of s) = tk_heads s"
  by (simp_all add: tasks_of_def)

definition accept_remote_request :: "'n acceptor_state \<Rightarrow> 'n acceptor_state ub" where
  "accept_remote_request s = do {
     (t, q) \<leftarrow> remote_pop_reversed (io_remote s) (tasks_of s);
     (nx, p) \<leftarrow> iq_append (tk_next t) (io_pend s) q;
     let s1 = s\<lparr>tk_next := nx, tk_heads := tk_heads t, io_pend := p\<rparr>;
     (t1, q1) \<leftarrow> remote_pop_reversed (dr_remote s1) (tasks_of s1);
     (nx1, p1) \<leftarrow> iq_append (tk_next t1) (dr_pend s1) q1;
     Some (s1\<lparr>tk_next := nx1, tk_heads := tk_heads t1, dr_pend := p1\<rparr>)
   }"

section \<open>Folding\<close>

definition stacks :: "'n nexts \<Rightarrow> (nat \<Rightarrow> 'n ptr) \<Rightarrow> (nat \<Rightarrow> 'n list) \<Rightarrow> nat list \<Rightarrow> bool" where
  "stacks nx hs stk as \<longleftrightarrow> (\<forall>a \<in> set as. lseg nx (hs a) (stk a) nullptr)"

definition nodes :: "(nat \<Rightarrow> 'n list) \<Rightarrow> nat list \<Rightarrow> 'n list" where
  "nodes stk as = concat (map stk as)"

definition delivered :: "(nat \<Rightarrow> 'n list) \<Rightarrow> nat list \<Rightarrow> 'n list" where
  "delivered stk as = concat (map (rev \<circ> stk) as)"

lemma nodes_simps [simp]: "nodes stk [] = []" "nodes stk (a # as) = stk a @ nodes stk as"
  by (simp_all add: nodes_def)

lemma delivered_simps [simp]: "delivered stk [] = []" "delivered stk (a # as) = rev (stk a) @ delivered stk as"
  by (simp_all add: delivered_def)

lemma set_delivered [simp]: "set (delivered stk as) = set (nodes stk as)"
  by (induction as) auto

lemma stk_nodes: "a \<in> set as \<Longrightarrow> set (stk a) \<subseteq> set (nodes stk as)"
  by (auto simp: nodes_def)

lemma fold_append_ok:
  assumes "iq_repr (tk_next s) q xs" "stacks (tk_next s) (tk_heads s) stk as" "distinct (xs @ nodes stk as)"
  shows "\<exists>s' q'. foldl fold_append (Some (s, q)) as = Some (s', q') \<and> iq_repr (tk_next s') q' (xs @ delivered stk as)
    \<and> tk_heads s' = (\<lambda>a. if a \<in> set as then nullptr else tk_heads s a) \<and> same_off (set (xs @ nodes stk as)) (tk_next s) (tk_next s')"
  using assms
proof (induction as arbitrary: s q xs)
  case Nil
  then show ?case by simp
next
  case (Cons a as)
  from Cons.prems(2) have "lseg (tk_next s) (tk_heads s a) (stk a) nullptr" by (simp add: stacks_def)
  from iq_create_reversed_refines [OF this] obtain nx q1 where
    q1: "iq_create_reversed (tk_next s) (tk_heads s a) = Some (nx, q1)" "iq_repr nx q1 (rev (stk a))" "same_off (set (stk a)) (tk_next s) nx"
    by blast
  have dj: "set xs \<inter> set (stk a) = {}" using Cons.prems(3) by auto
  have "iq_repr nx q xs" using same_off_repr [OF q1(3), of xs q] dj Cons.prems(1) by blast
  from iq_append_refines [OF this q1(2)] dj obtain nx2 q2 where
    q2: "iq_append nx q q1 = Some (nx2, q2)" "iq_repr nx2 q2 (xs @ rev (stk a))" "same_off (set xs) nx nx2" by auto
  let ?s = "s\<lparr>tk_heads := (tk_heads s)(a := nullptr), tk_next := nx2\<rparr>"
  have off: "same_off (set (xs @ stk a)) (tk_next s) nx2" by (rule same_off_trans [OF q1(3) q2(3)]) auto
  have st: "stacks (tk_next ?s) (tk_heads ?s) stk as"
    unfolding stacks_def
  proof
    fix b assume b: "b \<in> set as"
    have "set (stk b) \<subseteq> set (nodes stk as)" by (rule stk_nodes [OF b])
    then have d: "set (xs @ stk a) \<inter> set (stk b) = {}" using Cons.prems(3) by auto
    show "lseg (tk_next ?s) (tk_heads ?s b) (stk b) nullptr"
    proof (cases "b = a")
      case True
      then have "stk b = []" using d by auto
      then show ?thesis using True by simp
    next
      case False
      have "lseg (tk_next s) (tk_heads s b) (stk b) nullptr" using Cons.prems(2) b by (simp add: stacks_def)
      then show ?thesis using same_off_lseg [OF off d] False by simp
    qed
  qed
  have step: "foldl fold_append (Some (s, q)) (a # as) = foldl fold_append (Some (?s, q2)) as"
    using q1(1) q2(1) by (simp add: fold_append_def take_reversed_def)
  have "distinct ((xs @ rev (stk a)) @ nodes stk as)" using Cons.prems(3) by auto
  from Cons.IH [of ?s q2 "xs @ rev (stk a)", OF _ st this] q2(2) obtain s' q' where
    r: "foldl fold_append (Some (?s, q2)) as = Some (s', q')" "iq_repr (tk_next s') q' ((xs @ rev (stk a)) @ delivered stk as)"
      "tk_heads s' = (\<lambda>b. if b \<in> set as then nullptr else tk_heads ?s b)"
      "same_off (set ((xs @ rev (stk a)) @ nodes stk as)) nx2 (tk_next s')" by auto
  have "same_off (set (xs @ nodes stk (a # as))) (tk_next s) (tk_next s')" by (rule same_off_trans [OF off r(4)]) auto
  with r step show ?case by auto
qed

lemma remote_pop_reversed_ok:
  assumes arr: "fold_loop fold_append arr (unat (sa_count arr)) 0 0 (Some (s, iq_new)) = Some (foldl fold_append (Some (s, iq_new)) as)"
    and st: "stacks (tk_next s) (tk_heads s) stk as" "distinct (nodes stk as)"
  shows "\<exists>s' q'. remote_pop_reversed arr s = Some (s', q') \<and> iq_repr (tk_next s') q' (delivered stk as)
    \<and> tk_heads s' = (\<lambda>a. if a \<in> set as then nullptr else tk_heads s a) \<and> same_off (set (nodes stk as)) (tk_next s) (tk_next s')"
  using fold_append_ok [of s iq_new "[]", OF _ st(1)] st(2) arr by (auto simp: remote_pop_reversed_def fold_inplace_def)

text \<open>The queues registered in an array, in order.\<close>

definition registered :: "nat segs \<Rightarrow> nat list" where
  "registered m = map (\<lambda>i. the (sa_log m i)) [0..<unat (sa_count m)]"

lemma fold_registered:
  assumes "seg_reachable nseg d (T, m)" "nseg \<le> 32"
  shows "fold_loop fn m (unat (sa_count m)) 0 0 b = Some (foldl fn b (registered m))"
  using seg_fold_published_ok [OF assms(1) rtranclp.rtrancl_refl assms(2), of fn b] by (simp add: registered_def)

section \<open>Properties\<close>

text \<open>
  C37: accepting remote requests appends to each of the two private queues, for every thread in the order of registration, the
  tasks that thread had pushed, oldest first; every atomic queue is left empty, no task is lost or moved between the two kinds,
  and nothing is undefined, whatever other threads are registering at the time.
\<close>

theorem accept_remote_delivers:
  assumes "seg_reachable nseg d (Ti, io_remote s)" "seg_reachable nseg' d' (Td, dr_remote s)" "nseg \<le> 32" "nseg' \<le> 32"
    and "iq_repr (tk_next s) (io_pend s) xs" "iq_repr (tk_next s) (dr_pend s) ys"
    and "stacks (tk_next s) (tk_heads s) stk (registered (io_remote s) @ registered (dr_remote s))"
    and "distinct (xs @ ys @ nodes stk (registered (io_remote s) @ registered (dr_remote s)))"
  shows "\<exists>s'. accept_remote_request s = Some s'
    \<and> iq_repr (tk_next s') (io_pend s') (xs @ delivered stk (registered (io_remote s)))
    \<and> iq_repr (tk_next s') (dr_pend s') (ys @ delivered stk (registered (dr_remote s)))
    \<and> (\<forall>a \<in> set (registered (io_remote s) @ registered (dr_remote s)). tk_heads s' a = nullptr)"
proof -
  let ?as = "registered (io_remote s)" and ?bs = "registered (dr_remote s)"
  have ab: "nodes stk (?as @ ?bs) = nodes stk ?as @ nodes stk ?bs" by (simp add: nodes_def)
  note dis = assms(8) [unfolded ab]
  from remote_pop_reversed_ok [OF fold_registered [OF assms(1,3)], of "tasks_of s" stk] assms(7) dis obtain t q where
    t: "remote_pop_reversed (io_remote s) (tasks_of s) = Some (t, q)" "iq_repr (tk_next t) q (delivered stk ?as)"
      "tk_heads t = (\<lambda>a. if a \<in> set ?as then nullptr else tk_heads (tasks_of s) a)" "same_off (set (nodes stk ?as)) (tk_next s) (tk_next t)"
    by (auto simp: stacks_def)
  have dj: "set (nodes stk ?as) \<inter> set xs = {}" "set (xs @ nodes stk ?as) \<inter> set ys = {}" "set (nodes stk ?bs) \<inter> set ys = {}"
    "set (ys @ nodes stk ?bs) \<inter> set (xs @ delivered stk ?as) = {}"
    using dis by auto
  have xs: "iq_repr (tk_next t) (io_pend s) xs" using same_off_repr [OF t(4) [simplified] dj(1)] assms(5) by simp
  from iq_append_refines [OF xs t(2)] dj(1) obtain nx p where
    p: "iq_append (tk_next t) (io_pend s) q = Some (nx, p)" "iq_repr nx p (xs @ delivered stk ?as)" "same_off (set xs) (tk_next t) nx"
    by (auto simp: Int_commute)
  have off: "same_off (set (xs @ nodes stk ?as)) (tk_next s) nx" by (rule same_off_trans [OF t(4) p(3)]) auto
  let ?s1 = "s\<lparr>tk_next := nx, tk_heads := tk_heads t, io_pend := p\<rparr>"
  have ys: "iq_repr nx (dr_pend s) ys" using same_off_repr [OF off dj(2)] assms(6) by simp
  have st: "stacks nx (tk_heads t) stk ?bs"
    unfolding stacks_def
  proof
    fix b assume b: "b \<in> set ?bs"
    have "set (stk b) \<subseteq> set (nodes stk ?bs)" by (rule stk_nodes [OF b])
    then have d: "set (xs @ nodes stk ?as) \<inter> set (stk b) = {}" using dis by auto
    show "lseg nx (tk_heads t b) (stk b) nullptr"
    proof (cases "b \<in> set ?as")
      case True
      have "set (stk b) \<subseteq> set (xs @ nodes stk ?as)" using stk_nodes [OF True, of stk] by (simp add: le_supI2)
      then have "set (stk b) = {}" using d by (metis Int_absorb1)
      then have "stk b = []" by simp
      then show ?thesis using t(3) True by simp
    next
      case False
      have "lseg (tk_next s) (tk_heads s b) (stk b) nullptr" using assms(7) b by (simp add: stacks_def)
      then show ?thesis using same_off_lseg [OF off d] t(3) False by simp
    qed
  qed
  from remote_pop_reversed_ok [OF fold_registered [OF assms(2,4)], of "tasks_of ?s1" stk] st dis obtain t1 q1 where
    t1: "remote_pop_reversed (dr_remote s) (tasks_of ?s1) = Some (t1, q1)" "iq_repr (tk_next t1) q1 (delivered stk ?bs)"
      "tk_heads t1 = (\<lambda>a. if a \<in> set ?bs then nullptr else tk_heads (tasks_of ?s1) a)" "same_off (set (nodes stk ?bs)) nx (tk_next t1)"
    by auto
  have "iq_repr (tk_next t1) (dr_pend s) ys" using same_off_repr [OF t1(4) dj(3)] ys by simp
  from iq_append_refines [OF this t1(2)] dis obtain nx1 p1 where
    p1: "iq_append (tk_next t1) (dr_pend s) q1 = Some (nx1, p1)" "iq_repr nx1 p1 (ys @ delivered stk ?bs)"
      "same_off (set ys) (tk_next t1) nx1" by auto
  have "same_off (set (ys @ nodes stk ?bs)) nx nx1" by (rule same_off_trans [OF t1(4) p1(3)]) auto
  then have "iq_repr nx1 p (xs @ delivered stk ?as)" using same_off_repr [OF _ dj(4)] p(2) by simp
  then show ?thesis using t(1,3) p(1) t1(1,3) p1(1,2) by (auto simp: accept_remote_request_def Let_def)
qed

definition demo_tasks :: "nat segs \<Rightarrow> nat acceptor_state" where
  "demo_tasks m = \<lparr>tk_next = [2 \<mapsto> 1], tk_heads = [10 \<mapsto> 2, 20 \<mapsto> 3], io_remote = m, dr_remote = segs_new,
     io_pend = \<lparr>iq_head = Some 7, iq_tail = Some 7\<rparr>, dr_pend = iq_new\<rparr>"

theorem accept_remote_delivers_witness:
  "\<exists>m s'. registered m = [10, 20] \<and> accept_remote_request (demo_tasks m) = Some s' \<and> iq_repr (tk_next s') (io_pend s') [7, 1, 2, 3]"
proof -
  have "srun_of 8 0 demo_appends [] (\<lambda>s s'. registered (snd s) = [10, 20])" by code_simp
  from srun_ofD [OF this] obtain T :: "bool \<Rightarrow> nat spc" and m where m: "seg_reachable 8 0 (T, m)" "registered m = [10, 20]" by auto
  have n: "seg_reachable 8 0 (\<lambda>_ :: bool. S_Idle, segs_new)" by (rule seg_reachable.init)
  let ?stk = "\<lambda>a :: nat. if a = 10 then [2, 1] else if a = 20 then [3 :: nat] else []"
  let ?s = "demo_tasks m"
  have io: "io_remote ?s = m" and dr: "dr_remote ?s = segs_new" and r0: "registered segs_new = []"
    by (simp_all add: demo_tasks_def registered_def segs_new_def)
  have q: "iq_repr (tk_next ?s) (io_pend ?s) [7]" "iq_repr (tk_next ?s) (dr_pend ?s) []"
    "stacks (tk_next ?s) (tk_heads ?s) ?stk (registered (io_remote ?s) @ registered (dr_remote ?s))"
    "distinct ([7] @ [] @ nodes ?stk (registered (io_remote ?s) @ registered (dr_remote ?s)))"
    unfolding io dr m(2) r0 by (simp_all add: demo_tasks_def iq_repr_def last_ptr_def stacks_def iq_new_def)
  have "8 \<le> (32 :: nat)" by simp
  moreover have "seg_reachable 8 0 (T, io_remote ?s)" "seg_reachable 8 0 (\<lambda>_ :: bool. S_Idle, dr_remote ?s)" using m(1) n io dr by simp_all
  ultimately show ?thesis
    using accept_remote_delivers [where s = ?s and stk = ?stk and xs = "[7]" and ys = "[]", OF _ _ _ _ q] m(2)
    unfolding io dr by fastforce
qed

end
