(* ===== verification/Mpsc_Queue.thy ===== *)
theory Mpsc_Queue
  imports Prelude
begin

text \<open>
  \<open>__intrusive_mpsc_queue.hpp\<close>: any thread pushes with one exchange of \<open>__head_\<close> and one store of a link; one consumer pops at
  \<open>__tail_\<close>. A step of the model is one access to \<open>__head_\<close> or to a link; \<open>__tail_\<close> belongs to the consumer. The node
  \<open>stub\<close> is \<open>__stub_\<close>.

  Auxiliary fields: \<open>mq_list\<close> is the queue from \<open>__tail_\<close> to \<open>__head_\<close> in the order of the exchanges, \<open>mq_pushed\<close> the nodes of the
  callers in the order they were exchanged in, and \<open>mq_popped\<close> those that were returned. No step of the code reads them.
\<close>

section \<open>State and steps\<close>

record 'n mpsc =
  mq_head :: 'n
  mq_tail :: 'n
  mq_next :: "'n \<Rightarrow> 'n ptr"
  mq_list :: "'n list"
  mq_pushed :: "'n list"
  mq_popped :: "'n list"

definition mpsc_new :: "'n \<Rightarrow> ('n \<Rightarrow> 'n ptr) \<Rightarrow> 'n mpsc" where
  "mpsc_new stub nx = \<lparr>mq_head = stub, mq_tail = stub, mq_next = nx(stub := nullptr), mq_list = [stub], mq_pushed = [], mq_popped = []\<rparr>"

datatype 'n ppc = P_Idle | P_Clear 'n | P_Xchg 'n | P_Link 'n 'n | P_Ret bool

fun pstep :: "'n \<Rightarrow> 'n ppc \<Rightarrow> 'n mpsc \<Rightarrow> 'n ppc \<times> 'n mpsc" where
  "pstep stub (P_Clear n) m = (P_Xchg n, m\<lparr>mq_next := (mq_next m)(n := nullptr)\<rparr>)"
| "pstep stub (P_Xchg n) m =
     (P_Link n (mq_head m),
      m\<lparr>mq_head := n, mq_list := mq_list m @ [n], mq_pushed := mq_pushed m @ (if n = stub then [] else [n])\<rparr>)"
| "pstep stub (P_Link n prev) m = (P_Ret (prev = stub), m\<lparr>mq_next := (mq_next m)(prev := Some n)\<rparr>)"
| "pstep stub (P_Ret b) m = (P_Idle, m)"
| "pstep stub P_Idle m = (P_Idle, m)"

text \<open>The consumer; \<open>C_Stub\<close> is its own call of \<open>_M_push_back (&__stub_)\<close>.\<close>

datatype 'n cpc = C_Idle | C_Load | C_Load2 'n | C_Head 'n | C_Stub 'n "'n ppc" | C_Again 'n | C_Ret "'n ptr"

definition take_tail :: "'n \<Rightarrow> 'n \<Rightarrow> 'n mpsc \<Rightarrow> 'n cpc \<times> 'n mpsc" where
  "take_tail tail nxt m = (C_Ret (Some tail), m\<lparr>mq_tail := nxt, mq_list := tl (mq_list m), mq_popped := mq_popped m @ [tail]\<rparr>)"

definition skip_stub :: "'n \<Rightarrow> 'n mpsc \<Rightarrow> 'n mpsc" where
  "skip_stub nxt m = m\<lparr>mq_tail := nxt, mq_list := tl (mq_list m)\<rparr>"

fun cstep :: "'n \<Rightarrow> 'n cpc \<Rightarrow> 'n mpsc \<Rightarrow> 'n cpc \<times> 'n mpsc" where
  "cstep stub C_Load m = (let tail = mq_tail m; nxt = mq_next m tail in
     if tail = stub then (case nxt of None \<Rightarrow> (C_Ret nullptr, m) | Some n \<Rightarrow> (C_Load2 n, skip_stub n m))
     else (case nxt of None \<Rightarrow> (C_Head tail, m) | Some n \<Rightarrow> take_tail tail n m))"
| "cstep stub (C_Load2 tail) m = (case mq_next m tail of None \<Rightarrow> (C_Head tail, m) | Some n \<Rightarrow> take_tail tail n m)"
| "cstep stub (C_Head tail) m = (if tail \<noteq> mq_head m then (C_Ret nullptr, m) else (C_Stub tail (P_Clear stub), m))"
| "cstep stub (C_Stub tail p) m = (case pstep stub p m of (P_Ret b, m') \<Rightarrow> (C_Again tail, m') | (p', m') \<Rightarrow> (C_Stub tail p', m'))"
| "cstep stub (C_Again tail) m = (case mq_next m tail of None \<Rightarrow> (C_Ret nullptr, m) | Some n \<Rightarrow> take_tail tail n m)"
| "cstep stub (C_Ret r) m = (C_Idle, m)"
| "cstep stub C_Idle m = (C_Idle, m)"

section \<open>The system\<close>

type_synonym ('t, 'n) msys = "('t \<Rightarrow> 'n ppc) \<times> 'n cpc \<times> 'n mpsc"

fun node_of :: "'n ppc \<Rightarrow> 'n option" where
  "node_of (P_Clear n) = Some n"
| "node_of (P_Xchg n) = Some n"
| "node_of (P_Link n prev) = Some n"
| "node_of _ = None"

text \<open>The pushing agents: the producers, and the consumer while it pushes the stub.\<close>

fun agent :: "('t \<Rightarrow> 'n ppc) \<Rightarrow> 'n cpc \<Rightarrow> 't option \<Rightarrow> 'n ppc" where
  "agent T c (Some t) = T t"
| "agent T (C_Stub tail p) None = p"
| "agent T c None = P_Idle"

text \<open>A producer pushes a node that is not the stub, not in the queue, and that nobody else is pushing.\<close>

inductive mstep :: "'n \<Rightarrow> ('t, 'n) msys \<Rightarrow> ('t, 'n) msys \<Rightarrow> bool" for stub where
  produce: "T t \<noteq> P_Idle \<Longrightarrow> pstep stub (T t) m = (p, m') \<Longrightarrow> mstep stub (T, c, m) (T(t := p), c, m')"
| consume: "c \<noteq> C_Idle \<Longrightarrow> cstep stub c m = (c', m') \<Longrightarrow> mstep stub (T, c, m) (T, c', m')"
| push: "T t = P_Idle \<Longrightarrow> n \<noteq> stub \<Longrightarrow> n \<notin> set (mq_list m) \<Longrightarrow> (\<And>u. node_of (T u) \<noteq> Some n)
    \<Longrightarrow> mstep stub (T, c, m) (T(t := P_Clear n), c, m)"
| pop: "mstep stub (T, C_Idle, m) (T, C_Load, m)"

inductive mreachable :: "'n \<Rightarrow> ('t, 'n) msys \<Rightarrow> bool" for stub where
  init: "mreachable stub (\<lambda>_. P_Idle, C_Idle, mpsc_new stub nx)"
| step: "mreachable stub s \<Longrightarrow> mstep stub s s' \<Longrightarrow> mreachable stub s'"

section \<open>Links\<close>

text \<open>A link of the queue is set, or the agent that appended its target is still to set it (\<open>P\<close>).\<close>

fun links :: "('n \<Rightarrow> 'n ptr) \<Rightarrow> ('n \<Rightarrow> 'n \<Rightarrow> bool) \<Rightarrow> 'n list \<Rightarrow> bool" where
  "links nx P [] = False"
| "links nx P [a] = (nx a = None)"
| "links nx P (a # b # xs) = ((nx a = Some b \<or> nx a = None \<and> P a b) \<and> links nx P (b # xs))"

fun adjacent :: "'n \<Rightarrow> 'n \<Rightarrow> 'n list \<Rightarrow> bool" where
  "adjacent p n (a # b # xs) = (p = a \<and> n = b \<or> adjacent p n (b # xs))"
| "adjacent p n _ = False"

lemma adjacent_set: "adjacent p n xs \<Longrightarrow> p \<in> set xs \<and> n \<in> set xs"
  by (induction p n xs rule: adjacent.induct) auto

lemma adjacent_snoc: "xs \<noteq> [] \<Longrightarrow> adjacent p n (xs @ [y]) \<longleftrightarrow> adjacent p n xs \<or> p = last xs \<and> n = y"
  by (induction xs rule: induct_list012) auto

lemma links_Nil: "links nx P xs \<Longrightarrow> xs \<noteq> []"
  by auto

lemma links_cong:
  "links nx P xs \<Longrightarrow> (\<And>x. x \<in> set xs \<Longrightarrow> nx' x = nx x) \<Longrightarrow> (\<And>a b. adjacent a b xs \<Longrightarrow> P a b \<Longrightarrow> P' a b) \<Longrightarrow> links nx' P' xs"
  by (induction nx P xs rule: links.induct) auto

lemma links_last: "links nx P xs \<Longrightarrow> nx (last xs) = None"
  by (induction nx P xs rule: links.induct) auto

lemma links_snoc:
  "links nx P xs \<Longrightarrow> nx n = None \<Longrightarrow> P (last xs) n \<Longrightarrow> links nx P (xs @ [n])"
  by (induction nx P xs rule: links.induct) auto

lemma links_set:
  "links nx P xs \<Longrightarrow> distinct xs \<Longrightarrow> adjacent p n xs \<Longrightarrow> (\<And>a b. adjacent a b xs \<Longrightarrow> P a b \<Longrightarrow> a \<noteq> p \<Longrightarrow> P' a b)
    \<Longrightarrow> links (nx(p := Some n)) P' xs"
proof (induction nx P xs rule: links.induct)
  case (3 nx P a b xs)
  show ?case
  proof (cases "p = a")
    case True
    have "a \<notin> set (b # xs)" using 3(3) by simp
    then have n: "n = b" using 3(4) True adjacent_set [of a n "b # xs"] by auto
    have "links (nx(p := Some n)) P' (b # xs)"
      by (rule links_cong [of nx P]) (use 3(2) \<open>a \<notin> set (b # xs)\<close> 3(5) True adjacent_set [of _ _ "b # xs"] in fastforce)+
    then show ?thesis using True n by (simp add: fun_upd_def)
  next
    case False
    have l: "links (nx(p := Some n)) P' (b # xs)" by (rule 3(1)) (use False 3(2-5) in simp_all)
    have "(nx(p := Some n)) a = Some b \<or> (nx(p := Some n)) a = None \<and> P' a b" using False 3(2,5) by auto
    with l show ?thesis by (simp only: links.simps)
  qed
qed auto

lemma links_adjacent:
  "links nx P xs \<Longrightarrow> distinct xs \<Longrightarrow> nx a = Some b \<Longrightarrow> a \<in> set xs \<Longrightarrow> adjacent a b xs"
  by (induction nx P xs rule: links.induct) auto

section \<open>Invariant\<close>

fun pok :: "'n mpsc \<Rightarrow> 'n ppc \<Rightarrow> bool" where
  "pok m (P_Clear n) \<longleftrightarrow> n \<notin> set (mq_list m)"
| "pok m (P_Xchg n) \<longleftrightarrow> n \<notin> set (mq_list m) \<and> mq_next m n = None"
| "pok m (P_Link n prev) \<longleftrightarrow> adjacent prev n (mq_list m) \<and> mq_next m prev = None"
| "pok m _ \<longleftrightarrow> True"

definition pending :: "('a \<Rightarrow> 'n ppc) \<Rightarrow> 'n \<Rightarrow> 'n \<Rightarrow> bool" where
  "pending A prev n \<longleftrightarrow> (\<exists>a. A a = P_Link n prev)"

definition queue_ok :: "'n \<Rightarrow> ('a \<Rightarrow> 'n ppc) \<Rightarrow> 'n mpsc \<Rightarrow> bool" where
  "queue_ok stub A m \<longleftrightarrow> distinct (mq_list m) \<and> mq_tail m = hd (mq_list m) \<and> mq_head m = last (mq_list m)
     \<and> links (mq_next m) (pending A) (mq_list m) \<and> mq_pushed m = mq_popped m @ filter (\<lambda>n. n \<noteq> stub) (mq_list m)"

definition agents_ok :: "('a \<Rightarrow> 'n ppc) \<Rightarrow> 'n mpsc \<Rightarrow> bool" where
  "agents_ok A m \<longleftrightarrow> (\<forall>a. pok m (A a)) \<and> (\<forall>a b. node_of (A a) \<noteq> None \<longrightarrow> node_of (A a) = node_of (A b) \<longrightarrow> a = b)"

fun cok :: "'n \<Rightarrow> 'n mpsc \<Rightarrow> 'n cpc \<Rightarrow> bool" where
  "cok stub m (C_Load2 tail) \<longleftrightarrow> mq_tail m = tail \<and> tail \<noteq> stub"
| "cok stub m (C_Head tail) \<longleftrightarrow> mq_tail m = tail \<and> tail \<noteq> stub"
| "cok stub m (C_Stub tail p) \<longleftrightarrow> mq_tail m = tail \<and> tail \<noteq> stub \<and> node_of p = Some stub"
| "cok stub m (C_Again tail) \<longleftrightarrow> mq_tail m = tail \<and> tail \<noteq> stub"
| "cok stub m _ \<longleftrightarrow> True"

definition minv :: "'n \<Rightarrow> ('t, 'n) msys \<Rightarrow> bool" where
  "minv stub s \<longleftrightarrow> (case s of (T, c, m) \<Rightarrow> queue_ok stub (agent T c) m \<and> agents_ok (agent T c) m \<and> cok stub m c
     \<and> (\<forall>t. node_of (T t) \<noteq> Some stub))"

lemma agent_upd: "agent (T(t := p)) c = (agent T c)(Some t := p)"
proof
  fix a show "agent (T(t := p)) c a = ((agent T c)(Some t := p)) a" by (cases a; cases c) auto
qed

lemma agent_init: "agent (\<lambda>_. P_Idle) C_Idle a = P_Idle"
  by (cases a) auto

lemma agent_None [simp]: "agent T c None = (case c of C_Stub tail p \<Rightarrow> p | _ \<Rightarrow> P_Idle)"
  by (cases c) auto

text \<open>A step of an agent keeps the queue and the other agents.\<close>

lemma agents_okD:
  assumes "agents_ok A m"
  shows "pok m (A a)" "node_of (A a) = Some n \<Longrightarrow> node_of (A b) = Some n \<Longrightarrow> a = b"
  using assms unfolding agents_ok_def by force+

lemma pending_upd:
  "pending A p n \<Longrightarrow> (A a = P_Link n p \<Longrightarrow> x = P_Link n p) \<Longrightarrow> pending (A(a := x)) p n"
  unfolding pending_def by (metis fun_upd_apply)

lemma agents_upd:
  assumes ag: "agents_ok A m" and x: "pok m' x" and oth: "\<And>b. b \<noteq> a \<Longrightarrow> pok m (A b) \<Longrightarrow> pok m' (A b)"
    and nd: "node_of x = None \<or> node_of x = node_of (A a) \<or> (\<forall>b. node_of (A b) \<noteq> node_of x)"
  shows "agents_ok (A(a := x)) m'"
proof -
  have "pok m' ((A(a := x)) b)" for b using x oth agents_okD(1) [OF ag] by (cases "b = a") auto
  moreover have "b = c" if "node_of ((A(a := x)) b) \<noteq> None" "node_of ((A(a := x)) b) = node_of ((A(a := x)) c)" for b c
  proof -
    have inj: "node_of (A b) \<noteq> None \<Longrightarrow> node_of (A b) = node_of (A c) \<Longrightarrow> b = c" for b c using ag unfolding agents_ok_def by blast
    have new: "node_of (A d) \<noteq> node_of x" if "node_of x \<noteq> None" "d \<noteq> a" for d using nd inj [of a d] that by metis
    show ?thesis
    proof (cases "b = a")
      case True
      then show ?thesis using that new [of c] by (cases "c = a") auto
    next
      case False
      then show ?thesis using that new [of b] inj [of b c] by (cases "c = a") auto
    qed
  qed
  ultimately show ?thesis unfolding agents_ok_def by blast
qed

lemma queue_okD:
  assumes "queue_ok stub A m"
  shows "distinct (mq_list m)" "mq_tail m = hd (mq_list m)" "mq_head m = last (mq_list m)"
    "links (mq_next m) (pending A) (mq_list m)" "mq_pushed m = mq_popped m @ filter (\<lambda>n. n \<noteq> stub) (mq_list m)" "mq_list m \<noteq> []"
  using assms links_Nil unfolding queue_ok_def by blast+

lemma pstep_ok:
  assumes q: "queue_ok stub A m" and ag: "agents_ok A m" and s: "pstep stub (A a) m = (p, m')"
  shows "queue_ok stub (A(a := p)) m' \<and> agents_ok (A(a := p)) m' \<and> mq_tail m' = mq_tail m \<and> set (mq_list m) \<subseteq> set (mq_list m')
    \<and> (node_of p = node_of (A a) \<or> node_of p = None)"
proof (cases "A a")
  case (P_Clear n)
  note pa = agents_okD(1) [OF ag, of a, unfolded P_Clear, simplified]
  have s': "p = P_Xchg n" "m' = m\<lparr>mq_next := (mq_next m)(n := nullptr)\<rparr>" using s P_Clear by auto
  have "links ((mq_next m)(n := nullptr)) (pending (A(a := p))) (mq_list m)"
    by (rule links_cong [OF queue_okD(4) [OF q]]) (use pa P_Clear in \<open>auto intro: pending_upd\<close>)
  moreover have "agents_ok (A(a := p)) m'"
  proof (rule agents_upd [OF ag])
    fix b assume "pok m (A b)" then show "pok m' (A b)" using pa adjacent_set by (cases "A b") (auto simp: s')
  qed (use s' pa P_Clear in auto)
  ultimately show ?thesis using q s' P_Clear by (simp add: queue_ok_def)
next
  case (P_Xchg n)
  note pa = agents_okD(1) [OF ag, of a, unfolded P_Xchg, simplified]
  have s': "p = P_Link n (mq_head m)" "m' = m\<lparr>mq_head := n, mq_list := mq_list m @ [n], mq_pushed := mq_pushed m @ (if n = stub then [] else [n])\<rparr>"
    using s P_Xchg by auto
  note ne = queue_okD(6) [OF q]
  have "links (mq_next m) (pending (A(a := p))) (mq_list m)"
    by (rule links_cong [OF queue_okD(4) [OF q]]) (use P_Xchg in \<open>auto intro: pending_upd\<close>)
  then have "links (mq_next m) (pending (A(a := p))) (mq_list m @ [n])"
    by (rule links_snoc) (use pa s' queue_okD(3) [OF q] in \<open>auto simp: pending_def\<close>)
  moreover have "agents_ok (A(a := p)) m'"
  proof (rule agents_upd [OF ag])
    have "mq_next m (mq_head m) = None"
      using links_last [OF queue_okD(4) [OF q]] queue_okD(3) [OF q] by simp
    then show "pok m' p" using s' ne queue_okD(3) [OF q] by (simp add: adjacent_snoc)
    fix b assume b: "b \<noteq> a" "pok m (A b)"
    have "node_of (A b) \<noteq> Some n" using agents_okD(2) [OF ag, of a n b] b(1) P_Xchg by auto
    then show "pok m' (A b)" using b(2) ne by (cases "A b") (auto simp: s' adjacent_snoc)
  qed (use s' P_Xchg in auto)
  moreover have "hd (mq_list m @ [n]) = hd (mq_list m)" using ne by simp
  ultimately show ?thesis using q s' P_Xchg pa by (auto simp: queue_ok_def)
next
  case (P_Link n prev)
  note pa = agents_okD(1) [OF ag, of a, unfolded P_Link, simplified]
  have s': "p = P_Ret (prev = stub)" "m' = m\<lparr>mq_next := (mq_next m)(prev := Some n)\<rparr>" using s P_Link by auto
  have "links ((mq_next m)(prev := Some n)) (pending (A(a := p))) (mq_list m)"
    by (rule links_set [OF queue_okD(4,1) [OF q]]) (use pa P_Link in \<open>auto intro: pending_upd\<close>)
  moreover have "agents_ok (A(a := p)) m'"
  proof (rule agents_upd [OF ag])
    fix b assume b: "b \<noteq> a" "pok m (A b)"
    have un: "adjacent prev n' (mq_list m) \<Longrightarrow> n' = n" for n'
    proof -
      have "adjacent x y xs \<Longrightarrow> adjacent x z xs \<Longrightarrow> distinct xs \<Longrightarrow> z = y" for x y z :: 'a and xs
        by (induction x y xs rule: adjacent.induct) (auto dest: adjacent_set)
      then show "adjacent prev n' (mq_list m) \<Longrightarrow> n' = n" using pa queue_okD(1) [OF q] by blast
    qed
    have "node_of (A b) \<noteq> Some n" using agents_okD(2) [OF ag, of a n b] b(1) P_Link by auto
    moreover have "prev \<in> set (mq_list m)" using pa adjacent_set by fast
    ultimately show "pok m' (A b)" using b(2) un by (cases "A b") (auto simp: s')
  qed (use s' in auto)
  ultimately show ?thesis using q s' by (simp add: queue_ok_def)
next
  case (P_Ret b)
  then have s': "p = P_Idle" "m' = m" using s by auto
  have "links (mq_next m) (pending (A(a := p))) (mq_list m)"
    by (rule links_cong [OF queue_okD(4) [OF q]]) (use P_Ret in \<open>auto intro: pending_upd\<close>)
  moreover have "agents_ok (A(a := p)) m" by (rule agents_upd [OF ag]) (use s' in auto)
  ultimately show ?thesis using q s' by (simp add: queue_ok_def)
next
  case P_Idle
  then have "p = A a" "m' = m" using s by auto
  then show ?thesis using q ag by simp
qed

section \<open>The consumer\<close>

lemma links_tl: "links nx P (a # xs) \<Longrightarrow> xs \<noteq> [] \<Longrightarrow> links nx P xs"
  by (cases xs) auto

lemma links_hd: "links nx P xs \<Longrightarrow> nx (hd xs) = Some n \<Longrightarrow> \<exists>ys. xs = hd xs # n # ys"
  by (cases xs rule: list.exhaust; cases "tl xs") auto

lemma links_stuck: "links nx P xs \<Longrightarrow> nx (hd xs) = None \<Longrightarrow> tl xs \<noteq> [] \<Longrightarrow> \<exists>n. P (hd xs) n"
  by (cases xs rule: list.exhaust; cases "tl xs") auto

text \<open>Taking the first node off the list, whether it is returned or is the stub.\<close>

lemma drop_hd_ok:
  assumes q: "queue_ok stub A m" and ag: "agents_ok A m" and n: "mq_next m (mq_tail m) = Some n"
    and m': "m' = (if mq_tail m = stub then skip_stub n m else snd (take_tail (mq_tail m) n m))"
  shows "queue_ok stub A m' \<and> agents_ok A m' \<and> mq_tail m' = n \<and> n \<noteq> mq_tail m \<and> mq_list m = mq_tail m # mq_list m'"
proof -
  obtain ys where l: "mq_list m = mq_tail m # n # ys"
    using links_hd [OF queue_okD(4) [OF q], of n] n queue_okD(2) [OF q] by auto
  have f: "mq_list m' = n # ys" "mq_tail m' = n" "mq_head m' = mq_head m" "mq_next m' = mq_next m" "mq_pushed m' = mq_pushed m"
    "mq_popped m' = mq_popped m @ (if mq_tail m = stub then [] else [mq_tail m])"
    by (simp_all add: m' l skip_stub_def take_tail_def)
  have "queue_ok stub A m'"
    using q l by (auto simp: queue_ok_def f)
  moreover have "pok m' (A a)" for a
    using agents_okD(1) [OF ag, of a] n l by (cases "A a") (auto simp: f)
  then have "agents_ok A m'" using ag unfolding agents_ok_def by blast
  ultimately show ?thesis using l f queue_okD(1) [OF q] by auto
qed

lemma minvI:
  "queue_ok stub (agent T c) m \<Longrightarrow> agents_ok (agent T c) m \<Longrightarrow> cok stub m c \<Longrightarrow> (\<And>t. node_of (T t) \<noteq> Some stub) \<Longrightarrow> minv stub (T, c, m)"
  by (simp add: minv_def)

lemma minvD:
  assumes "minv stub (T, c, m)"
  shows "queue_ok stub (agent T c) m" "agents_ok (agent T c) m" "cok stub m c" "node_of (T t) \<noteq> Some stub"
  using assms by (simp_all add: minv_def)

lemma agent_quiet: "(\<And>tail p. c \<noteq> C_Stub tail p) \<Longrightarrow> (\<And>tail p. c' \<noteq> C_Stub tail p) \<Longrightarrow> agent T c = agent T c'"
proof -
  assume a: "\<And>tail p. c \<noteq> C_Stub tail p" "\<And>tail p. c' \<noteq> C_Stub tail p"
  show ?thesis
  proof
    fix x show "agent T c x = agent T c' x" using a by (cases x; cases c; cases c') auto
  qed
qed

lemma agent_stub: "agent T (C_Stub tail p) = (agent T c)(None := p)"
proof
  fix a show "agent T (C_Stub tail p) a = ((agent T c)(None := p)) a" by (cases a) auto
qed

lemma minv_take:
  assumes inv: "minv stub (T, c, m)" and quiet: "\<And>tail p. c \<noteq> C_Stub tail p" "\<And>tail p. c' \<noteq> C_Stub tail p"
    and n: "mq_next m (mq_tail m) = Some n"
    and m': "m' = (if mq_tail m = stub then skip_stub n m else snd (take_tail (mq_tail m) n m))"
    and c': "mq_tail m' = n \<Longrightarrow> n \<noteq> mq_tail m \<Longrightarrow> cok stub m' c'"
  shows "minv stub (T, c', m')"
proof -
  have e: "agent T c' = agent T c" by (rule agent_quiet [OF quiet(2,1)])
  from drop_hd_ok [OF minvD(1,2) [OF inv] n m'] show ?thesis
    by (intro minvI) (use c' minvD(4) [OF inv] e in auto)
qed

lemma minv_local:
  assumes inv: "minv stub (T, c, m)" and quiet: "\<And>tail p. c \<noteq> C_Stub tail p" "\<And>tail p. c' \<noteq> C_Stub tail p" and c': "cok stub m c'"
  shows "minv stub (T, c', m)"
  using inv c' agent_quiet [OF quiet, of T] by (simp add: minv_def)

lemma minv_cstep:
  assumes inv: "minv stub (T, c, m)" and s: "cstep stub c m = (c', m')"
  shows "minv stub (T, c', m')"
proof (cases c)
  case C_Load
  have q: "\<And>tail p. c \<noteq> C_Stub tail p" using C_Load by simp
  show ?thesis
  proof (cases "mq_next m (mq_tail m)")
    case None
    then have "m' = m" "c' = (if mq_tail m = stub then C_Ret nullptr else C_Head (mq_tail m))" using s C_Load by (auto simp: Let_def split: if_splits)
    then show ?thesis using minv_local [OF inv q, of c'] by auto
  next
    case (Some n)
    show ?thesis
      by (rule minv_take [OF inv q _ Some]) (use s C_Load Some in \<open>auto simp: Let_def take_tail_def split: if_splits\<close>)
  qed
next
  case (C_Load2 tail)
  have q: "\<And>tail p. c \<noteq> C_Stub tail p" and t: "mq_tail m = tail" "tail \<noteq> stub" using C_Load2 minvD(3) [OF inv] by auto
  show ?thesis
  proof (cases "mq_next m tail")
    case None
    then show ?thesis using minv_local [OF inv q, of c'] s C_Load2 t by auto
  next
    case (Some n)
    show ?thesis
      by (rule minv_take [OF inv q, of _ n]) (use s C_Load2 Some t in \<open>auto simp: take_tail_def\<close>)
  qed
next
  case (C_Again tail)
  have q: "\<And>tail p. c \<noteq> C_Stub tail p" and t: "mq_tail m = tail" "tail \<noteq> stub" using C_Again minvD(3) [OF inv] by auto
  show ?thesis
  proof (cases "mq_next m tail")
    case None
    then show ?thesis using minv_local [OF inv q, of c'] s C_Again t by auto
  next
    case (Some n)
    show ?thesis
      by (rule minv_take [OF inv q, of _ n]) (use s C_Again Some t in \<open>auto simp: take_tail_def\<close>)
  qed
next
  case (C_Head tail)
  have q: "\<And>tail p. c \<noteq> C_Stub tail p" and t: "mq_tail m = tail" "tail \<noteq> stub" using C_Head minvD(3) [OF inv] by auto
  show ?thesis
  proof (cases "tail = mq_head m")
    case False
    then show ?thesis using minv_local [OF inv q, of c'] s C_Head by auto
  next
    case True
    then have s': "c' = C_Stub tail (P_Clear stub)" "m' = m" using s C_Head by auto
    note k = queue_okD [OF minvD(1) [OF inv]]
    have one: "mq_list m = [tail]" 
    proof (cases "mq_list m")
      case (Cons a xs)
      then show ?thesis using k(1-3) t True by (cases xs rule: rev_cases) auto
    qed (use k(6) in simp)
    have a: "agent T c' = (agent T c)(None := P_Clear stub)" unfolding s' by (rule agent_stub)
    have "agent T c None = P_Idle" using C_Head by simp
    have "node_of (agent T c a) \<noteq> Some stub" for a using minvD(4) [OF inv] \<open>agent T c None = P_Idle\<close> by (cases a) auto
    then have "agents_ok (agent T c') m" unfolding a
      by (intro agents_upd [OF minvD(2) [OF inv]]) (use one t in auto)
    moreover have "queue_ok stub (agent T c') m"
      using minvD(1) [OF inv] one by (simp add: queue_ok_def)
    ultimately show ?thesis unfolding s' by (intro minvI) (use t s' minvD(4) [OF inv] in auto)
  qed
next
  case (C_Stub tail p)
  obtain p' m1 where p: "pstep stub p m = (p', m1)" by fastforce
  have ap: "agent T c None = p" using C_Stub by simp
  have t: "mq_tail m = tail" "tail \<noteq> stub" "node_of p = Some stub" using minvD(3) [OF inv] C_Stub by auto
  from pstep_ok [OF minvD(1,2) [OF inv], of None p' m1] p ap have
    r: "queue_ok stub ((agent T c)(None := p')) m1" "agents_ok ((agent T c)(None := p')) m1" "mq_tail m1 = mq_tail m" by auto
  show ?thesis
  proof (cases "\<exists>b. p' = P_Ret b")
    case True
    then have s': "c' = C_Again tail" "m' = m1" using s C_Stub p by auto
    have e: "agent T (C_Again tail) = (agent T c)(None := P_Idle)"
    proof
      fix a show "agent T (C_Again tail) a = ((agent T c)(None := P_Idle)) a" by (cases a) auto
    qed
    from True obtain b where b: "p' = P_Ret b" by blast
    from pstep_ok [OF r(1,2), of None P_Idle m1] b have
      "queue_ok stub ((agent T c)(None := P_Idle)) m1" "agents_ok ((agent T c)(None := P_Idle)) m1" by auto
    with e s' show ?thesis by (intro minvI) (use r(3) t minvD(4) [OF inv] in auto)
  next
    case False
    then have s': "c' = C_Stub tail p'" "m' = m1" using s C_Stub p by (auto split: ppc.splits)
    have "node_of p' = Some stub" using p t(3) False by (cases p) auto
    moreover have "agent T (C_Stub tail p') = (agent T c)(None := p')" by (rule agent_stub)
    ultimately show ?thesis unfolding s' by (intro minvI) (use r t minvD(4) [OF inv] in auto)
  qed
next
  case (C_Ret r)
  then show ?thesis using minv_local [OF inv, of C_Idle] s by auto
qed (use inv s in auto)

lemma minv_mstep:
  assumes "mstep stub s s'" "minv stub s"
  shows "minv stub s'"
  using assms
proof cases
  case (produce T t m p m' c)
  then have inv: "minv stub (T, c, m)" using assms(2) by simp
  have a: "agent T c (Some t) = T t" by simp
  from pstep_ok [OF minvD(1,2) [OF inv], of "Some t" p m'] produce(4) have
    r: "queue_ok stub ((agent T c)(Some t := p)) m'" "agents_ok ((agent T c)(Some t := p)) m'" "mq_tail m' = mq_tail m"
    "node_of p = node_of (T t) \<or> node_of p = None" by auto
  have "cok stub m' c" using minvD(3) [OF inv] r(3) by (cases c) auto
  moreover have "node_of ((T(t := p)) u) \<noteq> Some stub" for u using r(4) minvD(4) [OF inv] by auto
  ultimately show ?thesis unfolding produce(2) by (intro minvI) (use r in \<open>simp_all add: agent_upd\<close>)
next
  case (consume c m c' m' T)
  then show ?thesis using minv_cstep [of stub T c m c' m'] assms(2) by simp
next
  case (push T t n m c)
  then have inv: "minv stub (T, c, m)" using assms(2) by simp
  have un: "node_of (agent T c a) \<noteq> Some n" for a
    using push(4,6) minvD(3) [OF inv] by (cases a; cases c) auto
  have "agents_ok ((agent T c)(Some t := P_Clear n)) m"
    by (rule agents_upd [OF minvD(2) [OF inv]]) (use push(5) un in auto)
  moreover have "links (mq_next m) (pending ((agent T c)(Some t := P_Clear n))) (mq_list m)"
    by (rule links_cong [OF queue_okD(4) [OF minvD(1) [OF inv]]]) (use push(3) in \<open>auto intro: pending_upd\<close>)
  then have "queue_ok stub ((agent T c)(Some t := P_Clear n)) m" using minvD(1) [OF inv] by (simp add: queue_ok_def)
  ultimately show ?thesis unfolding push(2)
    by (intro minvI) (use minvD(3,4) [OF inv] push(4) in \<open>simp_all add: agent_upd\<close>)
next
  case (pop T m)
  then show ?thesis using minv_local [of stub T C_Idle m C_Load] assms(2) by simp
qed

lemma minv_reachable: "mreachable stub s \<Longrightarrow> minv stub s"
proof (induction rule: mreachable.induct)
  case (init nx)
  show ?case by (intro minvI) (auto simp: mpsc_new_def queue_ok_def agents_ok_def agent_init)
qed (rule minv_mstep)

section \<open>A pop that is not disturbed\<close>

fun crun :: "'n \<Rightarrow> nat \<Rightarrow> 'n cpc \<Rightarrow> 'n mpsc \<Rightarrow> 'n cpc \<times> 'n mpsc" where
  "crun stub 0 c m = (c, m)"
| "crun stub (Suc k) (C_Ret r) m = (C_Ret r, m)"
| "crun stub (Suc k) c m = (case cstep stub c m of (c', m') \<Rightarrow> crun stub k c' m')"

lemma links_set_all: "links nx P (a # b # xs) \<Longrightarrow> (\<And>x y. \<not> P x y) \<Longrightarrow> nx a = Some b"
  by auto

lemma crun_Ret: "crun stub k (C_Ret r) m = (C_Ret r, m)"
  by (cases k) auto

lemma crun_more: "crun stub k c m = (C_Ret r, m') \<Longrightarrow> crun stub (k + j) c m = (C_Ret r, m')"
proof (induction k arbitrary: c m)
  case 0
  then show ?case by (simp add: crun_Ret)
next
  case (Suc k)
  then show ?case by (cases c) (auto split: prod.splits)
qed

text \<open>From a node that is not the stub: it is returned, after the stub is pushed when it is the only one.\<close>

lemma pop_node:
  assumes q: "queue_ok stub A m" and np: "\<And>x y. \<not> pending A x y" and l: "mq_list m = y # zs" "y \<noteq> stub"
    and c: "c = C_Load2 y \<or> c = C_Load"
  shows "\<exists>m'. crun stub 6 c m = (C_Ret (Some y), m') \<and> mq_popped m' = mq_popped m @ [y]"
proof (cases zs)
  case Nil
  then have "mq_next m y = None" "mq_head m = y" "mq_tail m = y"
    using queue_okD(2-4) [OF q] l by auto
  then show ?thesis using c l(2) by (auto simp: eval_nat_numeral take_tail_def Let_def)
next
  case (Cons z ys)
  then have "mq_next m y = Some z" "mq_tail m = y"
    using queue_okD(2) [OF q] links_set_all [OF queue_okD(4) [OF q, unfolded l(1) Cons] np] l by auto
  then show ?thesis using c l(2) by (auto simp: eval_nat_numeral take_tail_def Let_def)
qed

lemma pop_alone_ok:
  assumes inv: "minv stub (T, C_Idle, m)" and np: "\<And>t n p. T t \<noteq> P_Link n p" and rest: "mq_pushed m = mq_popped m @ rest"
  shows "\<exists>m'. crun stub 7 C_Load m = (C_Ret (case rest of [] \<Rightarrow> nullptr | n # ns \<Rightarrow> Some n), m') \<and> mq_popped m' = mq_popped m @ take 1 rest"
proof -
  note q = minvD(1) [OF inv] and k = queue_okD [OF minvD(1) [OF inv]]
  have "agent T C_Idle a \<noteq> P_Link n p" for a n p using np by (cases a) auto
  then have np': "\<not> pending (agent T C_Idle) x y" for x y by (simp add: pending_def)
  have r: "rest = filter (\<lambda>n. n \<noteq> stub) (mq_list m)" using k(5) rest by simp
  obtain y zs where l: "mq_list m = y # zs" using k(6) by (cases "mq_list m") auto
  show ?thesis
  proof (cases "y = stub")
    case False
    from pop_node [OF q np' l False, of C_Load] obtain m' where
      m': "crun stub 6 C_Load m = (C_Ret (Some y), m')" "mq_popped m' = mq_popped m @ [y]" by blast
    from crun_more [OF m'(1), of 1] m'(2) False l r show ?thesis by simp
  next
    case True
    show ?thesis
    proof (cases zs)
      case Nil
      then show ?thesis using True l r k(2,4) by (simp add: eval_nat_numeral Let_def)
    next
      case (Cons z ys)
      then have n: "mq_next m (mq_tail m) = Some z" using True l k(2) links_set_all [OF k(4) [unfolded l Cons] np'] by simp
      have t: "mq_tail m = stub" using l True k(2) by simp
      from drop_hd_ok [OF q minvD(2) [OF inv] n refl] have
        d: "queue_ok stub (agent T C_Idle) (skip_stub z m)" by (simp add: t)
      have "z \<noteq> stub" "stub \<notin> set ys" using k(1) l Cons True by auto
      have "mq_list (skip_stub z m) = z # ys" using l Cons by (simp add: skip_stub_def)
      from pop_node [OF d np' this \<open>z \<noteq> stub\<close>, of "C_Load2 z"] obtain m' where
        "crun stub 6 (C_Load2 z) (skip_stub z m) = (C_Ret (Some z), m')" "mq_popped m' = mq_popped m @ [z]"
        by (auto simp: skip_stub_def)
      moreover have "crun stub 7 C_Load m = crun stub 6 (C_Load2 z) (skip_stub z m)"
        using n t by (simp add: eval_nat_numeral Let_def)
      ultimately show ?thesis using True l Cons r \<open>z \<noteq> stub\<close> by simp
    qed
  qed
qed

section \<open>Schedules\<close>

datatype 'n mcmd = Push bool 'n | Step bool | Pop | Consume

fun mexec1 :: "'n \<Rightarrow> 'n mcmd \<Rightarrow> (bool, 'n) msys \<Rightarrow> (bool, 'n) msys option" where
  "mexec1 stub (Push t n) (T, c, m) =
     (if T t = P_Idle \<and> n \<noteq> stub \<and> n \<notin> set (mq_list m) \<and> node_of (T True) \<noteq> Some n \<and> node_of (T False) \<noteq> Some n
      then Some (T(t := P_Clear n), c, m) else None)"
| "mexec1 stub (Step t) (T, c, m) = (if T t = P_Idle then None else case pstep stub (T t) m of (p, m') \<Rightarrow> Some (T(t := p), c, m'))"
| "mexec1 stub Pop (T, c, m) = (if c = C_Idle then Some (T, C_Load, m) else None)"
| "mexec1 stub Consume (T, c, m) = (if c = C_Idle then None else case cstep stub c m of (c', m') \<Rightarrow> Some (T, c', m'))"

fun mexec :: "'n \<Rightarrow> 'n mcmd list \<Rightarrow> (bool, 'n) msys \<Rightarrow> (bool, 'n) msys option" where
  "mexec stub [] s = Some s"
| "mexec stub (x # xs) s = (case mexec1 stub x s of None \<Rightarrow> None | Some s' \<Rightarrow> mexec stub xs s')"

lemma mexec1_step:
  assumes "mexec1 stub x s = Some s'"
  shows "mstep stub s s'"
proof -
  obtain T c m where s: "s = (T, c, m)" by (cases s) auto
  show ?thesis
  proof (cases x)
    case (Push t n)
    then show ?thesis using assms mstep.push [of T t n stub m c] by (auto simp: s all_bool_eq split: if_splits) (metis (full_types))
  next
    case (Step t)
    then show ?thesis using assms mstep.produce [of T t stub m _ _ c] by (auto simp: s split: if_splits prod.splits)
  next
    case Pop
    then show ?thesis using assms mstep.pop by (auto simp: s split: if_splits)
  next
    case Consume
    obtain c' m' where "cstep stub c m = (c', m')" by fastforce
    then show ?thesis using Consume assms mstep.consume [of c stub m c' m' T] by (auto simp: s split: if_splits)
  qed
qed

definition mcheck :: "'n \<Rightarrow> 'n mcmd list \<Rightarrow> ((bool, 'n) msys \<Rightarrow> bool) \<Rightarrow> bool" where
  "mcheck stub xs P \<longleftrightarrow> (case mexec stub xs (\<lambda>_. P_Idle, C_Idle, mpsc_new stub (\<lambda>_. nullptr)) of None \<Rightarrow> False | Some s \<Rightarrow> P s)"

lemma mexec_reachable: "mexec stub xs s = Some s' \<Longrightarrow> mreachable stub s \<Longrightarrow> mreachable stub s'"
proof (induction xs arbitrary: s)
  case (Cons x xs)
  then obtain s1 where "mexec1 stub x s = Some s1" "mexec stub xs s1 = Some s'" by (auto split: option.splits)
  with Cons show ?case by (blast intro: mreachable.step mexec1_step)
qed simp

lemma mcheckD: "mcheck stub xs P \<Longrightarrow> \<exists>T c m. mreachable stub (T, c, m) \<and> P (T, c, m)"
  by (auto simp: mcheck_def split: option.splits dest!: mexec_reachable intro: mreachable.init)

text \<open>
  Two complete pushes, the second between the consumer's load of the link of the first node and its load of \<open>__head_\<close>: the pop
  answers null although both nodes are in the queue, no push is under way, and neither push of the two saw \<open>__stub_\<close> last.
\<close>

definition demo_between :: "nat mcmd list" where
  "demo_between = Push True 1 # replicate 4 (Step True) @ [Pop, Consume, Consume] @ Push True 2 # replicate 4 (Step True) @ [Consume]"

lemma mpsc_null_nonempty:
  "\<exists>T m. mreachable (0 :: nat) (T :: bool \<Rightarrow> nat ppc, C_Ret nullptr, m) \<and> (\<forall>t. T t = P_Idle) \<and> mq_pushed m = [1, 2] \<and> mq_popped m = []"
proof -
  have "mcheck 0 demo_between (\<lambda>(T, c, m). c = C_Ret nullptr \<and> T True = P_Idle \<and> T False = P_Idle \<and> mq_pushed m = [1, 2] \<and> mq_popped m = [])"
    by code_simp
  from mcheckD [OF this] show ?thesis by (auto simp: all_bool_eq)
qed

section \<open>Properties\<close>



text \<open>
  a pop that finds no push between its exchange and its link, and that is not disturbed, needs at most 7 accesses: it returns
  the oldest node that was pushed and not returned, pushing the stub behind it when it is the only one, or null exactly when
  there is none.
\<close>

theorem mpsc_pop_alone:
  assumes "mreachable stub (T, C_Idle, m)" "\<And>t n p. T t \<noteq> P_Link n p" "mq_pushed m = mq_popped m @ rest"
  shows "\<exists>m'. crun stub 7 C_Load m = (C_Ret (case rest of [] \<Rightarrow> nullptr | n # ns \<Rightarrow> Some n), m')
    \<and> mq_popped m' = mq_popped m @ take 1 rest"
  by (rule pop_alone_ok [OF minv_reachable [OF assms(1)] assms(2,3)])

theorem mpsc_pop_alone_witness:
  "\<exists>T m m'. mreachable (0 :: nat) (T :: bool \<Rightarrow> nat ppc, C_Idle, m) \<and> crun 0 7 C_Load m = (C_Ret (Some 1), m') \<and> mq_popped m' = [1]"
proof -
  obtain T m where r: "mreachable (0 :: nat) (T :: bool \<Rightarrow> nat ppc, C_Ret nullptr, m)" "\<forall>t. T t = P_Idle" "mq_pushed m = [1, 2]"
    "mq_popped m = []" using mpsc_null_nonempty by blast
  have r': "mreachable 0 (T, C_Idle, m)" by (rule mreachable.step [OF r(1)]) (auto intro: mstep.consume)
  from mpsc_pop_alone [OF r', of "[1, 2]"] r r' show ?thesis by auto
qed

end
