(* ===== verification/Circular_Buffer.thy ===== *)
theory Circular_Buffer
  imports Ring_Index
begin

text \<open>
  \<open>__circular_buffer.hpp\<close>: an array of \<open>_Np\<close> elements (a power of two) with two free-running 32-bit indices.
  \<open>_M_push_back\<close> returns a reference to a slot, which the caller assigns (\<open>cb_put\<close>); consuming returns a prefix of the
  buffer, from which the caller takes elements one by one.
\<close>

section \<open>State and operations\<close>

record 'a cbuf =
  cb_storage :: "u32 \<Rightarrow> 'a"
  cb_head :: u32
  cb_tail :: u32

definition cbuf_new :: "'a \<Rightarrow> 'a cbuf" where
  "cbuf_new d = \<lparr>cb_storage = (\<lambda>_. d), cb_head = 0, cb_tail = 0\<rparr>"

definition cb_data :: "u32 \<Rightarrow> u32 \<Rightarrow> u32" where
  "cb_data np n = n AND (np - 1)"

definition cb_push_back :: "u32 \<Rightarrow> 'a cbuf \<Rightarrow> u32 \<times> 'a cbuf" where
  "cb_push_back np b = (cb_data np (cb_tail b), b\<lparr>cb_tail := cb_tail b + 1\<rparr>)"

definition cb_put :: "u32 \<Rightarrow> 'a \<Rightarrow> 'a cbuf \<Rightarrow> 'a cbuf" where
  "cb_put np v b = (case cb_push_back np b of (i, b') \<Rightarrow> b'\<lparr>cb_storage := (cb_storage b')(i := v)\<rparr>)"

record prefix_range =
  pr_end :: u32

definition pr_pop_front :: "'a cbuf \<Rightarrow> 'a cbuf" where
  "pr_pop_front b = b\<lparr>cb_head := cb_head b + 1\<rparr>"

definition pr_front :: "u32 \<Rightarrow> 'a cbuf \<Rightarrow> 'a" where
  "pr_front np b = cb_storage b (cb_data np (cb_head b))"

definition pr_empty :: "prefix_range \<Rightarrow> 'a cbuf \<Rightarrow> bool" where
  "pr_empty r b \<longleftrightarrow> cb_head b = pr_end r"

lemma unat_dist_Suc:
  assumes "t \<noteq> (h :: u32)"
  shows "unat (t - h) = Suc (unat (t - (h + 1)))"
proof -
  have nz: "t - h \<noteq> 0" using assms by simp
  have "unat (t - h - 1) = unat (t - h) - 1" by (rule unat_minus_one [OF nz])
  moreover have "unat (t - h) \<noteq> 0" using nz by (simp only: unat_eq_zero not_False_eq_True)
  ultimately have "unat (t - h) = Suc (unat (t - h - 1))" by linarith
  then show ?thesis by (simp only: diff_diff_add)
qed

function consume_loop :: "u32 \<Rightarrow> ('a \<Rightarrow> bool) \<Rightarrow> u32 \<Rightarrow> 'a cbuf \<Rightarrow> u32" where
  "consume_loop np fn h b = (if h \<noteq> cb_tail b \<and> fn (cb_storage b (cb_data np h)) then consume_loop np fn (h + 1) b else h)"
  by pat_completeness auto
termination
  by (relation "measure (\<lambda>(np, fn, h, b). unat (cb_tail b - h))") (auto dest: unat_dist_Suc [OF not_sym])

declare consume_loop.simps [simp del]

definition consume_front_while :: "u32 \<Rightarrow> ('a \<Rightarrow> bool) \<Rightarrow> 'a cbuf \<Rightarrow> prefix_range" where
  "consume_front_while np fn b = \<lparr>pr_end = consume_loop np fn (cb_head b) b\<rparr>"

definition consume_swap :: "'a cbuf \<Rightarrow> prefix_range ub" where
  "consume_swap b = do { assert_c (cb_head b \<noteq> cb_tail b); Some \<lparr>pr_end = cb_tail b\<rparr> }"

section \<open>The buffer as a list\<close>

definition cb_from :: "u32 \<Rightarrow> 'a cbuf \<Rightarrow> u32 \<Rightarrow> 'a list" where
  "cb_from np b h = map (\<lambda>i. cb_storage b (cb_data np (h + of_nat i))) [0..<unat (cb_tail b - h)]"

definition cb_list :: "u32 \<Rightarrow> 'a cbuf \<Rightarrow> 'a list" where
  "cb_list np b = cb_from np b (cb_head b)"

definition cb_ok :: "nat \<Rightarrow> 'a cbuf \<Rightarrow> bool" where
  "cb_ok k b \<longleftrightarrow> k < 32 \<and> unat (cb_tail b - cb_head b) \<le> 2 ^ k"

lemma cb_from_step:
  "cb_from np b h = (if h = cb_tail b then [] else cb_storage b (cb_data np h) # cb_from np b (h + 1))"
proof (cases "h = cb_tail b")
  case False
  then have "[0..<unat (cb_tail b - h)] = 0 # map Suc [0..<unat (cb_tail b - (h + 1))]"
    using unat_dist_Suc [of "cb_tail b" h] by (simp add: map_Suc_upt upt_conv_Cons)
  then show ?thesis using False by (simp add: cb_from_def comp_def ac_simps)
qed (simp add: cb_from_def)

lemma consume_loop_takeWhile:
  "consume_loop np fn h b = h + of_nat (length (takeWhile fn (cb_from np b h)))"
proof (induction np fn h b rule: consume_loop.induct)
  case (1 np fn h b)
  show ?case
  proof (cases "h \<noteq> cb_tail b \<and> fn (cb_storage b (cb_data np h))")
    case True
    with 1 show ?thesis by (subst consume_loop.simps, subst cb_from_step) (simp add: ac_simps)
  next
    case False
    then show ?thesis by (subst consume_loop.simps, subst cb_from_step) auto
  qed
qed

lemma length_cb_list [simp]: "length (cb_list np b) = unat (cb_tail b - cb_head b)"
  by (simp add: cb_list_def cb_from_def)

lemma cb_list_nth: "i < unat (cb_tail b - cb_head b) \<Longrightarrow> cb_list np b ! i = cb_storage b (cb_data np (cb_head b + of_nat i))"
  by (simp add: cb_list_def cb_from_def)

lemma cb_put_appends:
  assumes "cb_ok k b" "length (cb_list (2 ^ k) b) < 2 ^ k"
  shows "cb_list (2 ^ k) (cb_put (2 ^ k) v b) = cb_list (2 ^ k) b @ [v] \<and> cb_ok k (cb_put (2 ^ k) v b)"
proof -
  let ?n = "unat (cb_tail b - cb_head b)" and ?b = "cb_put (2 ^ k) v b"
  have k: "k < 32" and n: "?n < 2 ^ k" using assms by (simp_all add: cb_ok_def)
  have p: "(2 :: nat) ^ k < 2 ^ 32" using k by (intro power_strict_increasing) auto
  have f: "cb_head ?b = cb_head b" "cb_tail ?b = cb_tail b + 1" "cb_storage ?b = (cb_storage b)(cb_data (2 ^ k) (cb_tail b) := v)"
    by (simp_all add: cb_put_def cb_push_back_def)
  have t: "cb_tail b = cb_head b + of_nat ?n" by simp
  have "cb_tail b + 1 - cb_head b = (cb_tail b - cb_head b) + 1" by simp
  moreover have "unat ((cb_tail b - cb_head b) + 1) = Suc ?n" using n p by (simp add: unat_word_ariths)
  ultimately have n': "unat (cb_tail b + 1 - cb_head b) = Suc ?n" by (simp only:)
  have other: "cb_data (2 ^ k) (cb_head b + of_nat i) \<noteq> cb_data (2 ^ k) (cb_tail b)" if "i < ?n" for i
    using and_mask_inj [of "cb_head b" i k ?n] that n k t unfolding cb_data_def by (metis less_irrefl less_trans)
  have "cb_list (2 ^ k) ?b = cb_list (2 ^ k) b @ [v]"
    using other by (simp add: cb_list_def cb_from_def f n')
  with n n' k f show ?thesis by (simp add: cb_ok_def)
qed

lemma pr_pop_front_simps [simp]:
  "cb_head (pr_pop_front b) = cb_head b + 1" "cb_tail (pr_pop_front b) = cb_tail b" "cb_storage (pr_pop_front b) = cb_storage b"
  by (simp_all add: pr_pop_front_def)

lemma pop_front_pow:
  assumes "i \<le> length (cb_list np b)"
  shows "cb_list np ((pr_pop_front ^^ i) b) = drop i (cb_list np b) \<and> cb_head ((pr_pop_front ^^ i) b) = cb_head b + of_nat i
    \<and> cb_tail ((pr_pop_front ^^ i) b) = cb_tail b \<and> cb_storage ((pr_pop_front ^^ i) b) = cb_storage b"
  using assms
proof (induction i)
  case (Suc i)
  let ?b = "(pr_pop_front ^^ i) b"
  from Suc have r: "cb_list np ?b = drop i (cb_list np b)" "cb_head ?b = cb_head b + of_nat i" "cb_tail ?b = cb_tail b" "cb_storage ?b = cb_storage b"
    by simp_all
  have "cb_list np ?b \<noteq> []" using r(1) Suc.prems by simp
  then have "cb_list np (pr_pop_front ?b) = tl (cb_list np ?b)"
    unfolding cb_list_def using cb_from_step [of np ?b "cb_head ?b"] by (auto simp: cb_from_def split: if_splits)
  then have "cb_list np (pr_pop_front ?b) = drop (Suc i) (cb_list np b)" using r(1) by (simp add: drop_Suc tl_drop)
  then show ?case using r by (simp add: ac_simps)
qed simp

section \<open>Properties\<close>

definition drains :: "nat \<Rightarrow> ('a \<Rightarrow> bool) \<Rightarrow> 'a cbuf \<Rightarrow> nat \<Rightarrow> bool" where
  "drains k fn b i \<longleftrightarrow> (let xs = cb_list (2 ^ k) b; p = takeWhile fn xs; r = consume_front_while (2 ^ k) fn b; b' = (pr_pop_front ^^ i) b in
     cb_list (2 ^ k) b' = drop i xs \<and> (pr_empty r b' \<longleftrightarrow> i = length p) \<and> (i < length p \<longrightarrow> pr_front (2 ^ k) b' = p ! i))"

text \<open>
  C38: across the wrap-around of its indices, a circular buffer with room is a queue: \<open>_M_push_back\<close> appends the element assigned
  through the reference it returns, and \<open>_M_consume_front_while\<close> delivers, through \<open>_M_front\<close>, \<open>_M_pop_front\<close> and
  \<open>_M_empty\<close>, exactly the longest prefix whose elements satisfy the predicate, in order, and leaves the rest.
\<close>

theorem circular_buffer_refines:
  assumes "cb_ok k b"
  shows "(length (cb_list (2 ^ k) b) < 2 ^ k \<longrightarrow>
      cb_list (2 ^ k) (cb_put (2 ^ k) v b) = cb_list (2 ^ k) b @ [v] \<and> cb_ok k (cb_put (2 ^ k) v b))
    \<and> (\<forall>i \<le> length (takeWhile fn (cb_list (2 ^ k) b)). drains k fn b i)"
proof -
  let ?xs = "cb_list (2 ^ k) b" and ?p = "takeWhile fn (cb_list (2 ^ k) b)"
  have "drains k fn b i" if i: "i \<le> length ?p" for i
  proof -
    have le: "length ?p \<le> length ?xs" by (rule length_takeWhile_le)
    note r = pop_front_pow [OF order_trans [OF i le]]
    have e: "pr_end (consume_front_while (2 ^ k) fn b) = cb_head b + of_nat (length ?p)"
      by (simp add: consume_front_while_def consume_loop_takeWhile cb_list_def)
    have b: "length ?p < 2 ^ 32" using le unat_u32_bound [of "cb_tail b - cb_head b"] by simp
    have "(of_nat i :: u32) = of_nat (length ?p) \<longleftrightarrow> i = length ?p"
    proof
      assume e: "(of_nat i :: u32) = of_nat (length ?p)"
      have "unat (of_nat i :: u32) = i" using i b by (simp only: unat_of_nat) simp
      moreover have "unat (of_nat (length ?p) :: u32) = length ?p" using b by (simp only: unat_of_nat) simp
      ultimately show "i = length ?p" using e by metis
    qed simp
    moreover have "pr_front (2 ^ k) ((pr_pop_front ^^ i) b) = ?p ! i" if "i < length ?p"
      using that le r cb_list_nth [of i b "2 ^ k"] by (simp add: pr_front_def takeWhile_nth)
    ultimately show ?thesis using r e by (simp add: drains_def Let_def pr_empty_def)
  qed
  with cb_put_appends [OF assms] show ?thesis by blast
qed

definition demo_cbuf :: "nat cbuf" where
  "demo_cbuf = \<lparr>cb_storage = (\<lambda>i. if i = 2 then 5 else if i = 3 then 7 else 20), cb_head = - 2, cb_tail = 1\<rparr>"

theorem circular_buffer_refines_witness:
  "cb_list 4 (cb_put 4 9 demo_cbuf) = [5, 7, 20, 9] \<and> pr_empty (consume_front_while 4 (\<lambda>x. x < 10) demo_cbuf) ((pr_pop_front ^^ 2) demo_cbuf)"
proof -
  have ok: "cb_ok 2 demo_cbuf" by (simp add: cb_ok_def demo_cbuf_def)
  have l: "cb_list 4 demo_cbuf = [5, 7, 20]" by code_simp
  have f: "(2 :: u32) ^ 2 = 4" by simp
  note c = circular_buffer_refines [OF ok, of 9 "\<lambda>x. x < 10", unfolded f l]
  have "drains 2 (\<lambda>x. x < 10) demo_cbuf 2" using c by simp
  then show ?thesis using c by (simp add: drains_def Let_def l)
qed

text \<open>Nothing checks for room: pushing onto a full buffer overwrites its first element.\<close>

lemma cb_put_full:
  assumes "cb_ok k b" "length (cb_list (2 ^ k) b) = 2 ^ k"
  shows "pr_front (2 ^ k) (cb_put (2 ^ k) v b) = v"
proof -
  have "cb_tail b - cb_head b = 2 ^ k" using arg_cong [OF assms(2), of "of_nat :: nat \<Rightarrow> u32"] by simp
  then have "cb_tail b = cb_head b + 2 ^ k" by (simp add: algebra_simps)
  have k: "k < 32" using assms(1) by (simp add: cb_ok_def)
  then have d: "(2 :: nat) ^ k dvd 2 ^ 32" by (intro le_imp_power_dvd) simp
  have "unat (cb_head b + 2 ^ k) = (unat (cb_head b) + 2 ^ k) mod 2 ^ 32" using k by (simp only: unat_word_ariths) simp
  then have "take_bit k (unat (cb_head b + 2 ^ k)) = take_bit k (unat (cb_head b))"
    by (simp only: take_bit_eq_mod mod_mod_cancel [OF d]) simp
  then have "take_bit k (cb_head b + 2 ^ k) = take_bit k (cb_head b)" by (metis unsigned_take_bit_eq unsigned_word_eqI)
  with \<open>cb_tail b = cb_head b + 2 ^ k\<close> have "cb_data (2 ^ k) (cb_tail b) = cb_data (2 ^ k) (cb_head b)"
    by (simp add: cb_data_def and_pow2)
  then show ?thesis by (simp add: pr_front_def cb_put_def cb_push_back_def)
qed

end
