(* ===== verification/Block_Pool.thy ===== *)
theory Block_Pool
  imports Ring_Setup Intrusive_Queue Round_Up
begin

text \<open>
  \<open>__protocal/__memory_resource.hpp\<close>: blocks of equally sized buffers. A block is one mapping; each buffer is followed by a
  64-byte descriptor, and the descriptors of free buffers form an intrusive queue. What \<open>mmap\<close> returns is a parameter.
\<close>

section \<open>Descriptors and size classes\<close>

record dmem =
  dm_bid :: "u64 \<Rightarrow> u32"
  dm_sc :: "u64 \<Rightarrow> u32"
  dm_refcount :: "u64 \<Rightarrow> s32"
  dm_prev :: "u64 \<Rightarrow> u64 ptr"
  dm_next :: "u64 nexts"

definition refcnt_increment :: "u64 \<Rightarrow> dmem \<Rightarrow> dmem" where
  "refcnt_increment d s = s\<lparr>dm_refcount := (dm_refcount s)(d := dm_refcount s d + 1)\<rparr>"

definition refcnt_decrement :: "u64 \<Rightarrow> dmem \<Rightarrow> s32 \<times> dmem" where
  "refcnt_decrement d s = (dm_refcount s d - 1, s\<lparr>dm_refcount := (dm_refcount s)(d := dm_refcount s d - 1)\<rparr>)"

record sc_meta =
  sm_len :: "22 word"
  sm_cnt :: "7 word"
  sm_threshold :: "6 word"
  sm_batch :: "5 word"

definition descriptor_size :: u32 where
  "descriptor_size = 64"

definition block_n_byte :: "sc_meta \<Rightarrow> u32" where
  "block_n_byte m = (let k = ucast (sm_len m) + descriptor_size in ucast (round_up (ucast (k * ucast (sm_cnt m) :: u32)) 4096))"

definition block_sc_meta :: "sc_meta list" where
  "block_sc_meta = map (\<lambda>(l, c, t, b). \<lparr>sm_len = l, sm_cnt = c, sm_threshold = t, sm_batch = b\<rparr>)
     [(4096, 64, 32, 16), (8192, 32, 16, 8), (16384, 16, 8, 4), (32768, 16, 8, 4), (65536, 8, 4, 2),
      (131072, 8, 4, 2), (262144, 4, 2, 1), (524288, 4, 2, 1), (1048576, 2, 2, 1), (2097152, 1, 1, 1)]"

text \<open>\<open>__builtin_clz (0)\<close> is undefined.\<close>

definition choose_blksc :: "u32 \<Rightarrow> u32 ub" where
  "choose_blksc size' = (if size' = 0 then None else Some (19 - of_nat (clz 32 (unat size'))))"

section \<open>A block\<close>

record block =
  bk_sc :: u32
  bk_mmr :: region
  bk_free :: "u64 iqueue"

definition block_flags :: "sc_meta \<Rightarrow> u32" where
  "block_flags m = (let flags = 2 OR 32 in if sm_cnt m = 1 then flags OR 262144 else flags)"

text \<open>A mapping that fails throws inside a \<open>noexcept\<close> function, which ends the program: \<open>None\<close>.\<close>

definition block_map :: "(u32 \<Rightarrow> u32 \<Rightarrow> u64) \<Rightarrow> sc_meta \<Rightarrow> region ub" where
  "block_map mm m = (let n = block_n_byte m; p = mm n (block_flags m) in
     (case throw_error_code_if (p = - 1) 0 of Inl e \<Rightarrow> None | Inr _ \<Rightarrow> Some (region_new p (ucast n))))"

definition desc_addr :: "u64 \<Rightarrow> sc_meta \<Rightarrow> u32 \<Rightarrow> u64" where
  "desc_addr base m n = base + ucast (n * (64 + ucast (sm_len m)) + ucast (sm_len m))"

definition desc_new :: "u64 \<Rightarrow> u32 \<Rightarrow> u32 \<Rightarrow> dmem \<Rightarrow> dmem" where
  "desc_new d bid sc s = s\<lparr>dm_bid := (dm_bid s)(d := bid), dm_sc := (dm_sc s)(d := sc), dm_refcount := (dm_refcount s)(d := 1),
     dm_prev := (dm_prev s)(d := nullptr), dm_next := (dm_next s)(d := nullptr)\<rparr>"

function block_loop :: "u32 \<Rightarrow> u32 \<Rightarrow> u64 \<Rightarrow> sc_meta \<Rightarrow> u32 \<Rightarrow> u64 iqueue \<Rightarrow> dmem \<Rightarrow> (u64 iqueue \<times> dmem) ub" where
  "block_loop r bid base m n q s =
     (if n < ucast (sm_cnt m) then
        let d = desc_addr base m n; s1 = desc_new d (bid + n) r s in
        (case iq_push_back (dm_next s1) (Some d) q of
           None \<Rightarrow> None
         | Some (nx, q1) \<Rightarrow> block_loop r bid base m (n + 1) q1 (s1\<lparr>dm_next := nx\<rparr>))
      else Some (q, s))"
  by pat_completeness auto
termination
proof (relation "measure (\<lambda>(r, bid, base, m, n, q, s). unat (ucast (sm_cnt m) :: u32) - unat n)", goal_cases)
  case (2 r bid base m n q s)
  then show ?case by (auto simp: unat_incr word_less_nat_alt)
qed simp

declare block_loop.simps [simp del]

definition block_new :: "(u32 \<Rightarrow> u32 \<Rightarrow> u64) \<Rightarrow> u32 \<Rightarrow> sc_meta \<Rightarrow> u32 \<Rightarrow> dmem \<Rightarrow> (block \<times> dmem) ub" where
  "block_new mm r m bid s = do {
     reg \<leftarrow> block_map mm m;
     (q, s1) \<leftarrow> block_loop r bid (mm_data reg) m 0 iq_new s;
     Some (\<lparr>bk_sc = r, bk_mmr = reg, bk_free = q\<rparr>, s1)
   }"

section \<open>Size classes\<close>

lemma block_classes:
  "list_all (\<lambda>m. 0 < unat (sm_cnt m) \<and> unat (sm_cnt m) * (unat (sm_len m) + 64) \<le> unat (block_n_byte m)
     \<and> unat (block_n_byte m) mod 4096 = 0 \<and> unat (sm_batch m) \<le> unat (sm_threshold m) \<and> unat (sm_threshold m) \<le> unat (sm_cnt m)) block_sc_meta"
  by (simp add: block_sc_meta_def block_n_byte_def round_up_def descriptor_size_def)

lemma length_block_sc_meta: "length block_sc_meta = 10"
  by (simp add: block_sc_meta_def)

lemma block_len: "i < 10 \<Longrightarrow> unat (sm_len (block_sc_meta ! i)) = 2 ^ (i + 12)"
proof -
  have l: "map (\<lambda>m. unat (sm_len m)) block_sc_meta = map (\<lambda>i. 2 ^ (i + 12)) [0..<10]"
    by (simp add: block_sc_meta_def upt_rec)
  assume "i < 10"
  then show ?thesis using arg_cong [OF l, of "\<lambda>xs. xs ! i"] by (simp add: length_block_sc_meta)
qed

lemma bit_width_bounds:
  assumes "2 ^ a \<le> n" "n < 2 ^ b"
  shows "a < bit_width n \<and> bit_width n \<le> b"
proof -
  have "0 < n" using assms(1) by (metis gr0I not_less zero_less_numeral zero_less_power)
  then have "2 ^ a < (2 :: nat) ^ bit_width n" "2 ^ (bit_width n - 1) < (2 :: nat) ^ b"
    using bit_width_upper [of n] bit_width_lower [of n] assms by linarith+
  then show ?thesis by simp
qed

lemma choose_ok:
  assumes "4096 \<le> sz" "sz < 4194304"
  shows "\<exists>i. choose_blksc sz = Some (of_nat i) \<and> i < 10 \<and> unat (sm_len (block_sc_meta ! i)) \<le> unat sz
    \<and> unat sz < 2 * unat (sm_len (block_sc_meta ! i))"
proof -
  let ?w = "bit_width (unat sz)"
  have b: "2 ^ 12 \<le> unat sz" "unat sz < 2 ^ 22" using assms by (simp_all add: word_le_nat_alt word_less_nat_alt)
  from bit_width_bounds [OF b] have w: "12 < ?w" "?w \<le> 22" by simp_all
  have "(19 :: u32) - of_nat (32 - ?w) = of_nat (?w - 13)" using w by (simp add: of_nat_diff)
  moreover have "sz \<noteq> 0" using b(1) by auto
  ultimately have "choose_blksc sz = Some (of_nat (?w - 13))" by (simp add: choose_blksc_def clz_def)
  moreover have "unat (sm_len (block_sc_meta ! (?w - 13))) = 2 ^ (?w - 1)" using w block_len [of "?w - 13"] by simp
  moreover have "2 ^ (?w - 1) \<le> unat sz" using bit_width_lower [of "unat sz"] b(1) by simp
  moreover have "unat sz < 2 * 2 ^ (?w - 1)" using bit_width_upper [of "unat sz"] w(1) by (metis Suc_pred' less_imp_Suc_add power_Suc zero_less_Suc)
  ultimately show ?thesis using w by (intro exI [of _ "?w - 13"]) simp
qed

section \<open>Construction of a block\<close>

lemma unat_up:
  assumes "LENGTH('a::len) \<le> LENGTH('b::len)"
  shows "unat (ucast (x :: 'a word) :: 'b word) = unat x"
proof -
  have "unat x < 2 ^ LENGTH('a)" by (rule unsigned_less)
  also have "\<dots> \<le> (2 :: nat) ^ LENGTH('b)" using assms by (intro power_increasing) auto
  finally show ?thesis by (simp add: unsigned_ucast_eq take_bit_nat_eq_self_iff)
qed

definition fits :: "sc_meta \<Rightarrow> bool" where
  "fits m \<longleftrightarrow> unat (sm_cnt m) * (unat (sm_len m) + 64) < 2 ^ 32"

lemma class_fits: "m \<in> set block_sc_meta \<Longrightarrow> fits m"
  using block_classes unat_u32_bound [of "block_n_byte m"] unfolding list_all_iff fits_def by fastforce

lemma slot_bound:
  assumes "fits m" "i < unat (sm_cnt m)"
  shows "i * (64 + unat (sm_len m)) + unat (sm_len m) + 64 \<le> unat (sm_cnt m) * (unat (sm_len m) + 64)"
proof -
  have "Suc i * (64 + unat (sm_len m)) \<le> unat (sm_cnt m) * (64 + unat (sm_len m))" using assms(2) by (intro mult_le_mono1) simp
  then show ?thesis by (simp add: algebra_simps)
qed

lemma desc_addr_unat:
  assumes fit: "fits m" and n: "unat n < unat (sm_cnt m)" and b: "unat base + unat (sm_cnt m) * (unat (sm_len m) + 64) < 2 ^ 64"
  shows "unat (desc_addr base m n) = unat base + unat n * (64 + unat (sm_len m)) + unat (sm_len m)"
proof -
  let ?L = "unat (sm_len m)"
  have l: "unat (ucast (sm_len m) :: u32) = ?L" by (rule unat_up) simp
  have le: "unat n * (64 + ?L) + ?L + 64 \<le> unat (sm_cnt m) * (?L + 64)" by (rule slot_bound [OF fit n])
  then have lt: "unat n * (64 + ?L) + ?L < 2 ^ 32" using fit by (simp add: fits_def)
  have k: "unat (64 + ucast (sm_len m) :: u32) = 64 + ?L"
  proof -
    have "?L < 2 ^ 22" using unsigned_less [of "sm_len m"] by simp
    then show ?thesis using l by (subst unat_add_lem [THEN iffD1]) simp_all
  qed
  have nk: "unat (n * (64 + ucast (sm_len m))) = unat n * (64 + ?L)"
    using lt k by (subst unat_mult_lem [THEN iffD1]) simp_all
  have x: "unat (n * (64 + ucast (sm_len m)) + ucast (sm_len m)) = unat n * (64 + ?L) + ?L"
    using lt nk l by (subst unat_add_lem [THEN iffD1]) simp_all
  have u: "unat (ucast (n * (64 + ucast (sm_len m)) + ucast (sm_len m)) :: u64) = unat n * (64 + ?L) + ?L"
    unfolding x [symmetric] by (rule unat_up) simp
  have "unat base + (unat n * (64 + ?L) + ?L) < 2 ^ 64" using le b by linarith
  then show ?thesis unfolding desc_addr_def using u by (subst unat_add_lem [THEN iffD1]) simp_all
qed

lemma iq_repr_frame:
  assumes "iq_repr nx q xs" "\<And>a. a \<in> set xs \<Longrightarrow> nx a = nx' a"
  shows "iq_repr nx' q xs"
  using assms lseg_cong [of xs nx nx' "iq_head q" nullptr] by (simp add: iq_repr_def)

text \<open>What the loop leaves of the descriptor of buffer \<open>i\<close>.\<close>

definition desc_ok :: "u32 \<Rightarrow> u32 \<Rightarrow> u64 \<Rightarrow> sc_meta \<Rightarrow> dmem \<Rightarrow> nat \<Rightarrow> bool" where
  "desc_ok r bid base m s i \<longleftrightarrow> (let d = desc_addr base m (of_nat i) in
     dm_bid s d = bid + of_nat i \<and> dm_sc s d = r \<and> dm_refcount s d = 1 \<and> dm_prev s d = nullptr)"

definition desc_list :: "u64 \<Rightarrow> sc_meta \<Rightarrow> nat \<Rightarrow> u64 list" where
  "desc_list base m k = map (\<lambda>i. desc_addr base m (of_nat i)) [0..<k]"

definition room :: "u64 \<Rightarrow> sc_meta \<Rightarrow> bool" where
  "room base m \<longleftrightarrow> fits m \<and> unat base + unat (sm_cnt m) * (unat (sm_len m) + 64) < 2 ^ 64"

lemma desc_addr_inj:
  assumes "room base m" "i < unat (sm_cnt m)" "j < unat (sm_cnt m)" "desc_addr base m (of_nat i) = desc_addr base m (of_nat j)"
  shows "i = j"
proof -
  have c: "unat (sm_cnt m) < 2 ^ 7" using unsigned_less [of "sm_cnt m"] by simp
  have u: "unat (of_nat k :: u32) = k" if "k < unat (sm_cnt m)" for k
    using that c by (simp only: unat_of_nat) simp
  have "unat (desc_addr base m (of_nat k)) = unat base + k * (64 + unat (sm_len m)) + unat (sm_len m)" if "k < unat (sm_cnt m)" for k
    using desc_addr_unat [of m "of_nat k" base] assms(1) u [OF that] that by (simp add: room_def)
  then have "i * (64 + unat (sm_len m)) = j * (64 + unat (sm_len m))" using assms(2-4) by (metis add_right_cancel add_left_cancel)
  then show ?thesis by simp
qed

lemma block_loop_ok:
  assumes c: "C = unat (sm_cnt m)" and rm: "room base m"
  shows "unat n + k = C \<Longrightarrow> iq_repr (dm_next s) q (desc_list base m (unat n)) \<Longrightarrow> \<forall>i < unat n. desc_ok r bid base m s i
    \<Longrightarrow> \<exists>q' s'. block_loop r bid base m n q s = Some (q', s') \<and> iq_repr (dm_next s') q' (desc_list base m C)
      \<and> (\<forall>i < C. desc_ok r bid base m s' i)"
proof (induction k arbitrary: n q s)
  case 0
  have "unat (ucast (sm_cnt m) :: u32) = C" unfolding c by (rule unat_up) simp
  then have "\<not> n < ucast (sm_cnt m)" using 0(1) by (simp add: word_less_nat_alt)
  then show ?case using 0 by (subst block_loop.simps) simp
next
  case (Suc k)
  have u: "unat (ucast (sm_cnt m) :: u32) = C" unfolding c by (rule unat_up) simp
  then have lt: "n < ucast (sm_cnt m)" using Suc.prems(1) by (simp add: word_less_nat_alt)
  then have n1: "unat (n + 1) = Suc (unat n)" by (rule unat_incr)
  let ?d = "desc_addr base m n" and ?xs = "desc_list base m (unat n)"
  let ?s1 = "desc_new ?d (bid + n) r s"
  have nn: "n = of_nat (unat n)" by simp
  have d: "i < C \<Longrightarrow> desc_addr base m (of_nat i) = ?d \<longleftrightarrow> i = unat n" for i
  proof
    assume i: "i < C" and eq: "desc_addr base m (of_nat i) = ?d"
    have "desc_addr base m (of_nat (unat n)) = ?d" by simp
    with eq show "i = unat n" using i Suc.prems(1) by (intro desc_addr_inj [OF rm]) (simp_all add: c)
  qed simp
  have new: "?d \<notin> set ?xs"
  proof
    assume "?d \<in> set ?xs"
    then obtain i where "i < unat n" "desc_addr base m (of_nat i) = ?d" by (force simp: desc_list_def)
    with d [of i] Suc.prems(1) show False by simp
  qed
  have "iq_repr (dm_next ?s1) q ?xs" by (rule iq_repr_frame [OF Suc.prems(2)]) (use new in \<open>auto simp: desc_new_def\<close>)
  from iq_push_back_refines [OF this new] obtain nx q1 where
    q1: "iq_push_back (dm_next ?s1) (Some ?d) q = Some (nx, q1)" "iq_repr nx q1 (?xs @ [?d])" by blast
  let ?s2 = "?s1\<lparr>dm_next := nx\<rparr>"
  have l: "?xs @ [?d] = desc_list base m (unat (n + 1))" by (simp add: n1 desc_list_def)
  have ok: "\<forall>i < unat (n + 1). desc_ok r bid base m ?s2 i"
  proof (intro allI impI)
    fix i assume i: "i < unat (n + 1)"
    then have "i < C" using n1 Suc.prems(1) by linarith
    then show "desc_ok r bid base m ?s2 i"
      using i n1 d [of i] Suc.prems(3) by (cases "i = unat n") (auto simp: desc_ok_def desc_new_def Let_def)
  qed
  have "block_loop r bid base m n q s = block_loop r bid base m (n + 1) q1 ?s2"
    using lt q1(1) by (subst block_loop.simps) (simp add: Let_def)
  with Suc.IH [of "n + 1" ?s2 q1] q1(2) l ok n1 Suc.prems(1) show ?case by simp
qed

section \<open>Properties\<close>

text \<open>
  C39: a block of any of the ten size classes, on a mapping that does not wrap the address space, is constructed without undefined
  behaviour: its free queue holds the descriptors of all its buffers, in address order, each with its own id, the class and a
  reference count of 1, and every buffer of \<open>__len_\<close> bytes with its descriptor lies inside the mapping and apart from the others.
\<close>

theorem block_new_carves:
  assumes "m \<in> set block_sc_meta" "mm (block_n_byte m) (block_flags m) = p" "p \<noteq> - 1" "p \<noteq> 0"
    and "unat p + unat (block_n_byte m) < 2 ^ 64"
  shows "\<exists>b s'. block_new mm r m bid s = Some (b, s') \<and> mm_data (bk_mmr b) = p \<and> unat (mm_size (bk_mmr b)) = unat (block_n_byte m)
    \<and> iq_repr (dm_next s') (bk_free b) (desc_list p m (unat (sm_cnt m))) \<and> (\<forall>i < unat (sm_cnt m). desc_ok r bid p m s' i)
    \<and> (\<forall>i < unat (sm_cnt m). let d = unat (desc_addr p m (of_nat i)) in
         d = unat p + i * (unat (sm_len m) + 64) + unat (sm_len m) \<and> d + 64 \<le> unat p + unat (block_n_byte m))"
proof -
  have fit: "fits m" by (rule class_fits [OF assms(1)])
  have le: "unat (sm_cnt m) * (unat (sm_len m) + 64) \<le> unat (block_n_byte m)" using block_classes assms(1) by (simp add: list_all_iff)
  then have rm: "room p m" using fit assms(5) by (simp add: room_def)
  let ?reg = "\<lparr>mm_data = p, mm_size = ucast (block_n_byte m)\<rparr>"
  have map: "block_map mm m = Some ?reg" using assms(2-4) by (simp add: block_map_def throw_error_code_if_def region_new_def Let_def)
  from block_loop_ok [OF refl rm, of 0 "unat (sm_cnt m)" s iq_new r bid] obtain q s' where
    l: "block_loop r bid p m 0 iq_new s = Some (q, s')" "iq_repr (dm_next s') q (desc_list p m (unat (sm_cnt m)))"
      "\<forall>i < unat (sm_cnt m). desc_ok r bid p m s' i" by (auto simp: desc_list_def)
  have c: "unat (sm_cnt m) < 2 ^ 7" using unsigned_less [of "sm_cnt m"] by simp
  have a: "let d = unat (desc_addr p m (of_nat i)) in
      d = unat p + i * (unat (sm_len m) + 64) + unat (sm_len m) \<and> d + 64 \<le> unat p + unat (block_n_byte m)" if i: "i < unat (sm_cnt m)" for i
  proof -
    have u: "unat (of_nat i :: u32) = i" using i c by (simp only: unat_of_nat) simp
    have "unat (desc_addr p m (of_nat i)) = unat p + i * (64 + unat (sm_len m)) + unat (sm_len m)"
      using desc_addr_unat [of m "of_nat i" p] rm u i by (simp add: room_def)
    moreover have "i * (64 + unat (sm_len m)) + unat (sm_len m) + 64 \<le> unat (block_n_byte m)"
      using slot_bound [OF fit i] le by linarith
    ultimately show ?thesis by (simp add: Let_def add.commute)
  qed
  have "unat (ucast (block_n_byte m) :: u64) = unat (block_n_byte m)" by (rule unat_up) simp
  then show ?thesis using l a map by (simp add: block_new_def)
qed

definition demo_dmem :: dmem where
  "demo_dmem = \<lparr>dm_bid = (\<lambda>_. 0), dm_sc = (\<lambda>_. 0), dm_refcount = (\<lambda>_. 0), dm_prev = (\<lambda>_. nullptr), dm_next = (\<lambda>_. nullptr)\<rparr>"

theorem block_new_carves_witness:
  "\<exists>b s'. block_new (\<lambda>n fl. 65536) 8 (block_sc_meta ! 8) 100 demo_dmem = Some (b, s') \<and> mm_data (bk_mmr b) = 65536"
proof -
  let ?m = "block_sc_meta ! 8"
  have m: "?m \<in> set block_sc_meta" by (simp add: length_block_sc_meta)
  have "unat (block_n_byte ?m) < 2 ^ 32" by (rule unat_u32_bound)
  then have "unat (65536 :: u64) + unat (block_n_byte ?m) < 2 ^ 64" by simp
  from block_new_carves [OF m, where mm = "\<lambda>n fl. 65536" and r = 8 and bid = 100 and s = demo_dmem, OF refl _ _ this] show ?thesis by auto
qed

text \<open>
  for every request from 4096 bytes to 4 MB, \<open>__choose_blksc\<close> is defined, is an index of the table, and names the largest class
  whose buffers are not longer than the request: unless the request is exactly a class, its buffers are too short for it.
\<close>

theorem choose_rounds_down:
  assumes "4096 \<le> sz" "sz < 4194304"
  shows "\<exists>i. choose_blksc sz = Some (of_nat i) \<and> i < length block_sc_meta \<and> unat (sm_len (block_sc_meta ! i)) \<le> unat sz
    \<and> unat sz < 2 * unat (sm_len (block_sc_meta ! i))"
  using choose_ok [OF assms] by (simp add: length_block_sc_meta)

theorem choose_rounds_down_witness:
  "\<exists>i. choose_blksc 5000 = Some (of_nat i) \<and> unat (sm_len (block_sc_meta ! i)) \<le> 5000"
  using choose_rounds_down [of 5000] by auto

text \<open>Below 4096 the index wraps; and the size of the huge-page class is not a multiple of the huge page.\<close>

lemma choose_small: "choose_blksc 4095 = Some (- 1)"
  by (simp add: choose_blksc_def clz_def bit_width_unique [of 11 4095])

lemma huge_class_size: "sm_cnt (block_sc_meta ! 9) = 1 \<and> block_n_byte (block_sc_meta ! 9) = 2101248"
  by (simp add: block_sc_meta_def block_n_byte_def round_up_def descriptor_size_def)

end
