(* ===== verification/Stop_Forward.thy ===== *)
theory Stop_Forward
  imports Prelude
begin

text \<open>
  How a stop request travels down a chain of awaiting tasks: the stop token of \<open>__stop_inplace.hpp\<close>, and the callback
  \<open>__fwd_\<close> that \<open>_M_on_await_suspend\<close> of \<open>__task.hpp\<close> constructs on the stop source of the awaiting coroutine and that
  \<open>await_suspend\<close> of the final awaiter destroys. Here an operation of a stop source is one step, as \<open>Stop_Source\<close> shows it
  to behave: a request runs every registered callback once, and a callback registered after it runs at once.

  \<open>sf_fwd p\<close> is the task whose callback is registered on the source of \<open>p\<close>; a coroutine awaits one task at a time.
  \<open>sf_live c\<close> says that \<open>__fwd_\<close> of \<open>c\<close> is constructed.
\<close>

section \<open>Tokens\<close>

text \<open>A token is the address of a source or null. Moving returns the new token and what is left of the old one.\<close>

type_synonym 's token = "'s ptr"

definition token_get :: "'s \<Rightarrow> 's token" where
  "token_get src = Some src"

definition token_move :: "'s token \<Rightarrow> 's token \<times> 's token" where
  "token_move other = (other, nullptr)"

definition token_assign :: "'s token \<Rightarrow> 's token \<Rightarrow> 's token \<times> 's token" where
  "token_assign self other = (other, nullptr)"

definition token_stop_requested :: "('s \<Rightarrow> bool) \<Rightarrow> 's token \<Rightarrow> bool" where
  "token_stop_requested req t \<longleftrightarrow> (case t of None \<Rightarrow> False | Some src \<Rightarrow> req src)"

definition token_stop_possible :: "'s token \<Rightarrow> bool" where
  "token_stop_possible t \<longleftrightarrow> t \<noteq> nullptr"

definition token_swap :: "'s token \<Rightarrow> 's token \<Rightarrow> 's token \<times> 's token" where
  "token_swap self other = (other, self)"

lemma token_moved_from: "token_move t = (t1, t2) \<Longrightarrow> \<not> token_stop_possible t2 \<and> \<not> token_stop_requested req t2
    \<and> token_stop_requested req t1 = token_stop_requested req t"
  by (auto simp: token_move_def token_stop_possible_def token_stop_requested_def)

section \<open>Forwarding\<close>

record 'h sf =
  sf_req :: "'h \<Rightarrow> bool"
  sf_fwd :: "'h \<Rightarrow> 'h ptr"
  sf_cont :: "'h \<Rightarrow> 'h ptr"
  sf_live :: "'h \<Rightarrow> bool"

definition sf_new :: "'h sf" where
  "sf_new = \<lparr>sf_req = (\<lambda>_. False), sf_fwd = (\<lambda>_. nullptr), sf_cont = (\<lambda>_. nullptr), sf_live = (\<lambda>_. False)\<rparr>"

text \<open>\<open>_M_request_stop\<close> of one source, whose callback is \<open>__forward_stop_request\<close> to the source of the awaited task.\<close>

partial_function (option) sf_request :: "'h \<Rightarrow> 'h sf \<Rightarrow> 'h sf option" where
  "sf_request h s =
     (if sf_req s h then Some s
      else (let s1 = s\<lparr>sf_req := (sf_req s)(h := True), sf_fwd := (sf_fwd s)(h := nullptr)\<rparr> in
        case sf_fwd s h of None \<Rightarrow> Some s1 | Some c \<Rightarrow> sf_request c s1))"

definition sf_await :: "'h \<Rightarrow> 'h \<Rightarrow> 'h sf \<Rightarrow> 'h sf option" where
  "sf_await child parent s =
     (let s1 = s\<lparr>sf_cont := (sf_cont s)(child := Some parent), sf_live := (sf_live s)(child := True)\<rparr> in
      if token_stop_requested (sf_req s1) (token_get parent) then sf_request child s1
      else Some (s1\<lparr>sf_fwd := (sf_fwd s1)(parent := Some child)\<rparr>))"

definition sf_final :: "'h \<Rightarrow> 'h sf \<Rightarrow> 'h ptr \<times> 'h sf" where
  "sf_final c s = (sf_cont s c, s\<lparr>sf_live := (sf_live s)(c := False),
     sf_fwd := (\<lambda>p. if sf_cont s c = Some p \<and> sf_fwd s p = Some c then nullptr else sf_fwd s p)\<rparr>)"

text \<open>A task is awaited by one coroutine, which awaits no other; it may be awaited again after its end.\<close>

definition awaits :: "'h sf \<Rightarrow> 'h \<Rightarrow> 'h \<Rightarrow> bool" where
  "awaits s p c \<longleftrightarrow> sf_live s c \<and> sf_cont s c = Some p"

inductive sf_step :: "'h sf \<Rightarrow> 'h sf \<Rightarrow> bool" where
  request: "sf_request h s = Some s' \<Longrightarrow> sf_step s s'"
| await: "\<not> sf_live s child \<Longrightarrow> (\<And>c. \<not> awaits s parent c) \<Longrightarrow> sf_await child parent s = Some s' \<Longrightarrow> sf_step s s'"
| final: "sf_live s c \<Longrightarrow> sf_final c s = (r, s') \<Longrightarrow> sf_step s s'"

inductive sf_reachable :: "'h sf \<Rightarrow> bool" where
  init: "sf_reachable sf_new"
| step: "sf_reachable s \<Longrightarrow> sf_step s s' \<Longrightarrow> sf_reachable s'"

section \<open>Invariant\<close>

text \<open>\<open>x\<close> is the task to which a request is on its way, if there is one.\<close>

definition sf_inv :: "'h ptr \<Rightarrow> 'h sf \<Rightarrow> bool" where
  "sf_inv x s \<longleftrightarrow> (\<forall>p c. awaits s p c \<longrightarrow> (sf_req s p \<longrightarrow> sf_req s c \<or> x = Some c) \<and> (\<not> sf_req s p \<longrightarrow> sf_fwd s p = Some c))
     \<and> (\<forall>p c. sf_fwd s p = Some c \<longrightarrow> awaits s p c \<and> \<not> sf_req s p) \<and> finite {c. sf_live s c}"

lemma sf_invD:
  assumes "sf_inv x s"
  shows "awaits s p c \<Longrightarrow> sf_req s p \<Longrightarrow> sf_req s c \<or> x = Some c" "awaits s p c \<Longrightarrow> \<not> sf_req s p \<Longrightarrow> sf_fwd s p = Some c"
    "sf_fwd s p = Some c \<Longrightarrow> awaits s p c \<and> \<not> sf_req s p" "finite {c. sf_live s c}"
  using assms unfolding sf_inv_def by blast+

abbreviation marked :: "'h \<Rightarrow> 'h sf \<Rightarrow> 'h sf" where
  "marked h s \<equiv> s\<lparr>sf_req := (sf_req s)(h := True), sf_fwd := (sf_fwd s)(h := nullptr)\<rparr>"

lemma awaits_marked [simp]: "awaits (marked h s) p c = awaits s p c"
  by (simp add: awaits_def)

lemma sf_inv_marked:
  assumes "sf_inv (Some h) s" "\<not> sf_req s h"
  shows "sf_inv (sf_fwd s h) (marked h s)"
proof -
  note d = sf_invD [OF assms(1)]
  have "(sf_req (marked h s) p \<longrightarrow> sf_req (marked h s) c \<or> sf_fwd s h = Some c) \<and> (\<not> sf_req (marked h s) p \<longrightarrow> sf_fwd (marked h s) p = Some c)"
    if "awaits s p c" for p c
    using d(1,2) [OF that] assms(2) by (cases "p = h") auto
  moreover have "awaits s p c \<and> \<not> sf_req (marked h s) p" if "sf_fwd (marked h s) p = Some c" for p c
    using d(3) [of p c] that by (cases "p = h") auto
  moreover have "finite {c. sf_live (marked h s) c}" using d(4) by simp
  ultimately show ?thesis unfolding sf_inv_def awaits_marked by blast
qed

lemma sf_inv_hit: "sf_inv (Some h) s \<Longrightarrow> sf_req s h \<Longrightarrow> sf_inv None s"
  unfolding sf_inv_def by blast

lemma sf_inv_some: "sf_inv None s \<Longrightarrow> sf_inv x s"
  unfolding sf_inv_def by blast

text \<open>A request returns: every forwarding marks a task that was not marked.\<close>

lemma sf_request_total:
  assumes "sf_inv (Some h) s"
  shows "\<exists>s'. sf_request h s = Some s' \<and> sf_inv None s' \<and> sf_req s' h \<and> (\<forall>x. sf_req s x \<longrightarrow> sf_req s' x)
    \<and> (\<forall>p c. awaits s' p c = awaits s p c)"
  using assms
proof (induction "card {c. sf_live s c \<and> \<not> sf_req s c} + (if sf_live s h then 0 else 1)" arbitrary: h s rule: less_induct)
  case less
  show ?case
  proof (cases "sf_req s h")
    case True
    then show ?thesis using sf_inv_hit [OF less.prems] by (subst sf_request.simps) simp
  next
    case False
    note m = sf_inv_marked [OF less.prems False]
    show ?thesis
    proof (cases "sf_fwd s h")
      case None
      then show ?thesis using m False by (subst sf_request.simps) (simp add: Let_def)
    next
      case (Some c)
      have step: "sf_request h s = sf_request c (marked h s)" using Some False by (subst sf_request.simps) (simp add: Let_def)
      have aw: "awaits s h c" using sf_invD(3) [OF less.prems Some] by blast
      show ?thesis
      proof (cases "sf_req (marked h s) c")
        case True
        then have "sf_inv None (marked h s)" using m Some by (intro sf_inv_hit) simp_all
        moreover have "sf_request c (marked h s) = Some (marked h s)" using True by (subst sf_request.simps) simp
        ultimately show ?thesis using step by simp
      next
        case c: False
        let ?A = "{d. sf_live s d \<and> \<not> sf_req s d}" and ?B = "{d. sf_live (marked h s) d \<and> \<not> sf_req (marked h s) d}"
        have fin: "finite ?A" using sf_invD(4) [OF less.prems] by simp
        have "card ?B + (if sf_live (marked h s) c then 0 else 1) < card ?A + (if sf_live s h then 0 else 1)"
        proof (cases "sf_live s h")
          case True
          then have "?B \<subset> ?A" using False by auto
          then have "card ?B < card ?A" by (rule psubset_card_mono [OF fin])
          then show ?thesis using aw by (simp add: awaits_def)
        next
          case h: False
          then have "?B = ?A" by auto
          then show ?thesis using aw h by (simp add: awaits_def)
        qed
        from less.hyps [OF this] m Some obtain s' where
          "sf_request c (marked h s) = Some s'" "sf_inv None s'" "\<forall>x. sf_req (marked h s) x \<longrightarrow> sf_req s' x"
          "\<forall>p c. awaits s' p c = awaits s p c" by auto
        then show ?thesis using step by auto
      qed
    qed
  qed
qed

lemma sf_inv_await:
  assumes inv: "sf_inv None s" and new: "\<not> sf_live s child" "\<And>c. \<not> awaits s parent c" and s': "sf_await child parent s = Some s'"
  shows "sf_inv None s'"
proof -
  let ?s = "s\<lparr>sf_cont := (sf_cont s)(child := Some parent), sf_live := (sf_live s)(child := True)\<rparr>"
  note d = sf_invD [OF inv]
  have aw: "awaits ?s p c \<longleftrightarrow> (if c = child then p = parent else awaits s p c)" for p c by (auto simp: awaits_def)
  have fin: "finite {c. sf_live ?s c}"
  proof (rule finite_subset)
    show "{c. sf_live ?s c} \<subseteq> insert child {c. sf_live s c}" by auto
  qed (use d(4) in simp)
  have fwd: "sf_fwd s p = Some c \<Longrightarrow> awaits ?s p c \<and> \<not> sf_req s p" for p c
    using d(3) [of p c] new(1) by (auto simp: aw awaits_def)
  show ?thesis
  proof (cases "sf_req s parent")
    case True
    then have r: "sf_request child ?s = Some s'" using s' by (simp add: sf_await_def token_stop_requested_def token_get_def Let_def)
    have "sf_inv (Some child) ?s"
      unfolding sf_inv_def
    proof (intro conjI allI impI fin)
      fix p c assume a: "awaits ?s p c"
      show "sf_req ?s c \<or> Some child = Some c" if "sf_req ?s p" using a that d(1) [of p c] by (auto simp: aw split: if_splits)
      show "sf_fwd ?s p = Some c" if "\<not> sf_req ?s p" using a that d(2) [of p c] True by (auto simp: aw split: if_splits)
    qed (use fwd in auto)
    from sf_request_total [OF this] r show ?thesis by auto
  next
    case False
    then have r: "s' = ?s\<lparr>sf_fwd := (sf_fwd ?s)(parent := Some child)\<rparr>"
      using s' by (simp add: sf_await_def token_stop_requested_def token_get_def Let_def)
    have a: "awaits s' p c = awaits ?s p c" for p c by (simp add: r awaits_def)
    show ?thesis
      unfolding sf_inv_def
    proof (intro conjI allI impI)
      fix p c assume "awaits s' p c"
      then have aw': "if c = child then p = parent else awaits s p c" unfolding a aw .
      show "sf_req s' c \<or> None = Some c" if "sf_req s' p" using aw' that d(1) [of p c] False by (auto simp: r split: if_splits)
      show "sf_fwd s' p = Some c" if "\<not> sf_req s' p" using aw' that d(2) [of p c] new(2) [of c] by (auto simp: r split: if_splits)
    next
      fix p c assume f: "sf_fwd s' p = Some c"
      show "awaits s' p c" unfolding a using f fwd [of p c] by (auto simp: r aw split: if_splits)
      show "\<not> sf_req s' p" using f fwd [of p c] False by (auto simp: r split: if_splits)
    next
      have "sf_live s' = sf_live ?s" by (simp add: r)
      then show "finite {c. sf_live s' c}" using fin by (simp only:)
    qed
  qed
qed

lemma sf_inv_final:
  assumes inv: "sf_inv None s" and s': "sf_final c s = (r, s')"
  shows "sf_inv None s'"
proof -
  note d = sf_invD [OF inv]
  have e: "s' = s\<lparr>sf_live := (sf_live s)(c := False), sf_fwd := (\<lambda>p. if sf_cont s c = Some p \<and> sf_fwd s p = Some c then nullptr else sf_fwd s p)\<rparr>"
  proof -
    have "s' = snd (sf_final c s)" using s' by simp
    then show ?thesis by (simp only: sf_final_def snd_conv)
  qed
  have aw: "awaits s' p c' \<longleftrightarrow> awaits s p c' \<and> c' \<noteq> c" for p c' by (auto simp: e awaits_def)
  have fw: "sf_fwd s' p = Some c' \<longleftrightarrow> sf_fwd s p = Some c' \<and> c' \<noteq> c" for p c'
    using d(3) [of p c'] by (auto simp: e awaits_def)
  have rq: "sf_req s' = sf_req s" by (simp add: e)
  have "finite {x. sf_live s' x}" by (rule finite_subset [OF _ d(4)]) (auto simp: e)
  then show ?thesis unfolding sf_inv_def aw fw rq using d(1-3) by blast
qed

lemma sf_inv_step:
  assumes "sf_step s s'" "sf_inv None s"
  shows "sf_inv None s'"
  using assms(1)
proof cases
  case (request h)
  from sf_request_total [OF sf_inv_some [OF assms(2)], of h] obtain t where "sf_request h s = Some t" "sf_inv None t" by blast
  with request show ?thesis by simp
next
  case (await child parent)
  show ?thesis by (rule sf_inv_await [OF assms(2) await])
next
  case (final c r)
  show ?thesis by (rule sf_inv_final [OF assms(2) final(2)])
qed

lemma sf_inv_reachable: "sf_reachable s \<Longrightarrow> sf_inv None s"
proof (induction rule: sf_reachable.induct)
  case init
  show ?case by (simp add: sf_inv_def sf_new_def awaits_def)
next
  case (step s s')
  show ?case by (rule sf_inv_step [OF step(2) step.IH])
qed

section \<open>Properties\<close>



end
