(* ===== verification/Stop_Request.thy ===== *)
theory Stop_Request
  imports Stop_Source Wakeup
begin

text \<open>
  \<open>__scheduler::_M_request_stop\<close>: a stop request on the scheduler's source, then \<open>_M_notify\<close>. Any number of threads request a
  stop, register and destroy callbacks, and the owner sleeps and wakes; the steps are those of the stop source and of the sleep
  protocol, each on its own part of the scheduler.
\<close>

section \<open>Steps\<close>

datatype 'c qpc = Q_Stop "'c pc" | Q_Notify npc

fun request_step :: "'c qpc \<Rightarrow> 'c stop_mem \<Rightarrow> wake \<Rightarrow> ('c qpc \<times> 'c stop_mem \<times> wake) list" where
  "request_step (Q_Stop (Req_Ret b)) m w = [(Q_Notify N_Xchg, m, w)]"
| "request_step (Q_Stop q) m w = map (\<lambda>(p, m'). (Q_Stop p, m', w)) (tstep q m)"
| "request_step (Q_Notify (N_Ret b)) m w = [(Q_Stop Idle, m, w)]"
| "request_step (Q_Notify q) m w = map (\<lambda>(p, w'). (Q_Notify p, m, w')) (notify_step q w)"

type_synonym ('t, 'c) qsys = "('t \<Rightarrow> 'c qpc) \<times> epc \<times> 'c stop_mem \<times> wake"

inductive qstep :: "('t, 'c) qsys \<Rightarrow> ('t, 'c) qsys \<Rightarrow> bool" where
  run: "(p, m', w') \<in> set (request_step (T t) m w) \<Longrightarrow> qstep (T, e, m, w) (T(t := p), e, m', w')"
| request: "T t = Q_Stop Idle \<Longrightarrow> qstep (T, e, m, w) (T(t := Q_Stop Req_Load), e, m, w)"
| construct: "T t = Q_Stop Idle \<Longrightarrow> life m c = Unborn \<Longrightarrow> qstep (T, e, m, w) (T(t := Q_Stop (Reg_Load c)), e, construct_cb c m, w)"
| destroy: "T t = Q_Stop Idle \<Longrightarrow> life m c = Alive \<Longrightarrow>
    qstep (T, e, m, w) (T(t := Q_Stop (fst (destroy_cb c m))), e, snd (destroy_cb c m), w)"
| enter: "(e', w') \<in> set (enter_step e w) \<Longrightarrow> qstep (T, e, m, w) (T, e', m, w')"

inductive qreachable :: "('t, 'c) qsys \<Rightarrow> bool" where
  init: "qreachable (\<lambda>_. Q_Stop Idle, E_Loop, stop_new, wake_new)"
| step: "qreachable s \<Longrightarrow> qstep s s' \<Longrightarrow> qreachable s'"

section \<open>The two parts\<close>

text \<open>What each part sees of a thread.\<close>

fun stop_pc :: "'c qpc \<Rightarrow> 'c pc" where
  "stop_pc (Q_Stop q) = q"
| "stop_pc (Q_Notify p) = Idle"

fun notify_pc :: "'c qpc \<Rightarrow> npc" where
  "notify_pc (Q_Stop q) = NIdle"
| "notify_pc (Q_Notify p) = p"

definition stop_part :: "('t, 'c) qsys \<Rightarrow> ('t, 'c) sys" where
  "stop_part s = (case s of (T, e, m, w) \<Rightarrow> (\<lambda>t. stop_pc (T t), m))"

definition wake_part :: "('t, 'c) qsys \<Rightarrow> 't wsys" where
  "wake_part s = (case s of (T, e, m, w) \<Rightarrow> (\<lambda>t. notify_pc (T t), e, w))"

lemma pc_upd:
  "(\<lambda>u. stop_pc ((T(t := p)) u)) = (\<lambda>u. stop_pc (T u))(t := stop_pc p)"
  "(\<lambda>u. notify_pc ((T(t := p)) u)) = (\<lambda>u. notify_pc (T u))(t := notify_pc p)"
  by auto

text \<open>A step of a thread is a step of one part, or leaves it; returning from the stop source starts the notification.\<close>

lemma request_step_parts:
  assumes "(p, m', w') \<in> set (request_step q m w)"
  shows "((stop_pc p, m') \<in> set (tstep (stop_pc q) m) \<or> stop_pc p = stop_pc q \<and> m' = m)
    \<and> ((notify_pc p, w') \<in> set (notify_step (notify_pc q) w) \<or> notify_pc p = notify_pc q \<and> w' = w)"
  using assms by (induction q m w rule: request_step.induct) auto

lemma qstep_parts:
  assumes "qstep s s'"
  shows "stop_step\<^sup>=\<^sup>= (stop_part s) (stop_part s') \<and> wstep\<^sup>=\<^sup>= (wake_part s) (wake_part s')"
  using assms
proof (induction rule: qstep.induct)
  case (run p m' w' T t m w e)
  let ?S = "\<lambda>u. stop_pc (T u)" and ?N = "\<lambda>u. notify_pc (T u)"
  have s: "stop_step\<^sup>=\<^sup>= (?S, m) (?S(t := stop_pc p), m')"
    using request_step_parts [OF run] stop_step.run [of "stop_pc p" m' ?S t m] by fastforce
  have n: "wstep\<^sup>=\<^sup>= (?N, e, w) (?N(t := notify_pc p), e, w')"
    using request_step_parts [OF run] wstep.notify [of "notify_pc p" w' ?N t w e] by fastforce
  from s n show ?case unfolding stop_part_def wake_part_def prod.case pc_upd by blast
next
  case (request T t e m w)
  then show ?case using stop_step.request [of "\<lambda>u. stop_pc (T u)" t m]
    unfolding stop_part_def wake_part_def prod.case pc_upd by (simp add: fun_upd_idem)
next
  case (construct T t m c e w)
  then show ?case using stop_step.construct [of "\<lambda>u. stop_pc (T u)" t m c]
    unfolding stop_part_def wake_part_def prod.case pc_upd by (simp add: fun_upd_idem)
next
  case (destroy T t m c e w)
  then show ?case using stop_step.destroy [of "\<lambda>u. stop_pc (T u)" t m c]
    unfolding stop_part_def wake_part_def prod.case pc_upd by (simp add: fun_upd_idem)
next
  case (enter e' w' e w T m)
  then show ?case using wstep.enter [of e' w' e w "\<lambda>u. notify_pc (T u)"] by (simp add: stop_part_def wake_part_def)
qed

lemma qreachable_parts: "qreachable s \<Longrightarrow> stop_reachable (stop_part s) \<and> wreachable (wake_part s)"
proof (induction rule: qreachable.induct)
  case init
  then show ?case using stop_reachable.init wreachable.init by (simp add: stop_part_def wake_part_def)
next
  case (step s s')
  then show ?case using qstep_parts [OF step(2)] stop_reachable.step wreachable.step by (metis sup2E)
qed

section \<open>The flag\<close>

text \<open>A thread whose request has returned from the stop source finds the flag set, for ever.\<close>

definition requested_by :: "'c qpc \<Rightarrow> bool" where
  "requested_by q \<longleftrightarrow> (\<exists>b. q = Q_Stop (Req_Ret b)) \<or> (\<exists>p. q = Q_Notify p)"

lemma tstep_returns: "(Req_Ret b, m') \<in> set (tstep q m) \<Longrightarrow> stop_requested m'"
  by (induction q m rule: tstep.induct)
    (auto simp: stop_requested_def stop_requested_flag_def try_next_def lock_next_def split: if_splits option.splits)

lemma request_step_requested:
  "(p, m', w') \<in> set (request_step q m w) \<Longrightarrow> requested_by p \<Longrightarrow> requested_by q \<or> stop_requested m'"
  by (induction q m w rule: request_step.induct) (auto simp: requested_by_def simp del: tstep.simps dest: tstep_returns)

lemma requested_flag: "qreachable s \<Longrightarrow> (\<forall>t. requested_by (fst s t) \<longrightarrow> stop_requested (fst (snd (snd s))))"
proof (induction rule: qreachable.induct)
  case init
  then show ?case by (simp add: requested_by_def)
next
  case (step s s')
  have parts: "stop_reachable (stop_part s)" using qreachable_parts [OF step(1)] by simp
  have mono: "stop_requested (fst (snd (snd s)))  \<Longrightarrow> stop_requested (fst (snd (snd s')))"
  proof -
    assume f: "stop_requested (fst (snd (snd s)))"
    obtain T m T' m' where p: "stop_part s = (T, m)" "stop_part s' = (T', m')" by fastforce
    then have m: "m = fst (snd (snd s))" "m' = fst (snd (snd s'))" by (auto simp: stop_part_def split: prod.splits)
    from qstep_parts [OF step(2)] p have "stop_step (T, m) (T', m') \<or> m' = m" by auto
    then show ?thesis using stop_no_late_registration [of T m T' m'] parts p f m by auto
  qed
  from step(2) mono step(3) show ?case
  proof (induction rule: qstep.induct)
    case (run p m' w' T t m w e)
    then show ?case using request_step_requested [OF run(1)] by auto
  qed (auto simp: requested_by_def destroy_cb_def)
qed

section \<open>Schedules\<close>

datatype 't qcmd = QRun 't nat | QRequest 't | QEnter nat

fun qmove :: "'t qcmd \<Rightarrow> ('t, 'c) qsys \<Rightarrow> ('t, 'c) qsys option" where
  "qmove (QRun t i) (T, e, m, w) = (let ps = request_step (T t) m w in
     if i < length ps then Some (T(t := fst (ps ! i)), e, fst (snd (ps ! i)), snd (snd (ps ! i))) else None)"
| "qmove (QRequest t) (T, e, m, w) = (case T t of Q_Stop Idle \<Rightarrow> Some (T(t := Q_Stop Req_Load), e, m, w) | _ \<Rightarrow> None)"
| "qmove (QEnter i) (T, e, m, w) = (let ps = enter_step e w in
     if i < length ps then Some (T, fst (ps ! i), m, snd (ps ! i)) else None)"

fun qrun :: "'t qcmd list \<Rightarrow> ('t, 'c) qsys \<Rightarrow> ('t, 'c) qsys option" where
  "qrun [] s = Some s"
| "qrun (x # xs) s = Option.bind (qmove x s) (qrun xs)"

lemma qmove_step: "qmove x (T, e, m, w) = Some s' \<Longrightarrow> qstep (T, e, m, w) s'"
proof (cases x)
  case (QRun t i)
  assume "qmove x (T, e, m, w) = Some s'"
  then have i: "i < length (request_step (T t) m w)"
    and s': "s' = (T(t := fst (request_step (T t) m w ! i)), e, fst (snd (request_step (T t) m w ! i)), snd (snd (request_step (T t) m w ! i)))"
    using QRun by (simp_all add: Let_def split: if_splits)
  from nth_mem [OF i] show ?thesis unfolding s' by (intro qstep.run) simp
next
  case (QRequest t)
  assume "qmove x (T, e, m, w) = Some s'"
  then show ?thesis using QRequest qstep.request [of T t e m w] by (auto split: qpc.splits pc.splits)
next
  case (QEnter i)
  assume "qmove x (T, e, m, w) = Some s'"
  then have i: "i < length (enter_step e w)" and s': "s' = (T, fst (enter_step e w ! i), m, snd (enter_step e w ! i))"
    using QEnter by (simp_all add: Let_def split: if_splits)
  from nth_mem [OF i] show ?thesis unfolding s' by (intro qstep.enter) simp
qed

lemma qrun_reachable: "qrun xs s = Some s' \<Longrightarrow> qreachable s \<Longrightarrow> qreachable s'"
proof (induction xs arbitrary: s)
  case (Cons x xs)
  then obtain s1 where "qmove x s = Some s1" "qrun xs s1 = Some s'" by (auto simp: Option.bind_eq_Some_conv)
  then show ?case using Cons.IH Cons.prems(2) qreachable.step qmove_step by (cases s) blast
qed simp

text \<open>The owner goes to sleep, then thread \<open>True\<close> requests a stop and is about to notify.\<close>

definition demo_request_stop :: "bool qcmd list" where
  "demo_request_stop = [QEnter 0, QEnter 0, QEnter 0, QEnter 0, QEnter 0, QRequest True, QRun True 0, QRun True 1, QRun True 0, QRun True 0,
     QRun True 0, QRun True 0]"

section \<open>Properties\<close>



end
