(* ===== verification/Server.thy ===== *)
theory Server
  imports Run_Loop Receive
begin

text \<open>
  The program of \<open>main.cxx\<close> on the run loop: the accept operation and the receive operations as the scheduler runs them. The
  state extends the scheduler's with the acceptor, with the receiver of every connection, by the address of its operation, and
  with the static counter of buffer group ids. \<open>new fd n\<close> stands for the environment of the \<open>n\<close>-th receiver: the address its frame gets
  and the answers of the kernel while it sets up its ring of buffers. There are no timers, so there is nothing to drain.
\<close>

section \<open>State and operations\<close>

record server = sched +
  sv_accept :: u64
  sv_listen :: s32
  sv_addr :: u64
  sv_addrlen :: u64
  sv_acceptor :: acceptor
  sv_clients :: "u64 \<Rightarrow> client option"
  sv_bgid :: u16
  sv_ended :: "s32 option"

record conn_env =
  ce_op :: u64
  ce_bufs :: "nat \<Rightarrow> buf"
  ce_mem :: "s32 + u64"
  ce_ring :: "s32 + u64"
  ce_register :: "buf_reg \<Rightarrow> s32"

type_synonym server_fn = "s32 \<Rightarrow> nat \<Rightarrow> conn_env"

definition server_submit :: "u64 \<Rightarrow> sqe \<Rightarrow> 'z server_scheme \<Rightarrow> sqe \<times> 'z server_scheme" where
  "server_submit op x s =
     (if op = sv_accept s then
        (accept_submit (sv_listen s) (sv_addr s) (sv_addrlen s),
         s\<lparr>sv_acceptor := (sv_acceptor s)\<lparr>ac_submits := ac_submits (sv_acceptor s) - 1\<rparr>\<rparr>)
      else (case sv_clients s op of
          None \<Rightarrow> (x, s)
        | Some cl \<Rightarrow> (case recv_submit (cl_op cl) of (x', r) \<Rightarrow>
            (x', s\<lparr>sv_clients := (sv_clients s)(op \<mapsto> cl\<lparr>cl_op := r, cl_submits := cl_submits cl - 1\<rparr>)\<rparr>))))"

text \<open>\<open>__k_schd._M_submit (op)\<close>; the queue accepts every operation that is not null.\<close>

definition server_push :: "u64 \<Rightarrow> 'z server_scheme \<Rightarrow> 'z server_scheme" where
  "server_push op s = (case sched_push op s of None \<Rightarrow> s | Some s' \<Rightarrow> s')"

text \<open>The constructor of \<open>__async_receive\<close> takes the next buffer group id and sets up its ring.\<close>

definition receiver_new :: "conn_env \<Rightarrow> u16 \<Rightarrow> s32 \<Rightarrow> (s32 + recv) \<times> u16" where
  "receiver_new e bgid fd = (setup_ring (ce_mem e) (ce_ring e) (ce_register e) (recv_new (ce_bufs e) bgid fd), bgid + 1)"

text \<open>
  An accepted connection: make its receiver, run it to its first \<open>co_await\<close>, and submit the accept operation again if the kernel
  has ended it. An error ends the program: what the model does after \<open>sv_ended\<close> is set is not the program's.
\<close>

definition conn_of :: "server_fn \<Rightarrow> cqe \<Rightarrow> 'z server_scheme \<Rightarrow> conn_env" where
  "conn_of new c s = new (cqe_res c) (length (ac_spawned (sv_acceptor s)))"

definition server_accepted :: "server_fn \<Rightarrow> cqe \<Rightarrow> 'z server_scheme \<Rightarrow> 'z server_scheme" where
  "server_accepted new c s = (case accept_complete c (sv_acceptor s) of
       Inl e \<Rightarrow> s\<lparr>sv_ended := Some e\<rparr>
     | Inr a \<Rightarrow> (case receiver_new (conn_of new c s) (sv_bgid s) (cqe_res c) of
         (Inl e, _) \<Rightarrow> s\<lparr>sv_ended := Some e\<rparr>
       | (Inr rv, bgid) \<Rightarrow> (let r = ce_op (conn_of new c s);
             cl = receive_start rv;
             s1 = s\<lparr>sv_clients := (sv_clients s)(r \<mapsto> cl), sv_bgid := bgid\<rparr>;
             s2 = (if cl_submits cl = 0 then s1 else server_push r s1);
             s3 = s2\<lparr>sv_acceptor := a\<rparr>
           in if cqe_more c then s3 else server_push (sv_accept s) s3)))"

definition server_received :: "u64 \<Rightarrow> cqe \<Rightarrow> 'z server_scheme \<Rightarrow> 'z server_scheme" where
  "server_received op c s = (case sv_clients s op of
       None \<Rightarrow> s
     | Some cl \<Rightarrow> (let cl1 = recv_complete c cl; s1 = s\<lparr>sv_clients := (sv_clients s)(op \<mapsto> cl1)\<rparr>
         in if cl_submits cl1 = cl_submits cl then s1 else server_push op s1))"

definition server_complete :: "server_fn \<Rightarrow> u64 \<Rightarrow> cqe \<Rightarrow> 'z server_scheme \<Rightarrow> 'z server_scheme" where
  "server_complete new op c s = (if op = sv_accept s then server_accepted new c s else server_received op c s)"

text \<open>The start of \<open>main\<close>: the accept operation is submitted, then the run begins.\<close>

definition server_main :: "'z server_scheme \<Rightarrow> 'z server_scheme" where
  "server_main s = (let s1 = s\<lparr>sv_acceptor := (sv_acceptor s)\<lparr>ac_submits := ac_submits (sv_acceptor s) + 1\<rparr>\<rparr> in server_push (sv_accept s) s1)"

section \<open>The contract of the run loop\<close>

lemma own_server_upd [simp]:
  "own (s\<lparr>sv_acceptor := a\<rparr>) = own s" "own (s\<lparr>sv_clients := cs\<rparr>) = own s" "own (s\<lparr>sv_ended := e\<rparr>) = own s" "own (s\<lparr>sv_bgid := b\<rparr>) = own s"
  "own (s\<lparr>io_next := nx\<rparr>) = own s"
  by (simp_all add: own_def)

lemma own_server_push [simp]: "own (server_push op s) = own s"
  by (auto simp: server_push_def sched_push_def ub_bind split: option.split)

interpretation server: ring_client server_submit "server_complete new" "\<lambda>_. Some" for new
proof (unfold_locales, goal_cases)
  case (1 op x s)
  then show ?case by (auto simp: server_submit_def split: option.split prod.split)
next
  case (2 op c s)
  then show ?case
    by (auto simp: server_complete_def server_accepted_def server_received_def Let_def split: sum.split option.split prod.split)
qed simp

section \<open>Where an operation is\<close>

text \<open>
  One step of what the loops of the two rings do for an operation: take it from the private queue and submit it, or complete an
  entry of an operation that is armed. The kernel arms what is submitted until its final entry; an entry without data or with an
  error is final (\<open>io_uring\<close>'s documentation of multishot requests), and the frame of a new receiver is not one in use.
\<close>

inductive server_step :: "server_fn \<Rightarrow> 'z server_scheme \<times> u64 set \<Rightarrow> 'z server_scheme \<times> u64 set \<Rightarrow> bool" for new where
  submit: "sv_ended s = None \<Longrightarrow> iq_pop_front (io_next s) (io_pending s) = Some (Some op, q) \<Longrightarrow>
    server_step new (s, fl) (snd (ioring_submit server_submit op x (s\<lparr>io_pending := q\<rparr>)), insert op fl)"
| complete: "sv_ended s = None \<Longrightarrow> op \<in> fl \<Longrightarrow> (cqe_more c \<longrightarrow> 0 < sint (cqe_res c)) \<Longrightarrow>
    (op = sv_accept s \<longrightarrow> sv_clients s (ce_op (conn_of new c s)) = None \<and> ce_op (conn_of new c s) \<noteq> sv_accept s) \<Longrightarrow>
    server_step new (s, fl)
      (snd (ioring_complete (manage_complete (server_complete new)) op c s), if cqe_more c then fl else fl - {op})"
| counters: "server_step new (s, fl) (s\<lparr>sc_sq := sq, sc_cq := cq, sc_total := t, sc_newly := n\<rparr>, fl)"

inductive server_reachable :: "server_fn \<Rightarrow> 'z server_scheme \<Rightarrow> 'z server_scheme \<times> u64 set \<Rightarrow> bool" for new s0 where
  init: "server_reachable new s0 (server_main s0, {})"
| step: "server_reachable new s0 s \<Longrightarrow> server_step new s s' \<Longrightarrow> server_reachable new s0 s'"

definition server_fresh :: "'z server_scheme \<Rightarrow> bool" where
  "server_fresh s \<longleftrightarrow> iq_repr (io_next s) (io_pending s) [] \<and> sv_clients s = Map.empty \<and> ac_submits (sv_acceptor s) = 0
     \<and> sv_ended s = None \<and> kind s = (\<lambda>_. Operation)"

text \<open>
  The invariant, for the operations \<open>xs\<close> of the private queue and the armed ones \<open>fl\<close>: every receiver is in exactly one of the
  two until its stream has ended, the accept operation always, and \<open>__multishot_live_\<close> says which.
\<close>

definition conn_ok :: "u64 set \<Rightarrow> u64 set \<Rightarrow> u64 \<Rightarrow> client \<Rightarrow> bool" where
  "conn_ok Q fl op cl \<longleftrightarrow> cl_submits cl = (if op \<in> Q then 1 else 0)
     \<and> (if cl_ended cl then op \<notin> Q \<union> fl else op \<in> Q \<union> fl \<and> rv_live (cl_op cl) = (op \<in> fl))"

definition placed :: "u64 set \<Rightarrow> u64 set \<Rightarrow> u64 \<Rightarrow> nat \<Rightarrow> (u64 \<Rightarrow> client option) \<Rightarrow> bool" where
  "placed Q fl acc n cls \<longleftrightarrow> Q \<inter> fl = {} \<and> cls acc = None \<and> acc \<in> Q \<union> fl \<and> n = (if acc \<in> Q then 1 else 0)
     \<and> (\<forall>op cl. cls op = Some cl \<longrightarrow> conn_ok Q fl op cl) \<and> (\<forall>op \<in> Q \<union> fl. op = acc \<or> cls op \<noteq> None)"

definition tracked :: "'z server_scheme \<Rightarrow> u64 set \<Rightarrow> u64 list \<Rightarrow> bool" where
  "tracked s fl xs \<longleftrightarrow> iq_repr (io_next s) (io_pending s) xs \<and> kind s = (\<lambda>_. Operation) \<and> (\<forall>op \<in> fl. n_ops s op = 1)
     \<and> placed (set xs) fl (sv_accept s) (ac_submits (sv_acceptor s)) (sv_clients s)"

lemma conn_ok_cong: "(op \<in> Q) = (op \<in> Q') \<Longrightarrow> (op \<in> fl) = (op \<in> fl') \<Longrightarrow> conn_ok Q fl op cl = conn_ok Q' fl' op cl"
  by (simp add: conn_ok_def)

lemma placed_client:
  assumes p: "placed Q fl acc n cls" and acc: "op \<noteq> acc"
    and same: "\<And>x. x \<noteq> op \<Longrightarrow> (x \<in> Q') = (x \<in> Q) \<and> (x \<in> fl') = (x \<in> fl)"
    and one: "\<not> (op \<in> Q' \<and> op \<in> fl')" and ok: "conn_ok Q' fl' op cl"
  shows "placed Q' fl' acc n (cls(op \<mapsto> cl))"
proof -
  have "conn_ok Q' fl' x cl'" if "(cls(op \<mapsto> cl)) x = Some cl'" for x cl'
    using that ok p conn_ok_cong [of x Q Q' fl fl' cl'] same [of x] by (cases "x = op") (auto simp: placed_def)
  moreover have "x \<notin> fl'" if "x \<in> Q'" for x
    using that p same [of x] one unfolding placed_def by (cases "x = op") auto
  then have "Q' \<inter> fl' = {}" by auto
  moreover have "x = acc \<or> (cls(op \<mapsto> cl)) x \<noteq> None" if "x \<in> Q' \<union> fl'" for x
    using that p same [of x] unfolding placed_def by (cases "x = op") auto
  ultimately show ?thesis using p acc same [of acc] by (simp add: placed_def)
qed

lemma placed_accept:
  assumes p: "placed Q fl acc n cls" and same: "\<And>x. x \<noteq> acc \<Longrightarrow> (x \<in> Q') = (x \<in> Q) \<and> (x \<in> fl') = (x \<in> fl)"
    and one: "(acc \<in> Q') \<noteq> (acc \<in> fl')"
  shows "placed Q' fl' acc (if acc \<in> Q' then 1 else 0) cls"
proof -
  have "conn_ok Q' fl' x cl" if "cls x = Some cl" for x cl
  proof -
    have "x \<noteq> acc" using p that by (auto simp: placed_def)
    then show ?thesis using that p conn_ok_cong [of x Q Q' fl fl' cl] same [of x] by (simp add: placed_def)
  qed
  moreover have "x \<notin> fl'" if "x \<in> Q'" for x
    using that p same [of x] one unfolding placed_def by (cases "x = acc") auto
  then have "Q' \<inter> fl' = {}" by auto
  moreover have "x = acc \<or> cls x \<noteq> None" if "x \<in> Q' \<union> fl'" for x
    using that p same [of x] unfolding placed_def by (cases "x = acc") auto
  ultimately show ?thesis using p one by (auto simp: placed_def)
qed

lemma placedD:
  assumes "placed Q fl acc n cls"
  shows "Q \<inter> fl = {}" "cls acc = None" "acc \<in> Q \<union> fl" "n = (if acc \<in> Q then 1 else 0)"
    "cls op = Some cl \<Longrightarrow> conn_ok Q fl op cl" "op \<in> Q \<union> fl \<Longrightarrow> op \<noteq> acc \<Longrightarrow> \<exists>cl. cls op = Some cl"
  using assms by (auto simp: placed_def)

lemma server_push_ok:
  assumes "iq_repr (io_next s) (io_pending s) xs" "op \<notin> set xs"
  obtains nx q where "server_push op s = s\<lparr>io_next := nx, io_pending := q\<rparr>" "iq_repr nx q (op # xs)"
proof -
  from iq_push_front_refines [OF assms] obtain nx q where
    "iq_push_front (io_next s) (Some op) (io_pending s) = Some (nx, q)" "iq_repr nx q (op # xs)" by blast
  then show ?thesis using that by (simp add: server_push_def sched_push_def)
qed

lemma push_if_ok:
  assumes "iq_repr (io_next s) (io_pending s) xs" "op \<notin> set xs"
  obtains nx q where "(if b then s else server_push op s) = s\<lparr>io_next := nx, io_pending := q\<rparr>"
    "iq_repr nx q ((if b then [] else [op]) @ xs)"
proof (cases b)
  case True
  then show ?thesis using that [where nx = "io_next s" and q = "io_pending s"] assms(1) by simp
next
  case False
  from server_push_ok [OF assms] obtain nx q where "server_push op s = s\<lparr>io_next := nx, io_pending := q\<rparr>" "iq_repr nx q (op # xs)"
    by blast
  with False show ?thesis using that [where nx = nx and q = q] by simp
qed

text \<open>Suspended, a coroutine has one submission more exactly when it is not armed.\<close>

lemma receive_await_tracks:
  "rv_live (cl_op (receive_await cl)) = rv_live (cl_op cl)" "cl_ended (receive_await cl) = cl_ended cl"
  "cl_submits (receive_await cl) = cl_submits cl + (if rv_live (cl_op cl) then 0 else 1)"
  by (simp_all add: receive_await_def recv_suspend_def replenish_def set_buf_def Let_def)

lemma receive_start_tracks:
  "\<not> rv_live rv \<Longrightarrow> \<not> cl_ended (receive_start rv) \<and> \<not> rv_live (cl_op (receive_start rv)) \<and> cl_submits (receive_start rv) = 1"
  by (simp add: receive_start_def receive_await_tracks)

lemma recv_complete_tracks:
  assumes "cl_submits cl = 0" "rv_live (cl_op cl)" "\<not> cl_ended cl" "cqe_more c \<longrightarrow> 0 < sint (cqe_res c)"
  shows "cl_submits (recv_complete c cl) = (if cl_ended (recv_complete c cl) \<or> cqe_more c then 0 else 1)
    \<and> (cl_ended (recv_complete c cl) \<longrightarrow> \<not> cqe_more c)
    \<and> (\<not> cl_ended (recv_complete c cl) \<longrightarrow> rv_live (cl_op (recv_complete c cl)) = cqe_more c)"
proof -
  have neg: "sint (- enobufs) < 0" by (simp add: enobufs_def)
  consider (full) "cqe_res c = - enobufs" | (stop) "cqe_res c \<noteq> - enobufs" "sint (cqe_res c) \<le> 0"
    | (data) "cqe_res c \<noteq> - enobufs" "0 < sint (cqe_res c)" by linarith
  then show ?thesis
  proof cases
    case full
    then have "\<not> cqe_more c" using neg assms(4) by auto
    then show ?thesis using full assms(1,3) by (simp add: recv_complete_def recv_handle_def)
  next
    case stop
    then show ?thesis using assms by (auto simp: recv_complete_def recv_handle_def)
  next
    case data
    then show ?thesis using assms(1-3) by (simp add: recv_complete_def recv_handle_def Let_def receive_await_tracks)
  qed
qed

text \<open>An armed operation has one kernel request, so its entry reaches its completion function.\<close>

lemma armed_complete:
  assumes "n_ops s op = 1" "kind s = (\<lambda>_. Operation)"
  shows "snd (ioring_complete (manage_complete com) op c s) = com op c (if cqe_more c then s else n_ops_sub op s)"
  using assms by (simp add: ioring_complete_def manage_complete_def n_ops_sub_def cqe_more_def Let_def)

lemma n_ops_sub_sel [simp]:
  "n_ops_sub op s = s\<lparr>n_ops := (n_ops s)(op := n_ops s op - 1)\<rparr>"
  by (simp add: n_ops_sub_def)

lemma tracked_submit:
  assumes t: "tracked s fl (op # xs)" and q: "iq_repr (io_next s) q xs"
  shows "tracked (snd (ioring_submit server_submit op x (s\<lparr>io_pending := q\<rparr>))) (insert op fl) xs"
proof -
  have d: "op \<notin> set xs" using t iq_repr_distinct [of "io_next s" "io_pending s" "op # xs"] by (simp add: tracked_def)
  have p: "placed (set (op # xs)) fl (sv_accept s) (ac_submits (sv_acceptor s)) (sv_clients s)" using t by (simp add: tracked_def)
  then have nf: "op \<notin> fl" using placedD(1) [OF p] by auto
  show ?thesis
  proof (cases "op = sv_accept s")
    case True
    have "placed (set xs) (insert op fl) (sv_accept s) (if sv_accept s \<in> set xs then 1 else 0) (sv_clients s)"
      by (rule placed_accept [OF p]) (use True d in auto)
    then show ?thesis using t q True d placedD(4) [OF p] by (simp add: tracked_def ioring_submit_def manage_submit_def server_submit_def)
  next
    case False
    then obtain cl where cl: "sv_clients s op = Some cl" using placedD(6) [OF p, of op] by auto
    let ?cl = "cl\<lparr>cl_op := snd (recv_submit (cl_op cl)), cl_submits := cl_submits cl - 1\<rparr>"
    have "conn_ok (set xs) (insert op fl) op ?cl"
      using placedD(5) [OF p cl] d nf by (auto simp: conn_ok_def recv_submit_def Let_def split: if_splits)
    then have "placed (set xs) (insert op fl) (sv_accept s) (ac_submits (sv_acceptor s)) ((sv_clients s)(op \<mapsto> ?cl))"
      by (intro placed_client [OF p False]) (use d in auto)
    then show ?thesis using t q False cl
      by (cases "recv_submit (cl_op cl)") (simp add: tracked_def ioring_submit_def manage_submit_def server_submit_def)
  qed
qed

lemma tracked_received:
  assumes t: "tracked s fl xs" and op: "op \<in> fl" "op \<noteq> sv_accept s" and c: "cqe_more c \<longrightarrow> 0 < sint (cqe_res c)"
  shows "\<exists>xs'. tracked (snd (ioring_complete (manage_complete (server_complete new)) op c s)) (if cqe_more c then fl else fl - {op}) xs'"
proof -
  have pl: "placed (set xs) fl (sv_accept s) (ac_submits (sv_acceptor s)) (sv_clients s)" using t by (simp add: tracked_def)
  from placedD(6) [OF pl _ op(2)] op(1) obtain cl where cl: "sv_clients s op = Some cl" by blast
  let ?cl = "recv_complete c cl" and ?s0 = "if cqe_more c then s else n_ops_sub op s"
  let ?s1 = "?s0\<lparr>sv_clients := (sv_clients s)(op \<mapsto> recv_complete c cl)\<rparr>"
  have d: "op \<notin> set xs" using placedD(1) [OF pl] op(1) by auto
  have k: "cl_submits cl = 0" "rv_live (cl_op cl)" "\<not> cl_ended cl"
    using placedD(5) [OF pl cl] op(1) d by (auto simp: conn_ok_def split: if_splits)
  note new = recv_complete_tracks [OF k c]
  have r: "snd (ioring_complete (manage_complete (server_complete new)) op c s) = (if cl_submits ?cl = 0 then ?s1 else server_push op ?s1)"
    using armed_complete [of s op "server_complete new" c] t op cl k(1)
    by (simp add: tracked_def server_complete_def server_received_def Let_def)
  have q: "iq_repr (io_next ?s1) (io_pending ?s1) xs" using t by (simp add: tracked_def)
  let ?xs = "(if cl_submits ?cl = 0 then [] else [op]) @ xs" and ?fl = "if cqe_more c then fl else fl - {op}"
  from push_if_ok [OF q d, of "cl_submits ?cl = 0"] obtain nx p where
    p: "(if cl_submits ?cl = 0 then ?s1 else server_push op ?s1) = ?s1\<lparr>io_next := nx, io_pending := p\<rparr>" "iq_repr nx p ?xs" by blast
  have "conn_ok (set ?xs) ?fl op ?cl" using new d op(1) by (auto simp: conn_ok_def)
  then have "placed (set ?xs) ?fl (sv_accept s) (ac_submits (sv_acceptor s)) ((sv_clients s)(op \<mapsto> ?cl))"
    by (intro placed_client [OF pl op(2)]) (use new d in auto)
  with t p(2) have "tracked (?s1\<lparr>io_next := nx, io_pending := p\<rparr>) ?fl ?xs"
    by (cases "cqe_more c"; cases "cl_submits ?cl = 0"; simp add: tracked_def)
  then show ?thesis unfolding r p(1) by blast
qed

lemma setup_loop_live: "rv_live (setup_loop i n op) = rv_live op"
  by (induction i n op rule: setup_loop.induct) (simp_all add: set_buf_def)

lemma receiver_new_idle: "receiver_new e bgid fd = (Inr rv, bgid') \<Longrightarrow> \<not> rv_live rv"
  by (auto simp: receiver_new_def setup_ring_def recv_new_def setup_loop_live Let_def split: sum.splits if_splits)

lemma tracked_accepted:
  assumes t: "tracked s fl xs" and op: "sv_accept s \<in> fl"
    and fresh: "sv_clients s (ce_op (conn_of new c s)) = None" "ce_op (conn_of new c s) \<noteq> sv_accept s"
  defines "s' \<equiv> snd (ioring_complete (manage_complete (server_complete new)) (sv_accept s) c s)"
  shows "sv_ended s' \<noteq> None \<or> (\<exists>xs'. tracked s' (if cqe_more c then fl else fl - {sv_accept s}) xs')"
proof -
  let ?acc = "sv_accept s" and ?n = "ac_submits (sv_acceptor s)"
  have pl: "placed (set xs) fl ?acc ?n (sv_clients s)" using t by (simp add: tracked_def)
  let ?s0 = "if cqe_more c then s else n_ops_sub ?acc s" and ?fl = "if cqe_more c then fl else fl - {?acc}"
  let ?e = "conn_of new c s"
  have s': "s' = server_accepted new c ?s0"
    using armed_complete [of s ?acc "server_complete new" c] t op by (simp add: s'_def tracked_def server_complete_def)
  have env: "conn_of new c ?s0 = ?e" by (simp add: conn_of_def)
  obtain res bgid where res: "receiver_new ?e (sv_bgid s) (cqe_res c) = (res, bgid)" by fastforce
  consider (neg) "sint (cqe_res c) < 0" | (fail) e where "\<not> sint (cqe_res c) < 0" "res = Inl e"
    | (ok) rv where "\<not> sint (cqe_res c) < 0" "res = Inr rv" by (cases res) auto
  then show ?thesis
  proof cases
    case neg
    then show ?thesis by (simp add: s' server_accepted_def accept_complete_def)
  next
    case fail
    then show ?thesis using res env by (simp add: s' server_accepted_def accept_complete_def Let_def split: if_splits)
  next
    case ok
    let ?cl = "receive_start rv" and ?r = "ce_op ?e"
    let ?s1 = "?s0\<lparr>sv_clients := (sv_clients s)(?r \<mapsto> ?cl), sv_bgid := bgid\<rparr>"
    let ?a0 = "(sv_acceptor s)\<lparr>ac_spawned := ac_spawned (sv_acceptor s) @ [cqe_res c]\<rparr>"
    let ?a = "if cqe_more c then ?a0 else ?a0\<lparr>ac_submits := ?n + 1\<rparr>"
    have d: "?acc \<notin> set xs" "?r \<notin> set xs" "?r \<notin> fl" "?n = 0"
      using placedD(1,4) [OF pl] placedD(6) [OF pl, of ?r] op fresh by auto
    have cl: "\<not> cl_ended ?cl" "\<not> rv_live (cl_op ?cl)" "cl_submits ?cl = 1"
      using receive_start_tracks receiver_new_idle res ok by blast+
    have q1: "iq_repr (io_next ?s1) (io_pending ?s1) xs" using t by (simp add: tracked_def)
    from server_push_ok [OF this d(2)] obtain nx p where
      p: "server_push ?r ?s1 = ?s1\<lparr>io_next := nx, io_pending := p\<rparr>" "iq_repr nx p (?r # xs)" by blast
    let ?s3 = "?s1\<lparr>io_next := nx, io_pending := p, sv_acceptor := ?a\<rparr>"
    have q3: "iq_repr (io_next ?s3) (io_pending ?s3) (?r # xs)" "?acc \<notin> set (?r # xs)" using p(2) d(1) fresh by auto
    from push_if_ok [OF q3, of "cqe_more c"] obtain nx' p' where
      p': "(if cqe_more c then ?s3 else server_push ?acc ?s3) = ?s3\<lparr>io_next := nx', io_pending := p'\<rparr>"
        "iq_repr nx' p' ((if cqe_more c then [] else [?acc]) @ ?r # xs)" by blast
    have r: "s' = ?s3\<lparr>io_next := nx', io_pending := p'\<rparr>"
      unfolding p'(1) [symmetric] using ok res cl env p(1)
      by (simp add: s' server_accepted_def accept_complete_def Let_def split: if_splits)
    have "conn_ok (insert ?r (set xs)) fl ?r ?cl" using cl d by (simp add: conn_ok_def)
    then have "placed (insert ?r (set xs)) fl ?acc ?n ((sv_clients s)(?r \<mapsto> ?cl))"
      by (intro placed_client [OF pl]) (use d fresh in auto)
    then have "placed (set ((if cqe_more c then [] else [?acc]) @ ?r # xs)) ?fl ?acc
        (if ?acc \<in> set ((if cqe_more c then [] else [?acc]) @ ?r # xs) then 1 else 0) ((sv_clients s)(?r \<mapsto> ?cl))"
      by (rule placed_accept) (use op d q3(2) in auto)
    then have "tracked (?s3\<lparr>io_next := nx', io_pending := p'\<rparr>) ?fl ((if cqe_more c then [] else [?acc]) @ ?r # xs)"
      using t p'(2) d q3(2) by (cases "cqe_more c"; simp add: tracked_def)
    then show ?thesis unfolding r by blast
  qed
qed

text \<open>Every reachable state of a program that has not ended is tracked.\<close>

lemma server_main_tracked:
  assumes "server_fresh s"
  shows "tracked (server_main s) {} [sv_accept s] \<and> sv_ended (server_main s) = None"
proof -
  let ?s1 = "s\<lparr>sv_acceptor := (sv_acceptor s)\<lparr>ac_submits := ac_submits (sv_acceptor s) + 1\<rparr>\<rparr>"
  have "iq_repr (io_next ?s1) (io_pending ?s1) []" "sv_accept s \<notin> set []" using assms by (simp_all add: server_fresh_def)
  from server_push_ok [OF this] obtain nx p where
    "server_push (sv_accept s) ?s1 = ?s1\<lparr>io_next := nx, io_pending := p\<rparr>" "iq_repr nx p [sv_accept s]" by blast
  then show ?thesis using assms by (simp add: server_main_def server_fresh_def tracked_def placed_def)
qed

lemma server_step_tracked:
  assumes "server_step new (s, fl) (s', fl')" "tracked s fl xs"
  shows "sv_ended s' \<noteq> None \<or> (\<exists>xs'. tracked s' fl' xs')"
  using assms(1)
proof (cases rule: server_step.cases)
  case (submit op q x)
  then obtain xs0 where xs: "xs = op # xs0" "iq_repr (io_next s) q xs0"
    using assms(2) iq_pop_front_empty [of "io_next s" "io_pending s"] iq_pop_front_Cons [of "io_next s" "io_pending s"]
    unfolding tracked_def by (cases xs) fastforce+
  then show ?thesis using tracked_submit [of s fl op xs0 q x] assms(2) submit by auto
next
  case (complete op c)
  then show ?thesis
    using tracked_received [OF assms(2), of op c new] tracked_accepted [OF assms(2), of new c] by (cases "op = sv_accept s") auto
next
  case (counters sq cq t n)
  then show ?thesis using assms(2) by (auto simp: tracked_def)
qed

lemma server_reachable_tracked:
  "server_reachable new s0 sf \<Longrightarrow> server_fresh s0 \<Longrightarrow> sv_ended (fst sf) \<noteq> None \<or> (\<exists>xs. tracked (fst sf) (snd sf) xs)"
proof (induction rule: server_reachable.induct)
  case init
  then show ?case using server_main_tracked by auto
next
  case (step s s')
  obtain a fl b fl' where p: "s = (a, fl)" "s' = (b, fl')" by (cases s; cases s') auto
  show ?case
  proof (cases "sv_ended a = None")
    case True
    then show ?thesis using step p server_step_tracked [of new a fl b fl'] by auto
  next
    case False
    then have "sv_ended b \<noteq> None" using step(2) p by (auto elim: server_step.cases)
    then show ?thesis using p by simp
  qed
qed

section \<open>A pass of the run loop\<close>

text \<open>Without a stop, \<open>sq_loop\<close> keeps what taking one operation from the queue and submitting it keeps.\<close>

lemma sq_loop_keeps:
  assumes keep: "\<And>op q x s. P s \<Longrightarrow> iq_pop_front (io_next s) (io_pending s) = Some (Some op, q) \<Longrightarrow>
      P (snd (ioring_submit sub op x (s\<lparr>io_pending := q\<rparr>)))"
    and run: "sq_loop sub com mx False r tail ring s = Some y" and "P s"
  shows "P (snd (snd (snd y)))"
proof -
  let ?P = "\<lambda>sub' com' (mx :: u32) (stop :: bool) (r :: u32) (tail :: u32) (ring :: sq_ring) s (y :: u32 \<times> u32 \<times> sq_ring \<times> _).
    sub' = sub \<longrightarrow> \<not> stop \<longrightarrow> P s \<longrightarrow> P (snd (snd (snd y)))"
  have step: "?P sub' com' mx stop r tail ring s y"
    if IH: "\<And>sub' com' mx stop r tail ring s y. loop sub' com' mx stop r tail ring s = Some y \<Longrightarrow> ?P sub' com' mx stop r tail ring s y"
      and body: "(if iq_empty (io_pending s) \<or> \<not> r < mx then Some (r, tail, ring, s)
      else Option.bind (iq_pop_front (io_next s) (io_pending s)) (\<lambda>(p, q). Option.bind (deref p) (\<lambda>op.
        let m = tail AND sq_mask ring;
            (x, s1) = ioring_submit sub' op (sq_sqes ring m) (s\<lparr>io_pending := q\<rparr>);
            stop1 = (stop \<and> sqe_opcode x \<noteq> op_async_cancel)
        in if stop1
           then loop sub' com' mx stop1 r tail (ring\<lparr>sq_sqes := (sq_sqes ring)(m := x)\<rparr>)
                  (manual_stop (manage_complete com') op s1)
           else loop sub' com' mx stop1 (r + 1) (tail + 1)
                  (ring\<lparr>sq_sqes := (sq_sqes ring)(m := x\<lparr>sqe_user_data := op\<rparr>), sq_array := (sq_array ring)(m := m)\<rparr>)
                  s1))) = Some y"
    for loop sub' com' mx stop r tail ring s y
  proof (intro impI)
    assume eq: "sub' = sub" "\<not> stop" and p: "P s"
    show "P (snd (snd (snd y)))"
    proof (cases "iq_empty (io_pending s) \<or> \<not> r < mx")
      case True
      then have "y = (r, tail, ring, s)" using body by simp
      then show ?thesis using p by simp
    next
      case False
      with body obtain op q where q: "iq_pop_front (io_next s) (io_pending s) = Some (Some op, q)"
        by (auto simp: Option.bind_eq_Some_conv deref_def)
      define m where "m = tail AND sq_mask ring"
      obtain x s1 where x: "ioring_submit sub op (sq_sqes ring m) (s\<lparr>io_pending := q\<rparr>) = (x, s1)" by fastforce
      have "loop sub com' mx False (r + 1) (tail + 1)
           (ring\<lparr>sq_sqes := (sq_sqes ring)(m := x\<lparr>sqe_user_data := op\<rparr>), sq_array := (sq_array ring)(m := m)\<rparr>) s1 = Some y"
        using body False q x eq by (auto simp: m_def [symmetric] Let_def)
      from IH [OF this] keep [OF p q, of "sq_sqes ring m"] x eq show ?thesis by simp
    qed
  qed
  have "?P sub com mx False r tail ring s y" by (rule sq_loop.raw_induct [where P = ?P, OF step run])
  then show ?thesis using assms(3) by simp
qed

text \<open>
  What the entries of a pass rely on: each is for an operation that is armed when it is handled, and the rules of \<open>complete\<close>
  hold. \<open>armed_after\<close> is what the kernel still holds after them.
\<close>

fun armed_after :: "cqe list \<Rightarrow> u64 set \<Rightarrow> u64 set" where
  "armed_after [] fl = fl"
| "armed_after (c # cs) fl = armed_after cs (if cqe_more c then fl else fl - {cqe_user_data c})"

fun kernel_entries :: "server_fn \<Rightarrow> cqe list \<Rightarrow> 'z server_scheme \<Rightarrow> u64 set \<Rightarrow> bool" where
  "kernel_entries new [] s fl \<longleftrightarrow> sv_ended s = None"
| "kernel_entries new (c # cs) s fl \<longleftrightarrow> sv_ended s = None \<and> cqe_user_data c \<in> fl \<and> (cqe_more c \<longrightarrow> 0 < sint (cqe_res c))
     \<and> (cqe_user_data c = sv_accept s \<longrightarrow>
          sv_clients s (ce_op (conn_of new c s)) = None \<and> ce_op (conn_of new c s) \<noteq> sv_accept s)
     \<and> kernel_entries new cs (snd (ioring_complete (manage_complete (server_complete new)) (cqe_user_data c) c s))
         (if cqe_more c then fl else fl - {cqe_user_data c})"

lemma complete_all_reachable:
  "server_reachable new s0 (s, fl) \<Longrightarrow> kernel_entries new cs s fl \<Longrightarrow>
    server_reachable new s0 (complete_all (manage_complete (server_complete new)) cs s, armed_after cs fl)
    \<and> sv_ended (complete_all (manage_complete (server_complete new)) cs s) = None"
proof (induction cs arbitrary: s fl)
  case Nil
  then show ?case by simp
next
  case (Cons c cs)
  have "server_step new (s, fl) (snd (ioring_complete (manage_complete (server_complete new)) (cqe_user_data c) c s),
      if cqe_more c then fl else fl - {cqe_user_data c})"
    by (rule server_step.complete) (use Cons.prems(2) in auto)
  from server_reachable.step [OF Cons.prems(1) this] Cons.IH Cons.prems(2) show ?case by simp
qed

lemma counters_reachable:
  assumes "server_reachable new s0 (s, fl)"
  shows "server_reachable new s0 (s\<lparr>sc_cq := ring, sc_total := t\<rparr>, fl)"
    and "server_reachable new s0 (s\<lparr>sc_sq := sq, sc_total := t, sc_newly := n\<rparr>, fl)"
  using server_reachable.step [OF assms server_step.counters [where sq = "sc_sq s" and cq = ring and t = t and n = "sc_newly s"]]
    server_reachable.step [OF assms server_step.counters [where sq = sq and cq = "sc_cq s" and t = t and n = n]] by simp_all

lemma server_submit_ended [simp]: "sv_ended (snd (server_submit op x s)) = sv_ended s"
  by (auto simp: server_submit_def split: option.split prod.split)

lemma manage_submit_ended [simp]: "sv_ended (snd (ioring_submit server_submit op x s)) = sv_ended s"
  by (simp add: ioring_submit_def manage_submit_def split: task_kind.split)

lemma server_pass_ok:
  assumes reach: "server_reachable new s0 (s, fl)"
    and ld: "\<And>i. i \<le> j \<Longrightarrow> ld i = cq_head (sc_cq s) + of_nat (f i)" "\<And>i. i < j \<Longrightarrow> i < f i" "f j = j" "\<And>i. i \<le> j \<Longrightarrow> f i < 2 ^ 32"
    and kn: "kernel_entries new (map (cq_at (sc_cq s)) [0..<j]) s fl"
    and run: "run_some server_submit (server_complete new) (\<lambda>_. Some) ld False s = Some s'"
  shows "\<exists>fl'. server_reachable new s0 (s', fl') \<and> sv_ended s' = None"
proof -
  let ?com = "server_complete new" and ?cs = "map (cq_at (sc_cq s)) [0..<j]"
  let ?s1 = "complete_all (manage_complete ?com) ?cs s"
  let ?P = "\<lambda>t. (\<exists>fl'. server_reachable new s0 (t, fl')) \<and> sv_ended t = None"
  from run obtain n ring s2 where s2: "cq_complete ld ?com (sc_cq s) s = Some (n, ring, s2)"
    and r: "sched_submit server_submit ?com (\<lambda>_. Some) False (s2\<lparr>sc_cq := ring, sc_total := sc_total s2 - int (unat n)\<rparr>) = Some s'"
    by (auto simp: run_some_def Option.bind_eq_Some_conv)
  let ?s3 = "s2\<lparr>sc_cq := ring, sc_total := sc_total s2 - int (unat n)\<rparr>"
  have "s2 = ?s1" using cq_complete_runs [OF ld, of ?com s] s2 by simp
  then have p3: "?P ?s3" using complete_all_reachable [OF reach kn] counters_reachable(1) [of new s0 s2] by auto
  from r obtain mx k t1 r1 ring' s4 where
    l: "sq_loop server_submit ?com mx False 0 (sq_tail (sc_sq s2)) (sc_sq s2) ?s3 = Some (k, t1, r1, s4)"
    and s': "s' = s4\<lparr>sc_sq := ring', sc_total := sc_total s4 + int (unat k), sc_newly := sc_newly s4 + int (unat k)\<rparr>"
    by (auto simp: sched_submit_def sq_submit_def Let_def Option.bind_eq_Some_conv)
  have "?P (snd (ioring_submit server_submit op x (t\<lparr>io_pending := q\<rparr>)))"
    if "?P t" "iq_pop_front (io_next t) (io_pending t) = Some (Some op, q)" for op q x t
    using that server_step.submit [of t op q new _ x] server_reachable.step by fastforce
  from sq_loop_keeps [where P = ?P, OF this l p3] have p4: "?P s4" by simp
  then obtain fl' where fl': "server_reachable new s0 (s4, fl')" by blast
  show ?thesis using counters_reachable(2) [OF fl'] p4 unfolding s' by fastforce
qed

lemma server_submit_frame: "submit_frame server_submit"
  by (auto simp: submit_frame_def queue_frame_def server_submit_def split: option.split prod.split)

text \<open>Such a pass always succeeds: the queue of a tracked state is well formed after the completions, and the counters are kept.\<close>

lemma server_pass_runs:
  assumes fresh: "server_fresh s0" and reach: "server_reachable new s0 (s, fl)" and inv: "sched_inv k s"
    and ld: "\<And>i. i \<le> j \<Longrightarrow> ld i = cq_head (sc_cq s) + of_nat (f i)" "\<And>i. i < j \<Longrightarrow> i < f i" "f j = j" "\<And>i. i \<le> j \<Longrightarrow> f i < 2 ^ 32"
    and kn: "kernel_entries new (map (cq_at (sc_cq s)) [0..<j]) s fl"
    and fin: "int (length (filter final (map (cq_at (sc_cq s)) [0..<j]))) \<le> sc_total s"
  shows "\<exists>s' fl'. run_some server_submit (server_complete new) (\<lambda>_. Some) ld False s = Some s' \<and> sched_inv k s'
    \<and> server_reachable new s0 (s', fl') \<and> sv_ended s' = None"
proof -
  let ?s1 = "complete_all (manage_complete (server_complete new)) (map (cq_at (sc_cq s)) [0..<j]) s"
  from complete_all_reachable [OF reach kn] server_reachable_tracked [OF _ fresh, of new]
  obtain xs where "tracked ?s1 (armed_after (map (cq_at (sc_cq s)) [0..<j]) fl) xs" by fastforce
  then have q: "iq_repr (io_next ?s1) (io_pending ?s1) xs" by (simp add: tracked_def)
  have "drain_ok (\<lambda>_. Some)" by (simp add: drain_ok_def)
  from run_some_ok [OF inv server_submit_frame server.frames(1) this ld fin q] obtain s' where
    s': "run_some server_submit (server_complete new) (\<lambda>_. Some) ld False s = Some s'" "sched_inv k s'" by blast
  from server_pass_ok [OF reach ld kn s'(1)] s' show ?thesis by blast
qed

section \<open>Properties\<close>

definition demo_server :: server where
  "demo_server = \<lparr>n_ops = (\<lambda>_. 0), kind = (\<lambda>_. Operation), io_next = Map.empty, io_pending = iq_new,
     sc_sq = demo_sq, sc_cq = \<lparr>cq_head = 0, cq_cqes = (\<lambda>_. \<lparr>cqe_user_data = 16, cqe_res = 5, cqe_flags = 2\<rparr>), cq_mask = 7\<rparr>,
     sc_cq_entries = 8, sc_total = 0, sc_newly = 2, sv_accept = 16, sv_listen = 3, sv_addr = 100, sv_addrlen = 228,
     sv_acceptor = \<lparr>ac_spawned = [], ac_submits = 0\<rparr>, sv_clients = Map.empty, sv_bgid = 0, sv_ended = None\<rparr>"

definition demo_env :: server_fn where
  "demo_env fd n = \<lparr>ce_op = 32 + 64 * of_nat n, ce_bufs = (\<lambda>_. \<lparr>b_addr = 0, b_len = 0, b_bid = 0\<rparr>), ce_mem = Inr 1048576,
     ce_ring = Inr 8192, ce_register = (\<lambda>_. 0)\<rparr>"

definition demo_armed :: server where
  "demo_armed = snd (ioring_submit server_submit 16 sqe_zero ((server_main demo_server)\<lparr>io_pending := iq_new\<rparr>))"

lemma demo_armed_ok:
  "server_fresh demo_server" "server_reachable demo_env demo_server (demo_armed, {16})" "sched_inv 2 demo_armed" "own demo_armed = own demo_server"
  "n_ops demo_armed 16 = 1" "kind demo_armed = (\<lambda>_. Operation)" "sv_accept demo_armed = 16" "sv_clients demo_armed = Map.empty"
  "sv_ended demo_armed = None" "ac_spawned (sv_acceptor demo_armed) = []"
proof -
  show f: "server_fresh demo_server" by (simp add: server_fresh_def demo_server_def iq_repr_new)
  have m: "server_main demo_server = demo_server\<lparr>sv_acceptor := \<lparr>ac_spawned = [], ac_submits = 1\<rparr>, io_next := Map.empty(16 := nullptr),
      io_pending := \<lparr>iq_head = Some 16, iq_tail = Some 16\<rparr>\<rparr>"
    by (simp add: server_main_def server_push_def sched_push_def demo_server_def iq_push_front_def iq_new_def)
  have pop: "iq_pop_front (io_next (server_main demo_server)) (io_pending (server_main demo_server)) = Some (Some 16, iq_new)"
    by (simp add: m iq_pop_front_def iq_empty_def iq_new_def)
  have e: "sv_ended (server_main demo_server) = None" unfolding m by (simp add: demo_server_def)
  show "server_reachable demo_env demo_server (demo_armed, {16})"
    using server_reachable.step [OF server_reachable.init server_step.submit [OF e pop]] by (simp add: demo_armed_def)
  show o: "own demo_armed = own demo_server"
    unfolding demo_armed_def m by (simp add: demo_server_def ioring_submit_def manage_submit_def server_submit_def own_def)
  have "sched_inv 2 demo_server" by (simp add: sched_inv_def demo_server_def demo_sq_def)
  with sched_inv_own [OF o] show "sched_inv 2 demo_armed" by simp
  show "n_ops demo_armed 16 = 1"
    unfolding demo_armed_def m by (simp add: demo_server_def ioring_submit_def manage_submit_def server_submit_def)
  show "kind demo_armed = (\<lambda>_. Operation)" "sv_accept demo_armed = 16" "sv_clients demo_armed = Map.empty"
    "sv_ended demo_armed = None" "ac_spawned (sv_acceptor demo_armed) = []"
    unfolding demo_armed_def m by (simp_all add: demo_server_def ioring_submit_def manage_submit_def server_submit_def)
qed

lemma server_push_sel [simp]:
  "sv_ended (server_push op s) = sv_ended s" "sv_clients (server_push op s) = sv_clients s"
  by (auto simp: server_push_def sched_push_def ub_bind split: option.split)

definition demo_accepted :: server where
  "demo_accepted = snd (ioring_complete (manage_complete (server_complete demo_env)) 16 \<lparr>cqe_user_data = 16, cqe_res = 5, cqe_flags = 2\<rparr> demo_armed)"

lemma demo_accepted_ok: "sv_ended demo_accepted = None \<and> sv_accept demo_armed \<noteq> 32
    \<and> sv_clients demo_accepted 32 \<noteq> None \<and> server_reachable demo_env demo_server (demo_accepted, {16})"
proof -
  let ?c = "\<lparr>cqe_user_data = 16, cqe_res = 5, cqe_flags = 2\<rparr>"
  have more: "cqe_more ?c" by (simp add: cqe_more_def cqe_f_more_def)
  have env: "ce_op (conn_of demo_env ?c demo_armed) = 32" by (simp add: conn_of_def demo_env_def demo_armed_ok)
  have acc: "demo_accepted = server_accepted demo_env ?c demo_armed"
    using armed_complete [OF demo_armed_ok(5,6), of "server_complete demo_env" ?c] more
    by (simp add: demo_accepted_def server_complete_def demo_armed_ok)
  obtain rv where rv: "receiver_new (conn_of demo_env ?c demo_armed) (sv_bgid demo_armed) 5 = (Inr rv, sv_bgid demo_armed + 1)"
    by (simp add: receiver_new_def conn_of_def demo_env_def setup_ring_def)
  have "sv_ended demo_accepted = None \<and> sv_clients demo_accepted 32 \<noteq> None"
    unfolding acc using more env rv demo_armed_ok(9) by (simp add: server_accepted_def accept_complete_def Let_def)
  moreover have "server_step demo_env (demo_armed, {16}) (demo_accepted, {16})"
    unfolding demo_accepted_def using server_step.complete [of demo_armed 16 "{16}" ?c demo_env] more env
    by (simp add: demo_armed_ok)
  ultimately show ?thesis using server_reachable.step [OF demo_armed_ok(2)] by (simp add: demo_armed_ok)
qed

text \<open>
  C31: no connection is ever lost. As long as the server has not ended, every receiver whose stream has not ended is in
  exactly one place: queued to be submitted, or armed in the kernel, and \<open>__multishot_live_\<close> says which. So is the accept
  operation, across every order of accepted connections, receptions, exhausted buffer rings and ended multishot requests.
\<close>

theorem server_no_connection_lost:
  assumes "server_fresh s0" "server_reachable new s0 (s, fl)" "sv_ended s = None"
  shows "\<exists>xs. iq_repr (io_next s) (io_pending s) xs \<and> (sv_accept s \<in> set xs) \<noteq> (sv_accept s \<in> fl)
    \<and> (\<forall>op cl. sv_clients s op = Some cl \<longrightarrow> \<not> cl_ended cl \<longrightarrow> (op \<in> set xs) \<noteq> (op \<in> fl) \<and> rv_live (cl_op cl) = (op \<in> fl))"
proof -
  from server_reachable_tracked [OF assms(2,1)] assms(3) obtain xs where xs: "tracked s fl xs" by auto
  then have p: "placed (set xs) fl (sv_accept s) (ac_submits (sv_acceptor s)) (sv_clients s)" by (simp add: tracked_def)
  have "(op \<in> set xs) \<noteq> (op \<in> fl) \<and> rv_live (cl_op cl) = (op \<in> fl)" if "sv_clients s op = Some cl" "\<not> cl_ended cl" for op cl
    using placedD(5) [OF p that(1)] that(2) placedD(1) [OF p] by (auto simp: conn_ok_def)
  moreover have "iq_repr (io_next s) (io_pending s) xs" "(sv_accept s \<in> set xs) \<noteq> (sv_accept s \<in> fl)"
    using xs placedD(1,3) [OF p] by (auto simp: tracked_def)
  ultimately show ?thesis by blast
qed

theorem server_no_connection_lost_witness:
  "\<exists>xs cl. iq_repr (io_next demo_accepted) (io_pending demo_accepted) xs \<and> sv_clients demo_accepted 32 = Some cl
    \<and> (cl_ended cl \<or> 32 \<in> set xs)"
proof -
  obtain cl where cl: "sv_clients demo_accepted 32 = Some cl" using demo_accepted_ok by blast
  have "server_reachable demo_env demo_server (demo_accepted, {16})" "sv_ended demo_accepted = None" using demo_accepted_ok by simp_all
  from server_no_connection_lost [OF demo_armed_ok(1) this] obtain xs where
    "iq_repr (io_next demo_accepted) (io_pending demo_accepted) xs"
    "\<not> cl_ended cl \<longrightarrow> ((32 :: u64) \<in> set xs) \<noteq> (32 \<in> {16 :: u64})" using cl by blast
  then show ?thesis using cl by auto
qed

text \<open>
  C32: a pass of \<open>_M_run_some\<close> of the server without a stop has no undefined behaviour, whatever is accepted, received or ended
  in it and while the kernel publishes entries, keeps the scheduler's counters, and is a sequence of the steps above: what holds
  of every reachable state holds before and after every pass of the program's loop.
\<close>

theorem server_pass_refines_steps:
  assumes "server_fresh s0" "server_reachable new s0 (s, fl)" "sched_inv k s"
    and "\<And>i. i \<le> j \<Longrightarrow> ld i = cq_head (sc_cq s) + of_nat (f i)" "\<And>i. i < j \<Longrightarrow> i < f i" "f j = j" "\<And>i. i \<le> j \<Longrightarrow> f i < 2 ^ 32"
    and "kernel_entries new (map (cq_at (sc_cq s)) [0..<j]) s fl"
    and "int (length (filter final (map (cq_at (sc_cq s)) [0..<j]))) \<le> sc_total s"
  shows "\<exists>s' fl'. run_some server_submit (server_complete new) (\<lambda>_. Some) ld False s = Some s' \<and> sched_inv k s'
    \<and> server_reachable new s0 (s', fl') \<and> sv_ended s' = None"
  by (rule server_pass_runs [OF assms])

theorem server_pass_refines_steps_witness:
  "\<exists>s' fl'. run_some server_submit (server_complete demo_env) (\<lambda>_. Some) (\<lambda>_. 1) False demo_armed = Some s' \<and> sched_inv 2 s'
    \<and> server_reachable demo_env demo_server (s', fl')"
proof -
  have cq: "sc_cq demo_armed = sc_cq demo_server" "sc_total demo_armed = sc_total demo_server"
    using ownD [OF demo_armed_ok(4)] by simp_all
  let ?c = "\<lparr>cqe_user_data = 16, cqe_res = 5, cqe_flags = 2\<rparr>"
  have at: "map (cq_at (sc_cq demo_armed)) [0..<1] = [?c]" by (simp add: cq cq_at_def demo_server_def)
  have ld: "(1 :: u32) = cq_head (sc_cq demo_armed) + of_nat 1" by (simp add: cq demo_server_def)
  have kn: "kernel_entries demo_env (map (cq_at (sc_cq demo_armed)) [0..<1]) demo_armed {16}"
    using demo_accepted_ok unfolding at
    by (simp add: demo_armed_ok cqe_more_def cqe_f_more_def conn_of_def demo_env_def demo_accepted_def)
  have fin: "int (length (filter final (map (cq_at (sc_cq demo_armed)) [0..<1]))) \<le> sc_total demo_armed"
    unfolding at by (simp add: cq demo_server_def final_def cqe_f_more_def)
  show ?thesis
    using server_pass_refines_steps [OF demo_armed_ok(1-3), where f = "\<lambda>_. 1" and j = 1 and ld = "\<lambda>_. 1", OF ld _ _ _ kn fin] by auto
qed

end
